(* ===== verification/Prelude.thy ===== *)
theory Prelude
  imports Main "HOL-Library.Word" "HOL-Library.Monad_Syntax"
begin

unbundle bit_operations_syntax

text \<open>
  Shared vocabulary of the development: names for the machine integers of the LP64 target,
  reference functions that write and read a natural number in a base (what \<open>%u\<close>,
  \<open>%x\<close> and \<open>strtol\<close> promise), and generic lemmas on lists and words.
  The model's convention for C: a string is the list of its bytes without the terminating
  NUL, a result of type \<open>option\<close> is \<open>None\<close> exactly where the C program has
  undefined behaviour (a read or write outside an object, a dereference of NULL).
\<close>

section \<open>Outcomes\<close>

text \<open>
  How a call can end besides returning: a failed \<open>assert\<close>, a call of \<open>exit\<close>, a thread
  that locks a mutex it already holds, and undefined behaviour.
\<close>

datatype fault = Assertion_Failed | Exit_Called | Deadlock | Undefined_Behaviour

datatype 'a outcome = Ok 'a | Fail fault

primrec and_then :: "'a outcome \<Rightarrow> ('a \<Rightarrow> 'b outcome) \<Rightarrow> 'b outcome" where
  "and_then (Ok x) f = f x"
| "and_then (Fail e) f = Fail e"

definition defined :: "'a option \<Rightarrow> 'a outcome" where
  "defined x = (case x of None \<Rightarrow> Fail Undefined_Behaviour | Some y \<Rightarrow> Ok y)"

lemma defined_simps [simp]:
  "defined None = Fail Undefined_Behaviour" "defined (Some y) = Ok y"
  by (simp_all add: defined_def)

lemma and_then_Ok_iff: "and_then m f = Ok y \<longleftrightarrow> (\<exists>x. m = Ok x \<and> f x = Ok y)"
  by (cases m) auto

lemma and_then_assoc: "and_then (and_then m f) g = and_then m (\<lambda>x. and_then (f x) g)"
  by (cases m) auto

section \<open>Machine integers\<close>

type_synonym u8 = "8 word"
type_synonym u32 = "32 word"
type_synonym u64 = "64 word"

named_theorems flag_simps \<open>tests of single bits after setting or clearing others\<close>
named_theorems emit_simps \<open>what the printing routines send to their output\<close>

abbreviation NUL :: char where
  "NUL \<equiv> CHR 0x00"

text \<open>C's \<open>flags & F\<close> in a condition.\<close>

definition has_flag :: "u32 \<Rightarrow> u32 \<Rightarrow> bool" where
  "has_flag flags f \<longleftrightarrow> flags AND f \<noteq> 0"

lemma has_flag_or [flag_simps]:
  "has_flag (a OR b) f \<longleftrightarrow> has_flag a f \<or> has_flag b f"
  unfolding has_flag_def bit.conj_disj_distrib2 by (metis or_eq_0_iff)

lemma has_flag_zero [simp]: "\<not> has_flag 0 f"
  by (simp add: has_flag_def)

text \<open>C's \<open>flags &= ~F\<close>.\<close>

definition clear_flag :: "u32 \<Rightarrow> u32 \<Rightarrow> u32" where
  "clear_flag flags f = flags AND NOT f"

lemma has_flag_clear_other [flag_simps]: "a AND f = 0 \<Longrightarrow> has_flag (clear_flag x a) f = has_flag x f"
proof -
  assume "a AND f = 0"
  then have "(x AND NOT a) AND f = x AND f"
    by (auto simp: bit_eq_iff bit_simps)
  then show ?thesis by (simp add: has_flag_def clear_flag_def)
qed

lemma has_flag_clear_same [flag_simps]: "\<not> has_flag (clear_flag x a) a"
proof -
  have "(x AND NOT a) AND a = 0"
    by (auto simp: bit_eq_iff bit_simps)
  then show ?thesis by (simp add: has_flag_def clear_flag_def)
qed

lemma has_flag_numerals [flag_simps]:
  "has_flag (numeral a) (numeral b) \<longleftrightarrow> (numeral a :: u32) AND numeral b \<noteq> 0"
  "has_flag 1 (numeral b) \<longleftrightarrow> (1 :: u32) AND numeral b \<noteq> 0"
  "has_flag (numeral a) 1 \<longleftrightarrow> (numeral a :: u32) AND 1 \<noteq> 0"
  "has_flag 1 1"
  by (simp_all add: has_flag_def)

lemma has_flag_any: "has_flag x (a OR b) \<longleftrightarrow> has_flag x a \<or> has_flag x b"
  unfolding has_flag_def bit.conj_disj_distrib by (metis or_eq_0_iff)

lemma unat_u32: "unat (w :: u32) < 4294967296"
  using unsigned_less [of w, where ?'a = nat] by simp

lemma unat_u64: "unat (w :: u64) < 18446744073709551616"
  using unsigned_less [of w, where ?'a = nat] by simp

lemma unat_Suc_less: "(i :: u32) < w \<Longrightarrow> unat (i + 1) = Suc (unat i)"
  using unat_u32 [of w] by (simp add: word_less_nat_alt unat_word_ariths)

lemma unat_of_nat_u32: "n < 4294967296 \<Longrightarrow> unat (of_nat n :: u32) = n"
  by (simp add: take_bit_nat_eq_self unsigned_of_nat)

lemma unat_of_nat_u64: "n < 18446744073709551616 \<Longrightarrow> unat (of_nat n :: u64) = n"
  by (simp add: take_bit_nat_eq_self unsigned_of_nat)

lemma sint_of_nat_u32: "n < 2147483648 \<Longrightarrow> sint (of_nat n :: u32) = int n"
  by (simp add: signed_of_nat signed_take_bit_int_eq_self)

section \<open>Numbers in a base\<close>

text \<open>The digits of a number, least significant first, and the number of a digit list.\<close>

fun nat_digits :: "nat \<Rightarrow> nat \<Rightarrow> nat list" where
  "nat_digits b n = (if b < 2 \<or> n < b then [n] else n mod b # nat_digits b (n div b))"

declare nat_digits.simps [simp del]

fun digits_val :: "nat \<Rightarrow> nat list \<Rightarrow> nat" where
  "digits_val b [] = 0"
| "digits_val b (d # ds) = d + b * digits_val b ds"

lemma nat_digits_not_Nil [simp]: "nat_digits b n \<noteq> []"
  by (subst nat_digits.simps) simp

lemma digits_val_nat_digits [simp]: "digits_val b (nat_digits b n) = n"
  by (induction b n rule: nat_digits.induct) (subst nat_digits.simps, simp)

lemma digits_val_append: "digits_val b (xs @ ys) = digits_val b xs + b ^ length xs * digits_val b ys"
  by (induction xs) (auto simp: algebra_simps)

lemma nat_digits_less: "2 \<le> b \<Longrightarrow> d \<in> set (nat_digits b n) \<Longrightarrow> d < b"
proof (induction b n rule: nat_digits.induct)
  case (1 b n)
  show ?case
  proof (cases "n < b")
    case True
    with "1.prems" show ?thesis by (subst (asm) nat_digits.simps) simp
  next
    case False
    with "1.prems" have "d = n mod b \<or> d \<in> set (nat_digits b (n div b))"
      by (subst (asm) nat_digits.simps) simp
    with False 1 show ?thesis by auto
  qed
qed

lemma length_nat_digits_le:
  "2 \<le> b \<Longrightarrow> n < b ^ k \<Longrightarrow> 0 < k \<Longrightarrow> length (nat_digits b n) \<le> k"
proof (induction k arbitrary: n)
  case 0
  then show ?case by simp
next
  case (Suc k)
  show ?case
  proof (cases "n < b")
    case True
    then show ?thesis by (subst nat_digits.simps) simp
  next
    case False
    then have "k \<noteq> 0" using Suc.prems by (cases k) auto
    moreover have "n div b < b ^ k"
      using Suc.prems by (simp add: less_mult_imp_div_less mult.commute)
    ultimately have "length (nat_digits b (n div b)) \<le> k" using Suc by simp
    with False Suc.prems(1) show ?thesis by (subst nat_digits.simps) simp
  qed
qed

text \<open>The character of a digit, as \<open>'0' + d\<close> or \<open>'a' + d - 10\<close>.\<close>

definition digit_char :: "bool \<Rightarrow> nat \<Rightarrow> char" where
  "digit_char upper d =
     (if d < 10 then char_of (48 + d) else char_of ((if upper then 65 else 97) + d - 10))"

lemma digit_char_zero [simp]: "digit_char u 0 = CHR ''0''"
  by (cases u) code_simp+

definition num_string :: "bool \<Rightarrow> nat \<Rightarrow> nat \<Rightarrow> string" where
  "num_string upper b n = map (digit_char upper) (rev (nat_digits b n))"

abbreviation dec_string :: "nat \<Rightarrow> string" where
  "dec_string \<equiv> num_string False 10"

abbreviation hex_string :: "nat \<Rightarrow> string" where
  "hex_string \<equiv> num_string False 16"

lemma num_string_not_Nil [simp]: "num_string u b n \<noteq> []"
  by (simp add: num_string_def)

definition digit_of_char :: "char \<Rightarrow> nat option" where
  "digit_of_char c =
     (let n = of_char c in
      if 48 \<le> n \<and> n \<le> 57 then Some (n - 48)
      else if 97 \<le> n \<and> n \<le> 102 then Some (n - 87)
      else if 65 \<le> n \<and> n \<le> 70 then Some (n - 55) else None)"

lemma of_char_char_of_nat: "m < 256 \<Longrightarrow> of_char (char_of m :: char) = (m :: nat)"
  by simp

lemma digit_of_char_digit_char [simp]: "d < 16 \<Longrightarrow> digit_of_char (digit_char u d) = Some d"
  by (cases u) (auto simp: digit_of_char_def digit_char_def of_char_char_of_nat Let_def)

lemma digit_char_values:
  "map (digit_char False) [0..<16] = ''0123456789abcdef''"
  "map (digit_char True) [0..<16] = ''0123456789ABCDEF''"
  by code_simp+

text \<open>Reading the longest prefix of digits, most significant first.\<close>

definition stops :: "nat \<Rightarrow> string \<Rightarrow> bool" where
  "stops b s \<longleftrightarrow>
     (case s of [] \<Rightarrow> True
      | c # _ \<Rightarrow> (case digit_of_char c of None \<Rightarrow> True | Some d \<Rightarrow> b \<le> d))"

fun read_nat :: "nat \<Rightarrow> nat \<Rightarrow> string \<Rightarrow> nat \<times> string" where
  "read_nat b acc [] = (acc, [])"
| "read_nat b acc (c # cs) =
     (case digit_of_char c of None \<Rightarrow> (acc, c # cs)
      | Some d \<Rightarrow> if d < b then read_nat b (acc * b + d) cs else (acc, c # cs))"

lemma read_nat_stops: "stops b s \<Longrightarrow> read_nat b acc s = (acc, s)"
  by (cases s) (auto simp: stops_def split: option.splits)

lemma read_nat_digits:
  assumes "\<forall>d \<in> set ds. d < b" "b \<le> 16" "stops b rest"
  shows "read_nat b acc (map (digit_char u) (rev ds) @ rest) =
           (acc * b ^ length ds + digits_val b ds, rest)"
  using assms
proof (induction ds arbitrary: rest acc rule: rev_induct)
  case Nil
  then show ?case by (simp add: read_nat_stops)
next
  case (snoc d ds)
  then show ?case by (simp add: digits_val_append algebra_simps)
qed

lemma read_nat_num_string [simp]:
  assumes "2 \<le> b" "b \<le> 16" "stops b rest"
  shows "read_nat b 0 (num_string u b n @ rest) = (n, rest)"
  unfolding num_string_def using assms
  by (subst read_nat_digits) (auto dest: nat_digits_less)

lemma num_string_digits:
  assumes "2 \<le> b" "c \<in> set (num_string u b n)"
  shows "\<exists>d < b. c = digit_char u d"
  using assms by (auto simp: num_string_def dest: nat_digits_less)

lemma length_num_string: "length (num_string u b n) = length (nat_digits b n)"
  by (simp add: num_string_def)

lemma replicate_comm: "replicate m x @ replicate n x = replicate n x @ replicate m x"
  by (simp add: replicate_add [symmetric] add.commute)

end
