(* ===== verification/Gadget.thy ===== *)
theory Gadget
  imports Prelude
begin

text \<open>
  The output gadget of \<open>src/printf.c\<close>: every printing function of the library sends its
  characters, one at a time, to an \<open>output_gadget_t\<close>, which stores them in a buffer of
  limited size, hands them to a function, or only counts them. A call of the output function
  is recorded in the model in \<open>og_calls\<close>, with the extra argument it is given.
  The section on emission shows that a gadget depends on the characters only through the whole
  string sent to it, so that the rest of the library is specified by strings.
\<close>

section \<open>The gadget\<close>

datatype out_function = Putchar_Wrapper | User_Function

record output_gadget =
  og_function :: "out_function option"
  og_extra_arg :: u64
  og_buffer :: "char list option"
  og_pos :: u32
  og_max_chars :: u32
  og_calls :: "(char \<times> u64) list"

text \<open>\<open>INT_MAX\<close>\<close>

definition PRINTF_MAX_POSSIBLE_BUFFER_SIZE :: u32 where
  "PRINTF_MAX_POSSIBLE_BUFFER_SIZE = 0x7FFFFFFF"

definition FLAGS_ZEROPAD :: u32 where "FLAGS_ZEROPAD = 0x1"
definition FLAGS_LEFT :: u32 where "FLAGS_LEFT = 0x2"
definition FLAGS_PLUS :: u32 where "FLAGS_PLUS = 0x4"
definition FLAGS_SPACE :: u32 where "FLAGS_SPACE = 0x8"
definition FLAGS_HASH :: u32 where "FLAGS_HASH = 0x10"
definition FLAGS_UPPERCASE :: u32 where "FLAGS_UPPERCASE = 0x20"
definition FLAGS_CHAR :: u32 where "FLAGS_CHAR = 0x40"
definition FLAGS_SHORT :: u32 where "FLAGS_SHORT = 0x80"
definition FLAGS_INT :: u32 where "FLAGS_INT = 0x100"
definition FLAGS_LONG :: u32 where "FLAGS_LONG = 0x200"
definition FLAGS_LONG_LONG :: u32 where "FLAGS_LONG_LONG = 0x400"
definition FLAGS_PRECISION :: u32 where "FLAGS_PRECISION = 0x800"
definition FLAGS_ADAPT_EXP :: u32 where "FLAGS_ADAPT_EXP = 0x1000"
definition FLAGS_POINTER :: u32 where "FLAGS_POINTER = 0x2000"
definition FLAGS_SIGNED :: u32 where "FLAGS_SIGNED = 0x4000"

lemmas FLAGS_defs =
  FLAGS_ZEROPAD_def FLAGS_LEFT_def FLAGS_PLUS_def FLAGS_SPACE_def FLAGS_HASH_def
  FLAGS_UPPERCASE_def FLAGS_CHAR_def FLAGS_SHORT_def FLAGS_INT_def FLAGS_LONG_def
  FLAGS_LONG_LONG_def FLAGS_PRECISION_def FLAGS_ADAPT_EXP_def FLAGS_POINTER_def
  FLAGS_SIGNED_def

text \<open>Storing a character at an index of the object a pointer points to.\<close>

definition store_char :: "char list option \<Rightarrow> u32 \<Rightarrow> char \<Rightarrow> char list option" where
  "store_char buf i c =
     (case buf of None \<Rightarrow> None
      | Some b \<Rightarrow> if unat i < length b then Some (b[unat i := c]) else None)"

definition putchar_via_gadget :: "output_gadget \<Rightarrow> char \<Rightarrow> output_gadget option" where
  "putchar_via_gadget gadget c =
     (let write_pos = og_pos gadget;
          gadget = gadget\<lparr>og_pos := og_pos gadget + 1\<rparr>
      in if og_max_chars gadget \<le> write_pos then Some gadget
         else if og_function gadget \<noteq> None
         then Some (gadget\<lparr>og_calls := og_calls gadget @ [(c, og_extra_arg gadget)]\<rparr>)
         else (case store_char (og_buffer gadget) write_pos c of
                 None \<Rightarrow> None
               | Some b \<Rightarrow> Some (gadget\<lparr>og_buffer := Some b\<rparr>)))"

definition append_termination_with_gadget :: "output_gadget \<Rightarrow> output_gadget option" where
  "append_termination_with_gadget gadget =
     (if og_function gadget \<noteq> None \<or> og_max_chars gadget = 0 then Some gadget
      else if og_buffer gadget = None then Some gadget
      else let null_char_pos = (if og_pos gadget < og_max_chars gadget then og_pos gadget
                                else og_max_chars gadget - 1)
           in (case store_char (og_buffer gadget) null_char_pos NUL of
                 None \<Rightarrow> None
               | Some b \<Rightarrow> Some (gadget\<lparr>og_buffer := Some b\<rparr>)))"

definition discarding_gadget :: output_gadget where
  "discarding_gadget =
     \<lparr>og_function = None, og_extra_arg = 0, og_buffer = None, og_pos = 0,
      og_max_chars = 0, og_calls = []\<rparr>"

definition buffer_gadget :: "char list option \<Rightarrow> u64 \<Rightarrow> output_gadget" where
  "buffer_gadget buffer buffer_size =
     (let usable_buffer_size =
            (if ucast PRINTF_MAX_POSSIBLE_BUFFER_SIZE < buffer_size
             then PRINTF_MAX_POSSIBLE_BUFFER_SIZE else ucast buffer_size);
          result = discarding_gadget
      in if buffer \<noteq> None
         then result\<lparr>og_buffer := buffer, og_max_chars := usable_buffer_size\<rparr>
         else result)"

definition function_gadget :: "out_function \<Rightarrow> u64 \<Rightarrow> output_gadget" where
  "function_gadget fn extra_arg =
     discarding_gadget\<lparr>og_function := Some fn, og_extra_arg := extra_arg,
       og_max_chars := PRINTF_MAX_POSSIBLE_BUFFER_SIZE\<rparr>"

definition extern_putchar_gadget :: output_gadget where
  "extern_putchar_gadget = function_gadget Putchar_Wrapper 0"

section \<open>Emission of a string\<close>

text \<open>Sending the characters of a string one after the other.\<close>

fun emit :: "string \<Rightarrow> output_gadget \<Rightarrow> output_gadget option" where
  "emit [] g = Some g"
| "emit (c # cs) g =
     (case putchar_via_gadget g c of None \<Rightarrow> None | Some g' \<Rightarrow> emit cs g')"

lemma emit_append:
  "emit (xs @ ys) g = (case emit xs g of None \<Rightarrow> None | Some g' \<Rightarrow> emit ys g')"
  by (induction xs arbitrary: g) (auto split: option.splits)

lemma emit_append_bind [emit_simps]: "Option.bind (emit xs g) (emit ys) = emit (xs @ ys) g"
  by (simp add: emit_append split: option.splits)

lemma emit_single [emit_simps]: "putchar_via_gadget g c = emit [c] g"
  by (simp split: option.splits)

lemma putchar_pos: "putchar_via_gadget g c = Some g' \<Longrightarrow> og_pos g' = og_pos g + 1"
  by (auto simp: putchar_via_gadget_def Let_def split: if_splits option.splits)

lemma emit_pos: "emit s g = Some g' \<Longrightarrow> og_pos g' = og_pos g + of_nat (length s)"
  by (induction s arbitrary: g) (auto split: option.splits dest!: putchar_pos)

text \<open>The condition of the comment on \<open>output_gadget_t\<close>, with the buffer's size spelt out.\<close>

definition gadget_wf :: "output_gadget \<Rightarrow> bool" where
  "gadget_wf g \<longleftrightarrow>
     og_max_chars g = 0 \<or> og_function g \<noteq> None \<or>
     (\<exists>b. og_buffer g = Some b \<and> unat (og_max_chars g) \<le> length b)"

text \<open>The configuration of a gadget that no operation changes.\<close>

definition same_sink :: "output_gadget \<Rightarrow> output_gadget \<Rightarrow> bool" where
  "same_sink g g' \<longleftrightarrow>
     og_function g' = og_function g \<and> og_extra_arg g' = og_extra_arg g \<and>
     og_max_chars g' = og_max_chars g \<and>
     map_option length (og_buffer g') = map_option length (og_buffer g)"

lemma same_sink_refl [simp]: "same_sink g g"
  by (simp add: same_sink_def)

lemma same_sink_trans: "same_sink g h \<Longrightarrow> same_sink h k \<Longrightarrow> same_sink g k"
  by (simp add: same_sink_def)

lemma gadget_wf_same_sink: "same_sink g g' \<Longrightarrow> gadget_wf g \<Longrightarrow> gadget_wf g'"
  by (cases "og_buffer g"; cases "og_buffer g'") (auto simp: gadget_wf_def same_sink_def)

lemma putchar_same_sink: "putchar_via_gadget g c = Some g' \<Longrightarrow> same_sink g g'"
  by (auto simp: putchar_via_gadget_def same_sink_def store_char_def Let_def
      split: if_splits option.splits)

lemma putchar_wf_total: "gadget_wf g \<Longrightarrow> \<exists>g'. putchar_via_gadget g c = Some g'"
  by (auto simp: putchar_via_gadget_def gadget_wf_def store_char_def Let_def word_less_nat_alt
      word_le_nat_alt not_le split: option.splits)

lemma emit_same_sink: "emit s g = Some g' \<Longrightarrow> same_sink g g'"
  by (induction s arbitrary: g)
    (auto split: option.splits intro: same_sink_trans putchar_same_sink)

lemma emit_wf_total: "gadget_wf g \<Longrightarrow> \<exists>g'. emit s g = Some g'"
proof (induction s arbitrary: g)
  case (Cons c cs)
  then obtain g' where "putchar_via_gadget g c = Some g'"
    using putchar_wf_total by blast
  with Cons show ?case
    using gadget_wf_same_sink putchar_same_sink by fastforce
qed simp

section \<open>What a gadget holds after an emission\<close>

lemma putchar_calls:
  "og_function g = Some f \<Longrightarrow> putchar_via_gadget g c =
     Some (g\<lparr>og_pos := og_pos g + 1,
             og_calls := og_calls g @ (if og_pos g < og_max_chars g then [(c, og_extra_arg g)] else [])\<rparr>)"
  by (auto simp: putchar_via_gadget_def Let_def)

lemma unat_plus_one: "unat (w :: u32) + 1 < 2 ^ 32 \<Longrightarrow> unat (w + 1) = unat w + 1"
  by (simp add: unat_word_ariths)

lemma emit_function:
  assumes "og_function g = Some f" "unat (og_pos g) + length s < 2 ^ 32"
  shows "emit s g = Some (g\<lparr>og_pos := og_pos g + of_nat (length s),
     og_calls := og_calls g @
       map (\<lambda>c. (c, og_extra_arg g)) (take (unat (og_max_chars g) - unat (og_pos g)) s)\<rparr>)"
  using assms
proof (induction s arbitrary: g)
  case (Cons c s)
  have pos: "unat (og_pos g + 1) = unat (og_pos g) + 1"
    using Cons.prems by (intro unat_plus_one) simp
  show ?case
  proof (cases "og_pos g < og_max_chars g")
    case True
    then obtain k where k: "unat (og_max_chars g) - unat (og_pos g) = Suc k"
      by (metis Suc_diff_Suc word_less_nat_alt)
    then have "unat (og_max_chars g) - unat (og_pos g + 1) = k" by (simp add: pos)
    then show ?thesis using True Cons pos k by (simp add: putchar_calls ac_simps)
  next
    case False
    then have "unat (og_max_chars g) - unat (og_pos g) = 0"
      by (simp add: word_less_nat_alt)
    moreover from this have "unat (og_max_chars g) - unat (og_pos g + 1) = 0" by (simp add: pos)
    ultimately show ?thesis using False Cons pos by (simp add: putchar_calls ac_simps)
  qed
qed simp

text \<open>Bytes written to a buffer from a position on, cut off at a limit.\<close>

definition overlay :: "char list \<Rightarrow> nat \<Rightarrow> nat \<Rightarrow> string \<Rightarrow> char list" where
  "overlay b p m s = take p b @ take (m - p) s @ drop (p + min (m - p) (length s)) b"

lemma length_overlay: "m \<le> length b \<Longrightarrow> p \<le> length b \<Longrightarrow> length (overlay b p m s) = length b"
  by (simp add: overlay_def)

lemma overlay_Nil [simp]: "overlay b p m [] = b"
  by (simp add: overlay_def)

lemma overlay_full: "m \<le> p \<Longrightarrow> overlay b p m s = b"
  by (simp add: overlay_def)

lemma overlay_Cons:
  assumes "p < m" "m \<le> length b"
  shows "overlay b p m (c # s) = overlay (b[p := c]) (Suc p) m s"
proof -
  obtain k where k: "m - p = Suc k" using assms by (metis Suc_diff_Suc)
  have "take (Suc p) (b[p := c]) = take p b @ [c]"
    using assms by (simp add: take_Suc_conv_app_nth)
  moreover have "drop (Suc p + n) (b[p := c]) = drop (Suc p + n) b" for n
    by (simp add: drop_update_cancel)
  moreover have "m - Suc p = k" using k by simp
  ultimately show ?thesis using k by (simp add: overlay_def)
qed

lemma emit_buffer:
  assumes "og_function g = None" "og_buffer g = Some b" "unat (og_max_chars g) \<le> length b"
    "unat (og_pos g) + length s < 2 ^ 32"
  shows "emit s g = Some (g\<lparr>og_pos := og_pos g + of_nat (length s),
     og_buffer := Some (overlay b (unat (og_pos g)) (unat (og_max_chars g)) s)\<rparr>)"
  using assms
proof (induction s arbitrary: g b)
  case (Cons c s)
  have pos: "unat (og_pos g + 1) = unat (og_pos g) + 1"
    using Cons.prems by (intro unat_plus_one) simp
  show ?case
  proof (cases "og_pos g < og_max_chars g")
    case True
    then have lt: "unat (og_pos g) < unat (og_max_chars g)" by (simp add: word_less_nat_alt)
    then have put: "putchar_via_gadget g c =
        Some (g\<lparr>og_pos := og_pos g + 1, og_buffer := Some (b[unat (og_pos g) := c])\<rparr>)"
      using Cons.prems by (simp add: putchar_via_gadget_def store_char_def word_le_nat_alt Let_def)
    show ?thesis
      using Cons.prems lt pos
      by (subst emit.simps, subst put)
        (simp add: Cons.IH overlay_Cons ac_simps)
  next
    case False
    then have le: "unat (og_max_chars g) \<le> unat (og_pos g)" by (simp add: word_less_nat_alt)
    then have put: "putchar_via_gadget g c = Some (g\<lparr>og_pos := og_pos g + 1\<rparr>)"
      by (simp add: putchar_via_gadget_def word_le_nat_alt Let_def)
    show ?thesis
      using Cons.prems le pos
      by (subst emit.simps, subst put) (simp add: Cons.IH overlay_full ac_simps)
  qed
qed simp

lemma emit_discard:
  assumes "og_max_chars g = 0"
  shows "emit s g = Some (g\<lparr>og_pos := og_pos g + of_nat (length s)\<rparr>)"
  using assms by (induction s arbitrary: g) (simp_all add: putchar_via_gadget_def ac_simps)

end
