(* ===== verification/Print_Integer.thy ===== *)
theory Print_Integer
  imports Gadget
begin

text \<open>
  The integer printing of \<open>src/printf.c\<close>: reversed output with padding
  (\<open>out_rev\<close>), the digits of a number in the 32-byte conversion buffer
  (\<open>print_integer\<close>) and the sign, prefix and zero padding added to them
  (\<open>print_integer_finalization\<close>). A buffer being filled is the list of the bytes
  written so far, so that \<open>len\<close> is its length; taking padding back is \<open>butlast\<close>.
  Each routine is shown to emit one string, which depends on its arguments only.
\<close>

definition PRINTF_INTEGER_BUFFER_SIZE :: nat where
  "PRINTF_INTEGER_BUFFER_SIZE = 32"

abbreviation BASE_BINARY :: u8 where "BASE_BINARY \<equiv> 2"
abbreviation BASE_OCTAL :: u8 where "BASE_OCTAL \<equiv> 8"
abbreviation BASE_DECIMAL :: u8 where "BASE_DECIMAL \<equiv> 10"
abbreviation BASE_HEX :: u8 where "BASE_HEX \<equiv> 16"

section \<open>Scanning helpers\<close>

fun strnlen_s :: "string \<Rightarrow> u32 \<Rightarrow> u32" where
  "strnlen_s [] maxsize = 0"
| "strnlen_s (c # s) maxsize = (if maxsize = 0 then 0 else 1 + strnlen_s s (maxsize - 1))"

definition is_digit :: "char \<Rightarrow> bool" where
  "is_digit ch \<longleftrightarrow> of_char CHR ''0'' \<le> (of_char ch :: nat) \<and> (of_char ch :: nat) \<le> of_char CHR ''9''"

fun atou_loop :: "u32 \<Rightarrow> string \<Rightarrow> u32 \<times> string" where
  "atou_loop i [] = (i, [])"
| "atou_loop i (c # str) =
     (if is_digit c then atou_loop (i * 10 + (of_nat (of_char c - of_char CHR ''0''))) str
      else (i, c # str))"

definition atou :: "string \<Rightarrow> u32 \<times> string" where
  "atou str = atou_loop 0 str"

lemma strnlen_s_eq: "unat (strnlen_s s m) = min (length s) (unat m)"
proof (induction s arbitrary: m)
  case (Cons c s)
  show ?case
  proof (cases "m = 0")
    case False
    then have m: "unat (m - 1) = unat m - 1" "0 < unat m"
      by (simp_all add: unat_minus_one unat_gt_0)
    with Cons [of "m - 1"] have "unat (1 + strnlen_s s (m - 1)) = Suc (unat (strnlen_s s (m - 1)))"
      using unat_u32 [of m] by (simp add: unat_word_ariths min_def)
    with m Cons [of "m - 1"] False show ?thesis by (simp add: min_def) linarith
  qed simp
qed simp

lemma is_digit_iff: "is_digit c \<longleftrightarrow> (\<exists>d < 10. digit_of_char c = Some d)"
  by (auto simp: is_digit_def digit_of_char_def Let_def)

lemma atou_loop_read_nat:
  "atou_loop (of_nat acc) s = (case read_nat 10 acc s of (v, rest) \<Rightarrow> (of_nat v, rest))"
proof (induction s arbitrary: acc)
  case (Cons c s)
  show ?case
  proof (cases "is_digit c")
    case True
    then have d: "digit_of_char c = Some (of_char c - 48)" "of_char c - 48 < (10::nat)"
      by (auto simp: is_digit_def digit_of_char_def)
    have "(of_nat acc :: u32) * 10 + of_nat (of_char c - 48) = of_nat (acc * 10 + (of_char c - 48))"
      by simp
    with True d Cons show ?thesis by (simp del: of_nat_add of_nat_mult)
  next
    case False
    then show ?thesis by (auto simp: is_digit_iff split: option.splits)
  qed
qed simp

lemma atou_read_nat: "atou s = (case read_nat 10 0 s of (v, rest) \<Rightarrow> (of_nat v, rest))"
  using atou_loop_read_nat [of 0 s] by (simp add: atou_def)

section \<open>Reversed output\<close>

text \<open>\<open>for (i = len; i < width; i++) putchar_via_gadget(output, ' ');\<close>\<close>

function pad_from :: "u32 \<Rightarrow> u32 \<Rightarrow> output_gadget \<Rightarrow> output_gadget option" where
  "pad_from i width g =
     (if i < width then
        (case putchar_via_gadget g CHR '' '' of None \<Rightarrow> None | Some g' \<Rightarrow> pad_from (i + 1) width g')
      else Some g)"
  by pat_completeness auto
termination
  by (relation "measure (\<lambda>(i, width, g). unat width - unat i)")
    (auto simp: unat_Suc_less word_less_nat_alt)


declare pad_from.simps [simp del]

lemma pad_from_emit: "pad_from i width g = emit (replicate (unat width - unat i) CHR '' '') g"
proof (induction i width g rule: pad_from.induct)
  case (1 i width g)
  show ?case
  proof (cases "i < width")
    case True
    then have "unat width - unat i = Suc (unat width - unat (i + 1))"
      by (simp add: unat_Suc_less word_less_nat_alt)
    with True 1 show ?thesis by (subst pad_from.simps) (simp split: option.split)
  next
    case False
    then show ?thesis by (subst pad_from.simps) (simp add: word_less_nat_alt)
  qed
qed

text \<open>\<open>while (len) putchar_via_gadget(output, buf[--len]);\<close>\<close>

fun rev_out :: "nat \<Rightarrow> string \<Rightarrow> output_gadget \<Rightarrow> output_gadget option" where
  "rev_out 0 buf g = Some g"
| "rev_out (Suc len) buf g =
     (if len < length buf
      then (case putchar_via_gadget g (buf ! len) of None \<Rightarrow> None | Some g' \<Rightarrow> rev_out len buf g')
      else None)"

lemma rev_out_emit: "len \<le> length buf \<Longrightarrow> rev_out len buf g = emit (rev (take len buf)) g"
  by (induction len arbitrary: g) (auto simp: take_Suc_conv_app_nth split: option.splits)

text \<open>\<open>while (output->pos - start_pos < width) putchar_via_gadget(output, ' ');\<close>\<close>

lemma putchar_pos_distance:
  assumes "putchar_via_gadget g c = Some g'" "og_pos g - start_pos < width"
  shows "unat (og_pos g' - start_pos) = Suc (unat (og_pos g - start_pos))"
  using putchar_pos [OF assms(1)] unat_Suc_less [OF assms(2)] by (simp add: algebra_simps)

function pad_until :: "u32 \<Rightarrow> u32 \<Rightarrow> output_gadget \<Rightarrow> output_gadget option" where
  "pad_until start_pos width g =
     (if og_pos g - start_pos < width then
        (case putchar_via_gadget g CHR '' '' of None \<Rightarrow> None
         | Some g' \<Rightarrow> pad_until start_pos width g')
      else Some g)"
  by pat_completeness auto
termination
proof (relation "measure (\<lambda>(start_pos, width, g). unat width - unat (og_pos g - start_pos))", goal_cases)
  case (2 start_pos width g g')
  then show ?case by (simp add: putchar_pos_distance word_less_nat_alt)
qed simp

declare pad_until.simps [simp del]

lemma pad_until_emit:
  "pad_until start_pos width g =
     emit (replicate (unat width - unat (og_pos g - start_pos)) CHR '' '') g"
proof (induction start_pos width g rule: pad_until.induct)
  case (1 start_pos width g)
  show ?case
  proof (cases "og_pos g - start_pos < width")
    case True
    show ?thesis
    proof (cases "putchar_via_gadget g CHR '' ''")
      case None
      with True show ?thesis
        by (subst pad_until.simps) (cases "unat width - unat (og_pos g - start_pos)",
            auto simp: word_less_nat_alt)
    next
      case (Some g')
      then have "unat width - unat (og_pos g - start_pos) = Suc (unat width - unat (og_pos g' - start_pos))"
        using True by (simp add: putchar_pos_distance word_less_nat_alt)
      with True Some 1 show ?thesis by (subst pad_until.simps) simp
    qed
  next
    case False
    then show ?thesis by (subst pad_until.simps) (simp add: word_less_nat_alt)
  qed
qed

definition out_rev ::
  "output_gadget \<Rightarrow> string \<Rightarrow> nat \<Rightarrow> u32 \<Rightarrow> u32 \<Rightarrow> output_gadget option" where
  "out_rev output buf len width flags =
     (let start_pos = og_pos output in
      do {
        output \<leftarrow> (if \<not> has_flag flags FLAGS_LEFT \<and> \<not> has_flag flags FLAGS_ZEROPAD
                  then pad_from (of_nat len) width output else Some output);
        output \<leftarrow> rev_out len buf output;
        (if has_flag flags FLAGS_LEFT then pad_until start_pos width output else Some output)
      })"

text \<open>The string that \<open>out_rev\<close> sends: the buffer reversed, padded to the width.\<close>

definition padded :: "u32 \<Rightarrow> u32 \<Rightarrow> string \<Rightarrow> string" where
  "padded width flags s =
     (let pad = replicate (unat width - length s) CHR '' '' in
      if has_flag flags FLAGS_LEFT then s @ pad
      else if has_flag flags FLAGS_ZEROPAD then s
      else pad @ s)"

lemma out_rev_emit [emit_simps]:
  assumes "length buf < 2 ^ 32"
  shows "out_rev output buf (length buf) width flags = emit (padded width flags (rev buf)) output"
proof -
  have len: "unat (of_nat (length buf) :: u32) = length buf"
    using assms by (simp add: unat_of_nat_u32)
  have right: "Option.bind (emit (rev buf) output) (pad_until (og_pos output) width) =
      emit (rev buf @ replicate (unat width - length buf) CHR '' '') output"
    by (cases "emit (rev buf) output") (auto simp: pad_until_emit emit_append len dest: emit_pos)
  show ?thesis
    by (cases "has_flag flags FLAGS_LEFT")
      (simp_all add: out_rev_def padded_def rev_out_emit pad_from_emit right len emit_append_bind)
qed

lemma out_rev_const [emit_simps]:
  assumes "len = length buf" "len < 2 ^ 32"
  shows "out_rev output buf len width flags = emit (padded width flags (rev buf)) output"
  using out_rev_emit assms by simp


section \<open>The conversion buffer\<close>

text \<open>\<open>while (len < limit && len < PRINTF_INTEGER_BUFFER_SIZE) buf[len++] = '0';\<close>\<close>

function zero_pad :: "u32 \<Rightarrow> string \<Rightarrow> string" where
  "zero_pad limit buf =
     (if length buf < unat limit \<and> length buf < PRINTF_INTEGER_BUFFER_SIZE
      then zero_pad limit (buf @ ''0'') else buf)"
  by pat_completeness auto
termination
  by (relation "measure (\<lambda>(limit, buf). PRINTF_INTEGER_BUFFER_SIZE - length buf)") auto

declare zero_pad.simps [simp del]

lemma zero_pad_eq:
  "zero_pad limit buf = buf @ replicate (min (unat limit) 32 - length buf) CHR ''0''"
proof (induction limit buf rule: zero_pad.induct)
  case (1 limit buf)
  show ?case
  proof (cases "length buf < unat limit \<and> length buf < 32")
    case True
    then have "min (unat limit) 32 - length buf = Suc (min (unat limit) 32 - length (buf @ ''0''))"
      by auto
    with True 1 show ?thesis
      by (subst zero_pad.simps) (simp add: PRINTF_INTEGER_BUFFER_SIZE_def)
  next
    case False
    then show ?thesis
      by (subst zero_pad.simps) (auto simp: PRINTF_INTEGER_BUFFER_SIZE_def)
  qed
qed

text \<open>The three stages of \<open>print_integer_finalization\<close>: leading zeros, prefix, sign.\<close>

definition finalization_zeros ::
  "string \<Rightarrow> bool \<Rightarrow> u32 \<Rightarrow> u32 \<Rightarrow> u32 \<Rightarrow> string \<times> u32" where
  "finalization_zeros buf negative precision width flags =
     (let (buf, width) =
            (if \<not> has_flag flags FLAGS_LEFT then
               (let width = (if width \<noteq> 0 \<and> has_flag flags FLAGS_ZEROPAD
                                \<and> (negative \<or> has_flag flags (FLAGS_PLUS OR FLAGS_SPACE))
                             then width - 1 else width)
                in (if has_flag flags FLAGS_ZEROPAD then zero_pad width buf else buf, width))
             else (buf, width))
      in (zero_pad precision buf, width))"

definition finalization_prefix ::
  "string \<Rightarrow> nat \<Rightarrow> u8 \<Rightarrow> u32 \<Rightarrow> u32 \<Rightarrow> u32 \<Rightarrow> string" where
  "finalization_prefix buf unpadded_len base precision width flags =
     (let buf =
            (if \<not> has_flag flags FLAGS_PRECISION \<and> buf \<noteq> []
                \<and> (length buf = unat precision \<or> length buf = unat width)
             then
               (let buf = (if unpadded_len < length buf then butlast buf else buf)
                in if buf \<noteq> [] \<and> (base = BASE_HEX \<or> base = BASE_BINARY) \<and> unpadded_len < length buf
                   then butlast buf else buf)
             else buf);
          buf =
            (if base = BASE_HEX \<and> \<not> has_flag flags FLAGS_UPPERCASE
                \<and> length buf < PRINTF_INTEGER_BUFFER_SIZE then buf @ ''x''
             else if base = BASE_HEX \<and> has_flag flags FLAGS_UPPERCASE
                \<and> length buf < PRINTF_INTEGER_BUFFER_SIZE then buf @ ''X''
             else if base = BASE_BINARY \<and> length buf < PRINTF_INTEGER_BUFFER_SIZE then buf @ ''b''
             else buf)
      in if length buf < PRINTF_INTEGER_BUFFER_SIZE then buf @ ''0'' else buf)"

definition finalization_sign :: "string \<Rightarrow> bool \<Rightarrow> u32 \<Rightarrow> string" where
  "finalization_sign buf negative flags =
     (if length buf < PRINTF_INTEGER_BUFFER_SIZE then
        (if negative then buf @ ''-''
         else if has_flag flags FLAGS_PLUS then buf @ ''+''
         else if has_flag flags FLAGS_SPACE then buf @ '' ''
         else buf)
      else buf)"

definition finalized_buffer ::
  "string \<Rightarrow> bool \<Rightarrow> u8 \<Rightarrow> u32 \<Rightarrow> u32 \<Rightarrow> u32 \<Rightarrow> string \<times> u32 \<times> u32" where
  "finalized_buffer buf negative base precision width flags =
     (let unpadded_len = length buf;
          (buf, width) = finalization_zeros buf negative precision width flags;
          flags = (if base = BASE_OCTAL \<and> unpadded_len < length buf
                   then clear_flag flags FLAGS_HASH else flags);
          buf = (if has_flag flags (FLAGS_HASH OR FLAGS_POINTER)
                 then finalization_prefix buf unpadded_len base precision width flags else buf);
          buf = finalization_sign buf negative flags
      in (buf, width, flags))"

definition print_integer_finalization ::
  "output_gadget \<Rightarrow> string \<Rightarrow> bool \<Rightarrow> u8 \<Rightarrow> u32 \<Rightarrow> u32 \<Rightarrow> u32 \<Rightarrow> output_gadget option" where
  "print_integer_finalization output buf negative base precision width flags =
     (let (buf, width, flags) = finalized_buffer buf negative base precision width flags
      in out_rev output buf (length buf) width flags)"

text \<open>
  \<open>do { ... } while (value && len < PRINTF_INTEGER_BUFFER_SIZE);\<close>
\<close>

definition int_digit_char :: "u32 \<Rightarrow> nat \<Rightarrow> char" where
  "int_digit_char flags digit =
     (if digit < 10 then char_of (of_char CHR ''0'' + digit)
      else char_of ((if has_flag flags FLAGS_UPPERCASE then of_char CHR ''A''
                     else of_char CHR ''a'') + digit - 10))"

function int_digits :: "u64 \<Rightarrow> u8 \<Rightarrow> u32 \<Rightarrow> string \<Rightarrow> string" where
  "int_digits val base flags buf =
     (let digit = unat (val mod ucast base);
          buf' = buf @ [int_digit_char flags digit];
          val' = val div ucast base
      in if val' \<noteq> 0 \<and> length buf' < PRINTF_INTEGER_BUFFER_SIZE
         then int_digits val' base flags buf' else buf')"
  by pat_completeness auto
termination
  by (relation "measure (\<lambda>(val, base, flags, buf). PRINTF_INTEGER_BUFFER_SIZE - length buf)") auto

declare int_digits.simps [simp del]

definition integer_buffer :: "u64 \<Rightarrow> u8 \<Rightarrow> u32 \<Rightarrow> string \<times> u32" where
  "integer_buffer val base flags =
     (if val = 0 then
        (if \<not> has_flag flags FLAGS_PRECISION then (''0'', clear_flag flags FLAGS_HASH)
         else if base = BASE_HEX then ([], clear_flag flags FLAGS_HASH)
         else ([], flags))
      else (int_digits val base flags [], flags))"

definition print_integer ::
  "output_gadget \<Rightarrow> u64 \<Rightarrow> bool \<Rightarrow> u8 \<Rightarrow> u32 \<Rightarrow> u32 \<Rightarrow> u32 \<Rightarrow> output_gadget option" where
  "print_integer output val negative base precision width flags =
     (let (buf, flags) = integer_buffer val base flags
      in print_integer_finalization output buf negative base precision width flags)"

section \<open>The digits\<close>

lemma unat_ucast_base: "unat (ucast (base :: u8) :: u64) = unat base"
  using unsigned_less [of base, where ?'a = nat]
  by (simp add: unsigned_ucast_eq take_bit_nat_eq_self)

lemma int_digit_char_eq: "int_digit_char flags d = digit_char (has_flag flags FLAGS_UPPERCASE) d"
  by (simp add: int_digit_char_def digit_char_def)

lemma word_div_mod_base:
  "unat (val mod ucast (base :: u8)) = unat (val :: u64) mod unat base"
  "unat (val div ucast (base :: u8)) = unat (val :: u64) div unat base"
  by (simp_all add: unat_mod_distrib unat_div_distrib unat_ucast_base)

lemma int_digits_eq:
  assumes "2 \<le> unat base" "length buf < 32"
  shows "int_digits val base flags buf =
    buf @ map (digit_char (has_flag flags FLAGS_UPPERCASE))
            (take (32 - length buf) (nat_digits (unat base) (unat val)))"
  using assms
proof (induction val base flags buf rule: int_digits.induct)
  case (1 val base flags buf)
  let ?b = "unat base" and ?v = "unat val"
  obtain k where k: "32 - length buf = Suc k"
    using "1.prems" by (metis Suc_diff_Suc)
  have zero: "val div ucast base = 0 \<longleftrightarrow> ?v < ?b"
    using "1.prems" by (simp add: unat_eq_0 [symmetric] word_div_mod_base div_eq_0_iff)
  show ?case
  proof (cases "?v < ?b")
    case True
    then show ?thesis
      using k by (subst int_digits.simps, subst nat_digits.simps) (simp add: Let_def int_digit_char_eq zero word_div_mod_base)
  next
    case False
    then have nd: "nat_digits ?b ?v = ?v mod ?b # nat_digits ?b (?v div ?b)"
      using "1.prems" by (subst nat_digits.simps) simp
    show ?thesis
    proof (cases "Suc (length buf) < 32")
      case True
      have "32 - Suc (length buf) = k" using k by simp
      with True \<open>\<not> ?v < ?b\<close> "1.prems" 1 show ?thesis
        by (subst int_digits.simps)
          (simp add: Let_def int_digit_char_eq zero k nd word_div_mod_base PRINTF_INTEGER_BUFFER_SIZE_def)
    next
      case False
      then have "k = 0" using k by simp
      with False \<open>\<not> ?v < ?b\<close> show ?thesis
        by (subst int_digits.simps)
          (simp add: Let_def int_digit_char_eq zero k nd word_div_mod_base PRINTF_INTEGER_BUFFER_SIZE_def)
    qed
  qed
qed

text \<open>In bases 8, 10 and 16 every 64-bit value has at most 22 digits.\<close>

lemma length_nat_digits_u64:
  assumes "8 \<le> unat base"
  shows "length (nat_digits (unat base) (unat (val :: u64))) \<le> 22"
proof (rule length_nat_digits_le)
  have "unat val < 8 ^ 22" using unat_u64 [of val] by simp
  also have "\<dots> \<le> unat base ^ 22" using assms by (rule power_mono) simp
  finally show "unat val < unat base ^ 22" .
qed (use assms in auto)

lemma rev_int_digits:
  assumes "8 \<le> unat base"
  shows "rev (int_digits val base flags []) =
     num_string (has_flag flags FLAGS_UPPERCASE) (unat base) (unat val)"
  using assms length_nat_digits_u64 [OF assms, of val]
  by (simp add: int_digits_eq num_string_def rev_map)

lemma length_int_digits:
  assumes "2 \<le> unat base"
  shows "length (int_digits val base flags []) \<le> 32"
  using assms by (simp add: int_digits_eq)


section \<open>The conversion buffer never overflows\<close>

lemma length_zero_pad: "length buf \<le> 32 \<Longrightarrow> length (zero_pad limit buf) \<le> 32"
  by (simp add: zero_pad_eq)

lemma length_finalization_zeros:
  "length buf \<le> 32 \<Longrightarrow> length (fst (finalization_zeros buf negative precision width flags)) \<le> 32"
  by (auto simp: finalization_zeros_def Let_def length_zero_pad split: if_splits)

lemma length_finalization_prefix:
  "length buf \<le> 32 \<Longrightarrow>
     length (finalization_prefix buf unpadded base precision width flags) \<le> 32"
  by (auto simp: finalization_prefix_def Let_def PRINTF_INTEGER_BUFFER_SIZE_def)

lemma length_finalization_sign:
  "length buf \<le> 32 \<Longrightarrow> length (finalization_sign buf negative flags) \<le> 32"
  by (auto simp: finalization_sign_def PRINTF_INTEGER_BUFFER_SIZE_def)

lemma length_finalized_buffer:
  assumes "length buf \<le> 32"
  shows "length (fst (finalized_buffer buf negative base precision width flags)) \<le> 32"
  using length_finalization_zeros [OF assms, of negative precision width flags]
  by (auto simp: finalized_buffer_def Let_def split: prod.split
      intro!: length_finalization_prefix length_finalization_sign)

lemma length_integer_buffer: "2 \<le> unat base \<Longrightarrow> length (fst (integer_buffer val base flags)) \<le> 32"
  by (simp add: integer_buffer_def length_int_digits)

text \<open>The string that \<open>print_integer\<close> sends to its output.\<close>

definition integer_string :: "u64 \<Rightarrow> bool \<Rightarrow> u8 \<Rightarrow> u32 \<Rightarrow> u32 \<Rightarrow> u32 \<Rightarrow> string" where
  "integer_string val negative base precision width flags =
     (let (buf, flags) = integer_buffer val base flags;
          (buf, width, flags) = finalized_buffer buf negative base precision width flags
      in padded width flags (rev buf))"

lemma print_integer_emit [emit_simps]:
  assumes "2 \<le> unat base"
  shows "print_integer output val negative base precision width flags =
     emit (integer_string val negative base precision width flags) output"
proof -
  obtain buf flags' where ib: "integer_buffer val base flags = (buf, flags')"
    by (cases "integer_buffer val base flags")
  obtain buf' width' flags'' where
    fb: "finalized_buffer buf negative base precision width flags' = (buf', width', flags'')"
    by (cases "finalized_buffer buf negative base precision width flags'") auto
  have "length buf' \<le> 32"
    using length_integer_buffer [OF assms, of val flags]
      length_finalized_buffer [of buf negative base precision width flags'] ib fb by simp
  then show ?thesis
    by (simp add: print_integer_def print_integer_finalization_def integer_string_def ib fb
        out_rev_emit)
qed


section \<open>Conformance with the conversion rules of ISO C\<close>

text \<open>
  The reference: the digits, extended by zeros to the precision, after the sign; the field
  padded by blanks on the right (flag \<open>-\<close>) or on the left, or by zeros between the sign
  and the digits (flag \<open>0\<close>).
\<close>

definition sign_string :: "bool \<Rightarrow> u32 \<Rightarrow> string" where
  "sign_string negative flags =
     (if negative then ''-'' else if has_flag flags FLAGS_PLUS then ''+''
      else if has_flag flags FLAGS_SPACE then '' '' else [])"

definition iso_digits :: "u64 \<Rightarrow> u8 \<Rightarrow> u32 \<Rightarrow> string" where
  "iso_digits val base flags =
     (if val = 0 \<and> has_flag flags FLAGS_PRECISION then []
      else num_string (has_flag flags FLAGS_UPPERCASE) (unat base) (unat val))"

definition iso_integer :: "u64 \<Rightarrow> bool \<Rightarrow> u8 \<Rightarrow> u32 \<Rightarrow> u32 \<Rightarrow> u32 \<Rightarrow> string" where
  "iso_integer val negative base precision width flags =
     (let digits = iso_digits val base flags;
          body = replicate (unat precision - length digits) CHR ''0'' @ digits;
          sign = sign_string negative flags;
          gap = unat width - length (sign @ body)
      in if has_flag flags FLAGS_LEFT then sign @ body @ replicate gap CHR '' ''
         else if has_flag flags FLAGS_ZEROPAD then sign @ replicate gap CHR ''0'' @ body
         else replicate gap CHR '' '' @ sign @ body)"

lemma num_string_zero [simp]: "2 \<le> b \<Longrightarrow> num_string u b 0 = ''0''"
  by (simp add: num_string_def nat_digits.simps [of b 0])

lemma unat_base_pos: "8 \<le> unat base \<Longrightarrow> 2 \<le> unat base"
  by simp

lemma integer_buffer_iso:
  assumes "8 \<le> unat base" "integer_buffer val base flags = (buf, flags')"
  shows "rev buf = iso_digits val base flags"
    and "f AND FLAGS_HASH = 0 \<Longrightarrow> has_flag flags' f = has_flag flags f"
    and "\<not> has_flag flags FLAGS_HASH \<Longrightarrow> \<not> has_flag flags' FLAGS_HASH"
    and "length buf \<le> 22"
proof -
  show "rev buf = iso_digits val base flags"
    using assms by (auto simp: integer_buffer_def iso_digits_def rev_int_digits split: if_splits)
  show "f AND FLAGS_HASH = 0 \<Longrightarrow> has_flag flags' f = has_flag flags f"
    using assms has_flag_clear_other [of FLAGS_HASH f]
    by (auto simp: integer_buffer_def and.commute split: if_splits)
  show "\<not> has_flag flags FLAGS_HASH \<Longrightarrow> \<not> has_flag flags' FLAGS_HASH"
    using assms by (auto simp: integer_buffer_def has_flag_clear_same split: if_splits)
  show "length buf \<le> 22"
    using assms length_nat_digits_u64 [OF assms(1), of val]
    by (auto simp: integer_buffer_def int_digits_eq split: if_splits)
qed

lemma finalized_buffer_plain:
  assumes "\<not> has_flag flags FLAGS_HASH" "\<not> has_flag flags FLAGS_POINTER"
  shows "finalized_buffer buf negative base precision width flags =
    (let (buf', width) = finalization_zeros buf negative precision width flags;
         flags' = (if base = BASE_OCTAL \<and> length buf < length buf'
                   then clear_flag flags FLAGS_HASH else flags)
     in (finalization_sign buf' negative flags', width, flags'))"
proof -
  have "\<not> has_flag (clear_flag flags FLAGS_HASH) (FLAGS_HASH OR FLAGS_POINTER)"
    unfolding has_flag_any using assms by (simp add: flag_simps FLAGS_defs)
  moreover have "\<not> has_flag flags (FLAGS_HASH OR FLAGS_POINTER)"
    unfolding has_flag_any using assms by simp
  ultimately show ?thesis by (simp add: finalized_buffer_def Let_def split: prod.split)
qed

lemma finalization_sign_eq:
  "length buf < 32 \<Longrightarrow> finalization_sign buf negative flags = buf @ sign_string negative flags"
  by (simp add: finalization_sign_def sign_string_def PRINTF_INTEGER_BUFFER_SIZE_def)

lemma has_flag_clear_HASH:
  "has_flag (clear_flag flags FLAGS_HASH) FLAGS_LEFT = has_flag flags FLAGS_LEFT"
  "has_flag (clear_flag flags FLAGS_HASH) FLAGS_ZEROPAD = has_flag flags FLAGS_ZEROPAD"
  "has_flag (clear_flag flags FLAGS_HASH) FLAGS_PLUS = has_flag flags FLAGS_PLUS"
  "has_flag (clear_flag flags FLAGS_HASH) FLAGS_SPACE = has_flag flags FLAGS_SPACE"
  by (simp_all add: flag_simps FLAGS_defs)

lemma sign_string_cases:
  "sign_string negative flags = [] \<longleftrightarrow>
     \<not> negative \<and> \<not> has_flag flags (FLAGS_PLUS OR FLAGS_SPACE)"
  "length (sign_string negative flags) \<le> 1"
  unfolding has_flag_any by (auto simp: sign_string_def)


lemma sign_string_cong:
  "has_flag f FLAGS_PLUS = has_flag g FLAGS_PLUS \<Longrightarrow> has_flag f FLAGS_SPACE = has_flag g FLAGS_SPACE \<Longrightarrow>
     sign_string negative f = sign_string negative g"
  by (simp add: sign_string_def)

lemma padded_cong:
  "has_flag f FLAGS_LEFT = has_flag g FLAGS_LEFT \<Longrightarrow> has_flag f FLAGS_ZEROPAD = has_flag g FLAGS_ZEROPAD \<Longrightarrow>
     padded width f s = padded width g s"
  by (simp add: padded_def Let_def)

lemma rev_sign_string [simp]: "rev (sign_string negative flags) = sign_string negative flags"
  by (simp add: sign_string_def)

lemma finalized_string:
  assumes "\<not> has_flag flags FLAGS_HASH" "\<not> has_flag flags FLAGS_POINTER"
    and "finalization_zeros buf negative precision width flags = (buf', width')" "length buf' < 32"
  shows "(case finalized_buffer buf negative base precision width flags of
            (b, w, f) \<Rightarrow> padded w f (rev b)) =
         padded width' flags (sign_string negative flags @ rev buf')"
proof -
  let ?f = "if base = BASE_OCTAL \<and> length buf < length buf'
            then clear_flag flags FLAGS_HASH else flags"
  have "sign_string negative ?f = sign_string negative flags"
    by (intro sign_string_cong) (simp_all add: has_flag_clear_HASH)
  moreover have "padded width' ?f s = padded width' flags s" for s
    by (intro padded_cong) (simp_all add: has_flag_clear_HASH)
  ultimately show ?thesis
    using assms by (simp add: finalized_buffer_plain finalization_sign_eq Let_def)
qed

lemma finalization_width:
  "unat (if width \<noteq> 0 \<and> has_flag flags FLAGS_ZEROPAD
             \<and> (negative \<or> has_flag flags (FLAGS_PLUS OR FLAGS_SPACE))
         then width - 1 else width :: u32) =
     (if has_flag flags FLAGS_ZEROPAD then unat width - length (sign_string negative flags)
      else unat width)"
proof -
  have "length (sign_string negative flags) =
      (if negative \<or> has_flag flags (FLAGS_PLUS OR FLAGS_SPACE) then 1 else 0)"
    using sign_string_cases(1) [of negative flags] sign_string_cases(2) [of negative flags]
    by (cases "sign_string negative flags") auto
  then show ?thesis by (auto simp: unat_minus_one)
qed

text \<open>Blanks or zeros to a width are the reference's gap.\<close>

lemma iso_field:
  assumes "8 \<le> unat base" "\<not> has_flag flags FLAGS_HASH" "\<not> has_flag flags FLAGS_POINTER"
    and "unat precision < 32"
    and "\<not> has_flag flags FLAGS_LEFT \<and> has_flag flags FLAGS_ZEROPAD \<longrightarrow> unat width < 32"
    and "length buf \<le> 22"
  shows "(case finalized_buffer buf negative base precision width flags of
            (b, w, f) \<Rightarrow> padded w f (rev b)) =
    (let body = replicate (unat precision - length buf) CHR ''0'' @ rev buf;
         sign = sign_string negative flags;
         gap = unat width - length (sign @ body)
     in if has_flag flags FLAGS_LEFT then sign @ body @ replicate gap CHR '' ''
        else if has_flag flags FLAGS_ZEROPAD then sign @ replicate gap CHR ''0'' @ body
        else replicate gap CHR '' '' @ sign @ body)"
proof (cases "has_flag flags FLAGS_LEFT")
  case True
  then have "finalization_zeros buf negative precision width flags =
      (buf @ replicate (unat precision - length buf) CHR ''0'', width)"
    using assms by (simp add: finalization_zeros_def zero_pad_eq)
  then show ?thesis
    using True assms by (subst finalized_string) (auto simp: padded_def Let_def ac_simps)
next
  case left: False
  show ?thesis
  proof (cases "has_flag flags FLAGS_ZEROPAD")
    case False
    then have "finalization_zeros buf negative precision width flags =
        (buf @ replicate (unat precision - length buf) CHR ''0'', width)"
      using assms left by (simp add: finalization_zeros_def zero_pad_eq)
    then show ?thesis
      using left False assms by (subst finalized_string) (auto simp: padded_def Let_def ac_simps)
  next
    case True
    define w where "w = (if width \<noteq> 0 \<and> has_flag flags FLAGS_ZEROPAD
             \<and> (negative \<or> has_flag flags (FLAGS_PLUS OR FLAGS_SPACE))
         then width - 1 else width :: u32)"
    have w: "unat w = unat width - length (sign_string negative flags)"
      unfolding w_def finalization_width using True by simp
    have fz: "finalization_zeros buf negative precision width flags = (zero_pad precision (zero_pad w buf), w)"
      using left True unfolding finalization_zeros_def w_def [symmetric] by (simp add: w_def Let_def)
    have "zero_pad precision (zero_pad w buf) =
        buf @ replicate (max (unat w) (unat precision) - length buf) CHR ''0''"
      using assms left True w
      by (auto simp: zero_pad_eq max_def replicate_add [symmetric] intro!: arg_cong [where f = "\<lambda>n. replicate n CHR ''0''"])
    moreover have "max (unat w) (unat precision) - length buf =
        unat width - length (sign_string negative flags @ replicate (unat precision - length buf) CHR ''0'' @ rev buf)
        + (unat precision - length buf)"
      using w by (auto simp: max_def)
    moreover have "max (unat w) (unat precision) < 32"
      using assms left True w by auto
    ultimately show ?thesis
      using left True assms fz
      by (subst finalized_string [OF _ _ fz]) (auto simp: padded_def Let_def replicate_add intro: replicate_comm)
  qed
qed


lemma iso_digits_cong:
  "has_flag f FLAGS_PRECISION = has_flag g FLAGS_PRECISION \<Longrightarrow>
   has_flag f FLAGS_UPPERCASE = has_flag g FLAGS_UPPERCASE \<Longrightarrow>
     iso_digits val base f = iso_digits val base g"
  by (simp add: iso_digits_def)

lemma integer_string_iso:
  assumes "8 \<le> unat base" "\<not> has_flag flags FLAGS_HASH" "\<not> has_flag flags FLAGS_POINTER"
    and "unat precision < 32"
    and "\<not> has_flag flags FLAGS_LEFT \<and> has_flag flags FLAGS_ZEROPAD \<longrightarrow> unat width < 32"
  shows "integer_string val negative base precision width flags =
     iso_integer val negative base precision width flags"
proof -
  obtain buf flags' where ib: "integer_buffer val base flags = (buf, flags')"
    by (cases "integer_buffer val base flags")
  note b = integer_buffer_iso [OF assms(1) ib]
  have same: "has_flag flags' f = has_flag flags f"
    if "f \<in> {FLAGS_LEFT, FLAGS_ZEROPAD, FLAGS_PLUS, FLAGS_SPACE, FLAGS_POINTER}" for f
    using that by (intro b(2)) (auto simp: FLAGS_defs)
  have no: "\<not> has_flag flags' FLAGS_HASH" "\<not> has_flag flags' FLAGS_POINTER"
    using assms b(3) same by auto
  have sign: "sign_string negative flags' = sign_string negative flags"
    by (intro sign_string_cong) (simp_all add: same)
  have cond: "\<not> has_flag flags' FLAGS_LEFT \<and> has_flag flags' FLAGS_ZEROPAD \<longrightarrow> unat width < 32"
    using assms(5) same by simp
  have len: "length (iso_digits val base flags) = length buf"
    by (simp add: b(1) [symmetric])
  have "integer_string val negative base precision width flags =
      (case finalized_buffer buf negative base precision width flags' of
         (b, w, f) \<Rightarrow> padded w f (rev b))"
    by (simp add: integer_string_def ib)
  also have "\<dots> = iso_integer val negative base precision width flags"
    unfolding iso_field [OF assms(1) no assms(4) cond b(4)] iso_integer_def
    by (simp add: same sign len b(1) Let_def)
  finally show ?thesis .
qed

section \<open>Properties\<close>

text \<open>C15: \<open>print_integer\<close> prints what ISO C prescribes (digits, precision, sign, width, flags
  \<open>-\<close>, \<open>0\<close>, \<open>+\<close>, blank) in every base from 8 on, when no prefix is asked for, for precisions below the
  size of its buffer, and for zero-padded widths below that size.\<close>

theorem print_integer_conforms:
  assumes "8 \<le> unat base" "\<not> has_flag flags FLAGS_HASH" "\<not> has_flag flags FLAGS_POINTER"
    and "unat precision < 32"
    and "\<not> has_flag flags FLAGS_LEFT \<and> has_flag flags FLAGS_ZEROPAD \<longrightarrow> unat width < 32"
  shows "print_integer output val negative base precision width flags =
     emit (iso_integer val negative base precision width flags) output"
  using print_integer_emit [OF unat_base_pos [OF assms(1)]] integer_string_iso [OF assms] by simp

theorem print_integer_conforms_witness:
  "print_integer discarding_gadget 42 True 10 5 8 0 =
     emit (iso_integer 42 True 10 5 8 0) discarding_gadget"
  by (rule print_integer_conforms) (simp_all add: has_flag_def FLAGS_defs)

text \<open>\<open>print_integer\<close> never leaves its buffer of 32 characters, whatever precision,
  width and flags it is given, and with a gadget whose limit is the size of its buffer it never
  writes outside that buffer either; it changes no setting of the gadget.\<close>

theorem print_integer_safe:
  assumes "gadget_wf g" "2 \<le> unat base"
  shows "length (fst (integer_buffer val base flags)) \<le> 32 \<and>
    length (fst (finalized_buffer (fst (integer_buffer val base flags)) negative base precision width flags)) \<le> 32 \<and>
    (\<exists>g'. print_integer g val negative base precision width flags = Some g' \<and> same_sink g g')"
  using length_integer_buffer [OF assms(2), of val flags]
    length_finalized_buffer [of "fst (integer_buffer val base flags)" negative base precision width flags]
    emit_wf_total [OF assms(1)] emit_same_sink
  unfolding print_integer_emit [OF assms(2)] by blast

theorem print_integer_safe_witness:
  "length (fst (integer_buffer 255 2 FLAGS_HASH)) \<le> 32 \<and>
    length (fst (finalized_buffer (fst (integer_buffer 255 2 FLAGS_HASH)) False 2 100 200 FLAGS_HASH)) \<le> 32 \<and>
    (\<exists>g'. print_integer (buffer_gadget (Some (replicate 4 NUL)) 4) 255 False 2 100 200 FLAGS_HASH = Some g' \<and>
       same_sink (buffer_gadget (Some (replicate 4 NUL)) 4) g')"
  by (rule print_integer_safe)
    (simp_all add: gadget_wf_def buffer_gadget_def discarding_gadget_def Let_def
      PRINTF_MAX_POSSIBLE_BUFFER_SIZE_def)

text \<open>\<open>atou_\<close> reads back every decimal number of 32 bits, and stops right after it.\<close>

theorem atou_reads_back:
  assumes "stops 10 rest"
  shows "atou (dec_string n @ rest) = (of_nat n, rest)"
  using assms by (simp add: atou_read_nat)

end
