(* ===== verification/Double.thy ===== *)
theory Double
  imports Prelude
begin

text \<open>
  The type \<open>double\<close> of C on the target: IEEE 754 binary64, as its 64 bits, with the
  operations the printing library uses. The operations compute exactly on integers scaled by a
  power of two and round once, to nearest with ties to even, as the hardware does; a
  conversion to an integer that does not fit is undefined in C and is \<open>None\<close> here.
\<close>

type_synonym double = u64

section \<open>Decoding and rounding\<close>

text \<open>\<open>Fin s m e\<close> is \<open>m * 2 ^ e\<close>, negated if \<open>s\<close>; \<open>m\<close> is not negative.\<close>

datatype fp = NaN | Inf bool | Fin bool int int

definition fp_of :: "double \<Rightarrow> fp" where
  "fp_of x =
     (let s = bit x 63;
          e = uint (drop_bit 52 x AND 0x7FF);
          m = uint (x AND 0xFFFFFFFFFFFFF)
      in if e = 2047 then (if m = 0 then Inf s else NaN)
         else if e = 0 then Fin s m (-1074)
         else Fin s (m + 2 ^ 52) (e - 1075))"

function bit_length :: "int \<Rightarrow> nat" where
  "bit_length n = (if n \<le> 0 then 0 else Suc (bit_length (n div 2)))"
  by pat_completeness auto
termination
  by (relation "measure nat") auto

declare bit_length.simps [simp del]

definition sign_bits :: "bool \<Rightarrow> int \<Rightarrow> double" where
  "sign_bits s n = word_of_int (if s then n + 2 ^ 63 else n)"

text \<open>
  \<open>round_fp s m e sticky\<close> rounds \<open>(m + d) * 2 ^ e\<close>, where \<open>0 < d < 1\<close> if
  \<open>sticky\<close> and \<open>d = 0\<close> if not; with \<open>sticky\<close> the callers supply at least 55
  bits in \<open>m\<close>, so that a non-zero \<open>d\<close> is always below the rounding position.
\<close>

definition round_fp :: "bool \<Rightarrow> int \<Rightarrow> int \<Rightarrow> bool \<Rightarrow> double" where
  "round_fp s m e sticky =
     (if m = 0 then sign_bits s 0
      else
        let e' = max (e + int (bit_length m) - 53) (-1074);
            shift = nat (e' - e);
            q = (if e' \<le> e then m * 2 ^ nat (e - e') else m div 2 ^ shift);
            r = (if e' \<le> e then 0 else m mod 2 ^ shift);
            half = 2 ^ (shift - 1);
            q = (if e < e' \<and> (half < r \<or> r = half \<and> (sticky \<or> odd q)) then q + 1 else q);
            n = (if q < 2 ^ 52 then q else (e' + 1075) * 2 ^ 52 + (q - 2 ^ 52))
        in sign_bits s (min n (2047 * 2 ^ 52)))"

definition fp_nan :: double where
  "fp_nan = 0x7FF8000000000000"

definition fp_inf :: "bool \<Rightarrow> double" where
  "fp_inf s = sign_bits s (2047 * 2 ^ 52)"

definition signed :: "bool \<Rightarrow> int \<Rightarrow> int" where
  "signed s m = (if s then - m else m)"

section \<open>Arithmetic\<close>

definition fneg :: "double \<Rightarrow> double" where
  "fneg x = x XOR 0x8000000000000000"

fun add_fp :: "fp \<Rightarrow> fp \<Rightarrow> double" where
  "add_fp NaN y = fp_nan"
| "add_fp x NaN = fp_nan"
| "add_fp (Inf s) (Inf t) = (if s = t then fp_inf s else fp_nan)"
| "add_fp (Inf s) y = fp_inf s"
| "add_fp x (Inf t) = fp_inf t"
| "add_fp (Fin s m e) (Fin t n f) =
     (let g = min e f;
          v = signed s m * 2 ^ nat (e - g) + signed t n * 2 ^ nat (f - g)
      in if v = 0 then sign_bits (s \<and> t) 0 else round_fp (v < 0) \<bar>v\<bar> g False)"

fun mul_fp :: "fp \<Rightarrow> fp \<Rightarrow> double" where
  "mul_fp NaN y = fp_nan"
| "mul_fp x NaN = fp_nan"
| "mul_fp (Inf s) (Inf t) = fp_inf (s \<noteq> t)"
| "mul_fp (Inf s) (Fin t n f) = (if n = 0 then fp_nan else fp_inf (s \<noteq> t))"
| "mul_fp (Fin s m e) (Inf t) = (if m = 0 then fp_nan else fp_inf (s \<noteq> t))"
| "mul_fp (Fin s m e) (Fin t n f) = round_fp (s \<noteq> t) (m * n) (e + f) False"

fun div_fp :: "fp \<Rightarrow> fp \<Rightarrow> double" where
  "div_fp NaN y = fp_nan"
| "div_fp x NaN = fp_nan"
| "div_fp (Inf s) (Inf t) = fp_nan"
| "div_fp (Inf s) (Fin t n f) = fp_inf (s \<noteq> t)"
| "div_fp (Fin s m e) (Inf t) = sign_bits (s \<noteq> t) 0"
| "div_fp (Fin s m e) (Fin t n f) =
     (if n = 0 then (if m = 0 then fp_nan else fp_inf (s \<noteq> t))
      else let k = 64 + bit_length n
           in round_fp (s \<noteq> t) (m * 2 ^ k div n) (e - f - int k) (m * 2 ^ k mod n \<noteq> 0))"

definition fadd :: "double \<Rightarrow> double \<Rightarrow> double" where
  "fadd x y = add_fp (fp_of x) (fp_of y)"

definition fsub :: "double \<Rightarrow> double \<Rightarrow> double" where
  "fsub x y = add_fp (fp_of x) (fp_of (fneg y))"

definition fmul :: "double \<Rightarrow> double \<Rightarrow> double" where
  "fmul x y = mul_fp (fp_of x) (fp_of y)"

definition fdiv :: "double \<Rightarrow> double \<Rightarrow> double" where
  "fdiv x y = div_fp (fp_of x) (fp_of y)"

section \<open>Comparison\<close>

fun less_fp :: "fp \<Rightarrow> fp \<Rightarrow> bool" where
  "less_fp NaN y = False"
| "less_fp x NaN = False"
| "less_fp (Inf s) (Inf t) = (s \<and> \<not> t)"
| "less_fp (Inf s) (Fin t n f) = s"
| "less_fp (Fin s m e) (Inf t) = (\<not> t)"
| "less_fp (Fin s m e) (Fin t n f) =
     (let g = min e f in signed s m * 2 ^ nat (e - g) < signed t n * 2 ^ nat (f - g))"

fun eq_fp :: "fp \<Rightarrow> fp \<Rightarrow> bool" where
  "eq_fp NaN y = False"
| "eq_fp x NaN = False"
| "eq_fp (Inf s) (Inf t) = (s = t)"
| "eq_fp (Inf s) (Fin t n f) = False"
| "eq_fp (Fin s m e) (Inf t) = False"
| "eq_fp (Fin s m e) (Fin t n f) =
     (let g = min e f in signed s m * 2 ^ nat (e - g) = signed t n * 2 ^ nat (f - g))"

definition flt :: "double \<Rightarrow> double \<Rightarrow> bool" where
  "flt x y = less_fp (fp_of x) (fp_of y)"

definition feq :: "double \<Rightarrow> double \<Rightarrow> bool" where
  "feq x y = eq_fp (fp_of x) (fp_of y)"

definition fle :: "double \<Rightarrow> double \<Rightarrow> bool" where
  "fle x y \<longleftrightarrow> flt x y \<or> feq x y"

section \<open>Conversion\<close>

definition f_of_int :: "int \<Rightarrow> double" where
  "f_of_int i = round_fp (i < 0) \<bar>i\<bar> 0 False"

text \<open>Truncation towards zero, undefined when the result is not in the integer type.\<close>

definition f_trunc :: "double \<Rightarrow> int option" where
  "f_trunc x =
     (case fp_of x of
        Fin s m e \<Rightarrow>
          Some (signed s (if 0 \<le> e then m * 2 ^ nat e else m div 2 ^ nat (- e)))
      | _ \<Rightarrow> None)"

definition f_to_int :: "nat \<Rightarrow> double \<Rightarrow> int option" where
  "f_to_int bits x =
     (case f_trunc x of None \<Rightarrow> None
      | Some i \<Rightarrow> if - (2 ^ (bits - 1)) \<le> i \<and> i < 2 ^ (bits - 1) then Some i else None)"

text \<open>The literal \<open>m * 10 ^ k\<close>, rounded as the compiler does.\<close>

definition f_lit :: "int \<Rightarrow> int \<Rightarrow> double" where
  "f_lit m k =
     (if 0 \<le> k then f_of_int (m * 10 ^ nat k)
      else let d = 10 ^ nat (- k); b = 64 + bit_length d
           in round_fp (m < 0) (\<bar>m\<bar> * 2 ^ b div d) (- int b) (\<bar>m\<bar> * 2 ^ b mod d \<noteq> 0))"

lemma fneg_fneg [simp]: "fneg (fneg x) = x"
  by (simp add: fneg_def bit_eq_iff bit_simps) blast

end
