(* ===== verification/Print_Float.thy ===== *)
theory Print_Float
  imports Print_Integer Double
begin

text \<open>
  The floating-point printing of \<open>src/printf.c\<close> (\<open>%f\<close>, \<open>%e\<close>, \<open>%g\<close>): the split of a
  double into decimal parts, the scaling by a power of ten, and the assembly of the result
  in the 32-byte buffer. \<open>None\<close> stands for undefined behaviour: an index outside
  \<open>powers_of_10\<close>, a double that does not fit the integer type it is converted to, a signed
  overflow. Values of type \<open>int_fast64_t\<close> and \<open>int\<close> are \<open>int\<close>.
\<close>

section \<open>Access to the bits of a double\<close>

definition get_sign_bit :: "double \<Rightarrow> bool" where
  "get_sign_bit x \<longleftrightarrow> drop_bit 63 x \<noteq> 0"

definition get_exp2 :: "double \<Rightarrow> int" where
  "get_exp2 x = uint (drop_bit 52 x AND 0x7FF) - 1023"

section \<open>Decimal components\<close>

record double_components =
  dc_integral :: int
  dc_fractional :: int
  dc_is_negative :: bool

text \<open>\<open>powers_of_10[i]\<close>; the table has 18 entries.\<close>

definition powers_of_10 :: "nat \<Rightarrow> double option" where
  "powers_of_10 i = (if i < 18 then Some (f_of_int (10 ^ i)) else None)"

abbreviation f_half :: double where "f_half \<equiv> f_lit 5 (-1)"

definition get_components :: "double \<Rightarrow> u32 \<Rightarrow> double_components option" where
  "get_components number precision =
     (let is_negative = get_sign_bit number;
          abs_number = (if is_negative then fneg number else number)
      in do {
        integral \<leftarrow> f_to_int 64 abs_number;
        prec_power \<leftarrow> powers_of_10 (unat precision);
        let remainder = fmul (fsub abs_number (f_of_int integral)) prec_power;
        fractional \<leftarrow> f_to_int 64 remainder;
        let remainder = fsub remainder (f_of_int fractional);
        let (integral, fractional) =
          (if flt f_half remainder then
             (let fractional = fractional + 1
              in if fle prec_power (f_of_int fractional) then (integral + 1, 0)
                 else (integral, fractional))
           else if feq remainder f_half \<and> (fractional = 0 \<or> odd fractional)
           then (integral, fractional + 1)
           else (integral, fractional));
        let integral =
          (if precision = 0 then
             (let remainder = fsub abs_number (f_of_int integral)
              in if (\<not> flt remainder f_half \<or> flt f_half remainder) \<and> odd integral
                 then integral + 1 else integral)
           else integral);
        Some \<lparr>dc_integral = integral, dc_fractional = fractional, dc_is_negative = is_negative\<rparr>
      })"

section \<open>Scaling\<close>

record scaling_factor =
  raw_factor :: double
  sf_multiply :: bool

definition apply_scaling :: "double \<Rightarrow> scaling_factor \<Rightarrow> double" where
  "apply_scaling num normalization =
     (if sf_multiply normalization then fmul num (raw_factor normalization)
      else fdiv num (raw_factor normalization))"

definition unapply_scaling :: "double \<Rightarrow> scaling_factor \<Rightarrow> double" where
  "unapply_scaling normalized normalization =
     (if sf_multiply normalization then fdiv normalized (raw_factor normalization)
      else fmul normalized (raw_factor normalization))"

definition update_normalization :: "scaling_factor \<Rightarrow> double \<Rightarrow> scaling_factor" where
  "update_normalization sf extra_multiplicative_factor =
     (if sf_multiply sf then
        \<lparr>raw_factor = fmul (raw_factor sf) extra_multiplicative_factor, sf_multiply = True\<rparr>
      else
        (let factor_exp2 = get_exp2 (raw_factor sf);
             extra_factor_exp2 = get_exp2 extra_multiplicative_factor
         in if \<bar>extra_factor_exp2\<bar> < \<bar>factor_exp2\<bar>
            then \<lparr>raw_factor = fdiv (raw_factor sf) extra_multiplicative_factor, sf_multiply = False\<rparr>
            else \<lparr>raw_factor = fdiv extra_multiplicative_factor (raw_factor sf), sf_multiply = True\<rparr>))"

text \<open>\<open>DBL_MAX_10_EXP - 1\<close> is 307.\<close>

definition get_normalized_components ::
  "bool \<Rightarrow> u32 \<Rightarrow> double \<Rightarrow> scaling_factor \<Rightarrow> int \<Rightarrow> double_components option" where
  "get_normalized_components negative precision non_normalized normalization floored_exp10 =
     (let scaled = apply_scaling non_normalized normalization;
          close_to_representation_extremum = (307 \<le> - floored_exp10 + sint precision)
      in if close_to_representation_extremum
         then get_components (if negative then fneg scaled else scaled) precision
         else do {
           integral \<leftarrow> f_to_int 64 scaled;
           let remainder = fsub non_normalized (unapply_scaling (f_of_int integral) normalization);
           prec_power_of_10 \<leftarrow> powers_of_10 (unat precision);
           let account_for_precision = update_normalization normalization prec_power_of_10;
           let scaled_remainder = apply_scaling remainder account_for_precision;
           fractional \<leftarrow> f_to_int 64 scaled_remainder;
           let scaled_remainder = fsub scaled_remainder (f_of_int fractional);
           let fractional = fractional + (if fle f_half scaled_remainder then 1 else 0);
           let fractional = (if feq scaled_remainder f_half then fractional AND NOT 1 else fractional);
           let (integral, fractional) =
             (if fle prec_power_of_10 (f_of_int fractional) then (integral + 1, 0)
              else (integral, fractional));
           Some \<lparr>dc_integral = integral, dc_fractional = fractional, dc_is_negative = negative\<rparr>
         })"

section \<open>Assembling the decimal number\<close>

definition PRINTF_DECIMAL_BUFFER_SIZE :: nat where
  "PRINTF_DECIMAL_BUFFER_SIZE = 32"

text \<open>C's division truncates towards zero.\<close>

definition c_div10 :: "int \<Rightarrow> int" where
  "c_div10 n = sgn n * (\<bar>n\<bar> div 10)"

definition c_mod10 :: "int \<Rightarrow> int" where
  "c_mod10 n = sgn n * (\<bar>n\<bar> mod 10)"

definition dec_digit :: "int \<Rightarrow> char" where
  "dec_digit n = char_of (nat ((of_char CHR ''0'' + c_mod10 n) mod 256))"

text \<open>The loop that drops trailing zeros, entered with a positive fraction, which it keeps.\<close>

function strip_zeros :: "u32 \<Rightarrow> int \<Rightarrow> u32 \<times> int" where
  "strip_zeros count fractional =
     (if fractional \<le> 0 \<or> c_mod10 fractional \<noteq> 0 then (count, fractional)
      else strip_zeros (count - 1) (c_div10 fractional))"
  by pat_completeness auto
termination
  by (relation "measure (\<lambda>(count, fractional). nat fractional)") (auto simp: c_div10_def sgn_if)

function fraction_digits :: "string \<Rightarrow> u32 \<Rightarrow> int \<Rightarrow> string \<times> u32" where
  "fraction_digits buf count fractional =
     (if length buf < PRINTF_DECIMAL_BUFFER_SIZE then
        (let count = count - 1;
             buf' = buf @ [dec_digit fractional];
             fractional = c_div10 fractional
         in if fractional = 0 then (buf', count) else fraction_digits buf' count fractional)
      else (buf, count))"
  by pat_completeness auto
termination
  by (relation "measure (\<lambda>(buf, count, fractional). PRINTF_DECIMAL_BUFFER_SIZE - length buf)") auto

function extra_zeros :: "string \<Rightarrow> u32 \<Rightarrow> string" where
  "extra_zeros buf count =
     (if length buf < PRINTF_DECIMAL_BUFFER_SIZE \<and> 0 < count
      then extra_zeros (buf @ ''0'') (count - 1) else buf)"
  by pat_completeness auto
termination
  by (relation "measure (\<lambda>(buf, count). PRINTF_DECIMAL_BUFFER_SIZE - length buf)") auto

function integral_digits :: "string \<Rightarrow> int \<Rightarrow> string" where
  "integral_digits buf integral =
     (if length buf < PRINTF_DECIMAL_BUFFER_SIZE then
        (let buf' = buf @ [dec_digit integral];
             integral = c_div10 integral
         in if integral = 0 then buf' else integral_digits buf' integral)
      else buf)"
  by pat_completeness auto
termination
  by (relation "measure (\<lambda>(buf, integral). PRINTF_DECIMAL_BUFFER_SIZE - length buf)") auto

declare strip_zeros.simps [simp del] fraction_digits.simps [simp del]
  extra_zeros.simps [simp del] integral_digits.simps [simp del]

definition decimal_fraction :: "double_components \<Rightarrow> u32 \<Rightarrow> u32 \<Rightarrow> string \<Rightarrow> string" where
  "decimal_fraction number precision flags buf =
     (if precision \<noteq> 0 then
        (let (count, fractional) =
               (if has_flag flags FLAGS_ADAPT_EXP \<and> \<not> has_flag flags FLAGS_HASH
                   \<and> 0 < dc_fractional number
                then strip_zeros precision (dc_fractional number)
                else (precision, dc_fractional number))
         in if 0 < fractional \<or> \<not> has_flag flags FLAGS_ADAPT_EXP \<or> has_flag flags FLAGS_HASH
            then (let (buf, count) = fraction_digits buf count fractional;
                      buf = extra_zeros buf count
                  in if length buf < PRINTF_DECIMAL_BUFFER_SIZE then buf @ ''.'' else buf)
            else buf)
      else if has_flag flags FLAGS_HASH \<and> length buf < PRINTF_DECIMAL_BUFFER_SIZE
      then buf @ ''.'' else buf)"

definition decimal_padding :: "string \<Rightarrow> bool \<Rightarrow> u32 \<Rightarrow> u32 \<Rightarrow> string \<times> u32" where
  "decimal_padding buf is_negative width flags =
     (if \<not> has_flag flags FLAGS_LEFT \<and> has_flag flags FLAGS_ZEROPAD then
        (let width = (if width \<noteq> 0 \<and> (is_negative \<or> has_flag flags (FLAGS_PLUS OR FLAGS_SPACE))
                      then width - 1 else width)
         in (zero_pad width buf, width))
      else (buf, width))"

definition decimal_buffer ::
  "double_components \<Rightarrow> u32 \<Rightarrow> u32 \<Rightarrow> u32 \<Rightarrow> string \<Rightarrow> string \<times> u32" where
  "decimal_buffer number precision width flags buf =
     (let buf = decimal_fraction number precision flags buf;
          buf = integral_digits buf (dc_integral number);
          (buf, width) = decimal_padding buf (dc_is_negative number) width flags
      in (finalization_sign buf (dc_is_negative number) flags, width))"

definition print_broken_up_decimal ::
  "double_components \<Rightarrow> output_gadget \<Rightarrow> u32 \<Rightarrow> u32 \<Rightarrow> u32 \<Rightarrow> string \<Rightarrow> output_gadget option" where
  "print_broken_up_decimal number output precision width flags buf =
     (let (buf, width) = decimal_buffer number precision width flags buf
      in out_rev output buf (length buf) width flags)"

definition print_decimal_number ::
  "output_gadget \<Rightarrow> double \<Rightarrow> u32 \<Rightarrow> u32 \<Rightarrow> u32 \<Rightarrow> string \<Rightarrow> output_gadget option" where
  "print_decimal_number output number precision width flags buf =
     do { v \<leftarrow> get_components number precision;
          print_broken_up_decimal v output precision width flags buf }"


section \<open>Exponential notation\<close>

definition bastardized_floor :: "double \<Rightarrow> int option" where
  "bastardized_floor x =
     (if fle 0 x then f_to_int 32 x
      else do {
        n \<leftarrow> f_to_int 32 x;
        Some (if feq (f_of_int n) x then n else n - 1)
      })"

text \<open>The series around 1.5; \<open>f_lit m k\<close> is the literal \<open>m * 10 ^ k\<close> of the source.\<close>

definition log10_of_positive :: "double \<Rightarrow> double" where
  "log10_of_positive positive_number =
     (let exp2 = get_exp2 positive_number;
          F = (positive_number AND (push_bit 52 1 - 1)) OR push_bit 52 1023;
          z = fsub F (f_lit 15 (-1))
      in fadd
           (fadd
             (fsub
               (fadd (f_lit 1760912590556812420 (-19)) (fmul z (f_lit 2895296546021678851 (-19))))
               (fmul (fmul z z) (f_lit 965098848673892950 (-19))))
             (fmul (fmul (fmul z z) z) (f_lit 428932821632841311 (-19))))
           (fmul (f_of_int exp2) (f_lit 30102999566398119521 (-20))))"

definition pow10_of_int :: "int \<Rightarrow> double option" where
  "pow10_of_int floored_exp10 =
     (if floored_exp10 = - 308 then Some (f_lit 1 (-308))
      else do {
        exp2 \<leftarrow> bastardized_floor
                 (fadd (fmul (f_of_int floored_exp10) (f_lit 3321928094887362 (-15))) f_half);
        let z = fsub (fmul (f_of_int floored_exp10) (f_lit 2302585092994046 (-15)))
                     (fmul (f_of_int exp2) (f_lit 6931471805599453 (-16)));
        let z2 = fmul z z;
        let U = push_bit 52 (word_of_int exp2 + 1023 :: u64);
        Some (fmul U
          (fadd (f_of_int 1)
            (fdiv (fmul (f_of_int 2) z)
              (fadd (fsub (f_of_int 2) z)
                (fdiv z2 (fadd (f_of_int 6)
                  (fdiv z2 (fadd (f_of_int 10) (fdiv z2 (f_of_int 14)))))))))) 
      })"

text \<open>
  The decimal exponent, whether the table of powers covers it, and the factor to scale by.
  For zero the source leaves the last two unset, and never reads them.
\<close>

definition decimal_exponent :: "double \<Rightarrow> (int \<times> bool \<times> double) option" where
  "decimal_exponent abs_number =
     (if feq abs_number 0 then Some (0, False, 0)
      else do {
        let exp10 = log10_of_positive abs_number;
        floored_exp10 \<leftarrow> bastardized_floor exp10;
        p10 \<leftarrow> pow10_of_int floored_exp10;
        let (floored_exp10, p10) =
          (if flt abs_number p10 then (floored_exp10 - 1, fdiv p10 (f_of_int 10))
           else (floored_exp10, p10));
        let covered = (\<bar>floored_exp10\<bar> < 18);
        factor \<leftarrow> (if covered then powers_of_10 (nat \<bar>floored_exp10\<bar>) else Some p10);
        Some (floored_exp10, covered, factor)
      })"

text \<open>An \<open>int\<close> result that does not fit is a signed overflow.\<close>

definition as_int32 :: "int \<Rightarrow> int option" where
  "as_int32 i = (if - (2 ^ 31) \<le> i \<and> i < 2 ^ 31 then Some i else None)"

text \<open>\<open>%g\<close>: whether to fall back to decimal notation, and the digits after the point.\<close>

definition adapt_exponent :: "int \<Rightarrow> u32 \<Rightarrow> u32 \<Rightarrow> (bool \<times> u32 \<times> u32) option" where
  "adapt_exponent floored_exp10 precision flags =
     (if has_flag flags FLAGS_ADAPT_EXP then
        (let required_significant_digits = (if precision = 0 then 1 else sint precision);
             fall_back = (- 4 \<le> floored_exp10 \<and> floored_exp10 < required_significant_digits)
         in do {
              p \<leftarrow> as_int32 (sint precision - 1);
              precision' \<leftarrow> as_int32 (if fall_back then p - floored_exp10 else p);
              Some (fall_back, if 0 < precision' then word_of_int precision' else 0,
                    flags OR FLAGS_PRECISION)
            })
      else Some (False, precision, flags))"

text \<open>Rounding can carry into one more integral digit.\<close>

definition exponent_rollover ::
  "bool \<Rightarrow> u32 \<Rightarrow> int \<Rightarrow> u32 \<Rightarrow> double_components \<Rightarrow> (int \<times> u32 \<times> double_components) option" where
  "exponent_rollover fall_back flags floored_exp10 precision components =
     (if fall_back then
        (if has_flag flags FLAGS_ADAPT_EXP \<and> - 1 \<le> floored_exp10 then
           do {
             p \<leftarrow> powers_of_10 (nat (floored_exp10 + 1));
             Some (if feq (f_of_int (dc_integral components)) p
                   then (floored_exp10 + 1, precision - 1, components)
                   else (floored_exp10, precision, components))
           }
         else Some (floored_exp10, precision, components))
      else if 10 \<le> dc_integral components
      then Some (floored_exp10 + 1, precision,
                 components\<lparr>dc_integral := 1, dc_fractional := 0\<rparr>)
      else Some (floored_exp10, precision, components))"

text \<open>The computation of what to print, up to the output of the decimal part.\<close>

definition exponential_parts ::
  "double \<Rightarrow> u32 \<Rightarrow> u32 \<Rightarrow> (bool \<times> int \<times> u32 \<times> u32 \<times> double_components) option" where
  "exponential_parts number precision flags =
     (let negative = get_sign_bit number;
          abs_number = (if negative then fneg number else number)
      in do {
        (floored_exp10, covered, factor) \<leftarrow> decimal_exponent abs_number;
        (fall_back, precision, flags) \<leftarrow> adapt_exponent floored_exp10 precision flags;
        let normalization =
          \<lparr>raw_factor = factor, sf_multiply = (floored_exp10 < 0 \<and> covered)\<rparr>;
        components \<leftarrow>
          (if fall_back \<or> floored_exp10 = 0
           then get_components (if negative then fneg abs_number else abs_number) precision
           else get_normalized_components negative precision abs_number normalization floored_exp10);
        (floored_exp10, precision, components) \<leftarrow>
          exponent_rollover fall_back flags floored_exp10 precision components;
        Some (fall_back, floored_exp10, precision, flags, components)
      })"

definition exponent_width :: "bool \<Rightarrow> int \<Rightarrow> u32" where
  "exponent_width fall_back floored_exp10 =
     (if fall_back then 0 else if \<bar>floored_exp10\<bar> < 100 then 4 else 5)"

definition decimal_part_width :: "u32 \<Rightarrow> u32 \<Rightarrow> u32 \<Rightarrow> u32" where
  "decimal_part_width exp10_part_width width flags =
     (if has_flag flags FLAGS_LEFT \<and> exp10_part_width \<noteq> 0 then 0
      else if exp10_part_width < width then width - exp10_part_width else 0)"

definition print_exponential_number ::
  "output_gadget \<Rightarrow> double \<Rightarrow> u32 \<Rightarrow> u32 \<Rightarrow> u32 \<Rightarrow> string \<Rightarrow> output_gadget option" where
  "print_exponential_number output number precision width flags buf =
     do {
       (fall_back, floored_exp10, precision, flags, components) \<leftarrow>
         exponential_parts number precision flags;
       let exp10_part_width = exponent_width fall_back floored_exp10;
       let printed_exponential_start_pos = og_pos output;
       output \<leftarrow> print_broken_up_decimal components output precision
                  (decimal_part_width exp10_part_width width flags) flags buf;
       (if \<not> fall_back then do {
          output \<leftarrow> putchar_via_gadget output
                     (if has_flag flags FLAGS_UPPERCASE then CHR ''E'' else CHR ''e'');
          output \<leftarrow> print_integer output (word_of_int \<bar>floored_exp10\<bar>) (floored_exp10 < 0)
                     BASE_DECIMAL 0 (exp10_part_width - 1) (FLAGS_ZEROPAD OR FLAGS_PLUS);
          (if has_flag flags FLAGS_LEFT
           then pad_until printed_exponential_start_pos width output else Some output)
        }
        else Some output)
     }"

text \<open>
  \<open>while (len < PRINTF_DECIMAL_BUFFER_SIZE && precision > PRINTF_MAX_SUPPORTED_PRECISION)\<close>
\<close>

function limit_precision :: "string \<Rightarrow> u32 \<Rightarrow> string \<times> u32" where
  "limit_precision buf precision =
     (if length buf < PRINTF_DECIMAL_BUFFER_SIZE \<and> 17 < precision
      then limit_precision (buf @ ''0'') (precision - 1) else (buf, precision))"
  by pat_completeness auto
termination
  by (relation "measure (\<lambda>(buf, precision). PRINTF_DECIMAL_BUFFER_SIZE - length buf)") auto

declare limit_precision.simps [simp del]

definition DBL_MAX :: double where "DBL_MAX = 0x7FEFFFFFFFFFFFFF"

definition PRINTF_FLOAT_NOTATION_THRESHOLD :: double where
  "PRINTF_FLOAT_NOTATION_THRESHOLD = f_lit 1 9"

definition print_floating_point ::
  "output_gadget \<Rightarrow> double \<Rightarrow> u32 \<Rightarrow> u32 \<Rightarrow> u32 \<Rightarrow> bool \<Rightarrow> output_gadget option" where
  "print_floating_point output val precision width flags prefer_exponential =
     (if \<not> feq val val then out_rev output ''nan'' 3 width flags
      else if flt val (fneg DBL_MAX) then out_rev output ''fni-'' 4 width flags
      else if flt DBL_MAX val then
        out_rev output (if has_flag flags FLAGS_PLUS then ''fni+'' else ''fni'')
          (if has_flag flags FLAGS_PLUS then 4 else 3) width flags
      else if \<not> prefer_exponential
          \<and> (flt PRINTF_FLOAT_NOTATION_THRESHOLD val
             \<or> flt val (fneg PRINTF_FLOAT_NOTATION_THRESHOLD))
      then print_exponential_number output val precision width flags []
      else
        (let precision = (if \<not> has_flag flags FLAGS_PRECISION then 6 else precision);
             (buf, precision) = limit_precision [] precision
         in if prefer_exponential
            then print_exponential_number output val precision width flags buf
            else print_decimal_number output val precision width flags buf))"


section \<open>The buffer never overflows, and one string is printed\<close>

lemma length_fraction_digits:
  "length buf \<le> 32 \<Longrightarrow> length (fst (fraction_digits buf count fractional)) \<le> 32"
proof (induction buf count fractional rule: fraction_digits.induct)
  case (1 buf count fractional)
  then show ?case
    by (subst fraction_digits.simps) (auto simp: Let_def PRINTF_DECIMAL_BUFFER_SIZE_def)
qed

lemma length_extra_zeros: "length buf \<le> 32 \<Longrightarrow> length (extra_zeros buf count) \<le> 32"
proof (induction buf count rule: extra_zeros.induct)
  case (1 buf count)
  then show ?case
    by (subst extra_zeros.simps) (auto simp: PRINTF_DECIMAL_BUFFER_SIZE_def)
qed

lemma length_integral_digits: "length buf \<le> 32 \<Longrightarrow> length (integral_digits buf i) \<le> 32"
proof (induction buf i rule: integral_digits.induct)
  case (1 buf i)
  then show ?case
    by (subst integral_digits.simps) (auto simp: Let_def PRINTF_DECIMAL_BUFFER_SIZE_def)
qed

lemma length_limit_precision: "length buf \<le> 32 \<Longrightarrow> length (fst (limit_precision buf p)) \<le> 32"
proof (induction buf p rule: limit_precision.induct)
  case (1 buf p)
  then show ?case
    by (subst limit_precision.simps) (auto simp: PRINTF_DECIMAL_BUFFER_SIZE_def)
qed

lemma length_decimal_fraction:
  assumes "length buf \<le> 32"
  shows "length (decimal_fraction number precision flags buf) \<le> 32"
proof -
  have "length (extra_zeros buf' c) \<le> 32"
    if "fraction_digits buf count fractional = (buf', c)" for count fractional buf' c
    using length_fraction_digits [OF assms, of count fractional] that
    by (intro length_extra_zeros) simp
  then show ?thesis
    using assms
    by (auto simp: decimal_fraction_def Let_def PRINTF_DECIMAL_BUFFER_SIZE_def split: prod.splits)
qed

lemma length_decimal_buffer:
  assumes "length buf \<le> 32"
  shows "length (fst (decimal_buffer number precision width flags buf)) \<le> 32"
  unfolding decimal_buffer_def decimal_padding_def Let_def
  by (auto intro!: length_finalization_sign length_zero_pad length_integral_digits
      length_decimal_fraction [OF assms])

text \<open>The strings printed for a number in decimal and in exponential notation.\<close>

definition decimal_string :: "double_components \<Rightarrow> u32 \<Rightarrow> u32 \<Rightarrow> u32 \<Rightarrow> string \<Rightarrow> string" where
  "decimal_string number precision width flags buf =
     (let (buf, width) = decimal_buffer number precision width flags buf
      in padded width flags (rev buf))"

lemma print_broken_up_decimal_emit [emit_simps]:
  assumes "length buf \<le> 32"
  shows "print_broken_up_decimal number output precision width flags buf =
     emit (decimal_string number precision width flags buf) output"
  using length_decimal_buffer [OF assms, of number precision width flags]
  by (auto simp: print_broken_up_decimal_def decimal_string_def out_rev_emit split: prod.splits)

definition exponential_string :: "double \<Rightarrow> u32 \<Rightarrow> u32 \<Rightarrow> u32 \<Rightarrow> string \<Rightarrow> string option" where
  "exponential_string number precision width flags buf =
     do {
       (fall_back, floored_exp10, precision, flags, components) \<leftarrow>
         exponential_parts number precision flags;
       let exp_width = exponent_width fall_back floored_exp10;
       let s = decimal_string components precision (decimal_part_width exp_width width flags) flags buf;
       let t = s @ (if has_flag flags FLAGS_UPPERCASE then ''E'' else ''e'')
                 @ integer_string (word_of_int \<bar>floored_exp10\<bar>) (floored_exp10 < 0)
                     BASE_DECIMAL 0 (exp_width - 1) (FLAGS_ZEROPAD OR FLAGS_PLUS);
       Some (if fall_back then s
             else if has_flag flags FLAGS_LEFT
             then t @ replicate (unat width - unat (of_nat (length t) :: u32)) CHR '' ''
             else t)
     }"

lemma pad_until_after:
  assumes "emit s g = Some g'"
  shows "pad_until (og_pos g) width g' =
     emit (replicate (unat width - unat (of_nat (length s) :: u32)) CHR '' '') g'"
  using emit_pos [OF assms] by (simp add: pad_until_emit)

lemma emit_then_pad:
  "do { g1 \<leftarrow> emit s g; g2 \<leftarrow> emit e g1; g3 \<leftarrow> emit i g2;
        (if left then pad_until (og_pos g) width g3 else Some g3) } =
   emit (if left
         then (s @ e @ i) @ replicate (unat width - unat (of_nat (length (s @ e @ i)) :: u32)) CHR '' ''
         else s @ e @ i) g"
proof -
  have "do { g1 \<leftarrow> emit s g; g2 \<leftarrow> emit e g1; g3 \<leftarrow> emit i g2; k g3 } =
      Option.bind (emit (s @ e @ i) g) k" for k :: "output_gadget \<Rightarrow> output_gadget option"
    by (simp add: emit_append split: option.splits)
  moreover have "Option.bind (emit t g) (\<lambda>g3. if left then pad_until (og_pos g) width g3 else Some g3) =
      emit (if left then t @ replicate (unat width - unat (of_nat (length t) :: u32)) CHR '' ''
            else t) g" for t
    by (cases "emit t g") (simp_all add: pad_until_after emit_append)
  ultimately show ?thesis by (simp only:)
qed

lemma print_exponential_emit:
  assumes "length buf \<le> 32"
  shows "print_exponential_number output number precision width flags buf =
     Option.bind (exponential_string number precision width flags buf) (\<lambda>s. emit s output)"
proof (cases "exponential_parts number precision flags")
  case None
  then show ?thesis by (simp add: print_exponential_number_def exponential_string_def)
next
  case (Some parts)
  obtain fall_back e p f comps where parts: "parts = (fall_back, e, p, f, comps)"
    by (cases parts) auto
  let ?w = "exponent_width fall_back e"
  let ?s = "decimal_string comps p (decimal_part_width ?w width f) f buf"
  let ?E = "if has_flag f FLAGS_UPPERCASE then ''E'' else ''e''"
  let ?i = "integer_string (word_of_int \<bar>e\<bar>) (e < 0) BASE_DECIMAL 0 (?w - 1) (FLAGS_ZEROPAD OR FLAGS_PLUS)"
  have E: "putchar_via_gadget g (if has_flag f FLAGS_UPPERCASE then CHR ''E'' else CHR ''e'') =
      emit ?E g" for g
    by (simp split: option.splits)
  show ?thesis
  proof (cases fall_back)
    case True
    then show ?thesis
      using assms by (simp add: print_exponential_number_def exponential_string_def Some parts
          print_broken_up_decimal_emit Let_def)
  next
    case False
    then have "print_exponential_number output number precision width flags buf =
        do { g1 \<leftarrow> emit ?s output; g2 \<leftarrow> emit ?E g1; g3 \<leftarrow> emit ?i g2;
             (if has_flag f FLAGS_LEFT then pad_until (og_pos output) width g3 else Some g3) }"
      using assms by (simp add: print_exponential_number_def Some parts
          print_broken_up_decimal_emit print_integer_emit E Let_def)
    also have "\<dots> = Option.bind (exponential_string number precision width flags buf) (\<lambda>s. emit s output)"
      unfolding emit_then_pad using False
      by (simp add: exponential_string_def Some parts Let_def)
    finally show ?thesis .
  qed
qed


definition float_string :: "double \<Rightarrow> u32 \<Rightarrow> u32 \<Rightarrow> u32 \<Rightarrow> bool \<Rightarrow> string option" where
  "float_string val precision width flags prefer_exponential =
     (if \<not> feq val val then Some (padded width flags ''nan'')
      else if flt val (fneg DBL_MAX) then Some (padded width flags ''-inf'')
      else if flt DBL_MAX val
      then Some (padded width flags (if has_flag flags FLAGS_PLUS then ''+inf'' else ''inf''))
      else if \<not> prefer_exponential
          \<and> (flt PRINTF_FLOAT_NOTATION_THRESHOLD val
             \<or> flt val (fneg PRINTF_FLOAT_NOTATION_THRESHOLD))
      then exponential_string val precision width flags []
      else
        (let precision = (if \<not> has_flag flags FLAGS_PRECISION then 6 else precision);
             (buf, precision) = limit_precision [] precision
         in if prefer_exponential
            then exponential_string val precision width flags buf
            else map_option (\<lambda>v. decimal_string v precision width flags buf)
                   (get_components val precision)))"

lemma print_floating_point_emit:
  "print_floating_point output val precision width flags prefer_exponential =
     Option.bind (float_string val precision width flags prefer_exponential) (\<lambda>s. emit s output)"
proof -
  have dec: "print_decimal_number output val p width flags buf =
      Option.bind (map_option (\<lambda>v. decimal_string v p width flags buf) (get_components val p))
        (\<lambda>s. emit s output)" if "length buf \<le> 32" for p buf
    using that by (cases "get_components val p")
      (simp_all add: print_decimal_number_def print_broken_up_decimal_emit)
  have len: "length buf \<le> 32" if "limit_precision [] p = (buf, p')" for buf p p'
    using length_limit_precision [of "[]" p] that by simp
  show ?thesis
    unfolding print_floating_point_def float_string_def
    by (auto simp: out_rev_const print_exponential_emit dec len Let_def
        simp del: print_decimal_number_def split: prod.split)
qed

section \<open>Properties\<close>

text \<open>C39: the decimal buffer of a floating point number never holds more than its 32 characters:
  after \<open>print_floating_point\<close> has clamped the precision, the fraction, the integral part, the padding and
  the sign together stay inside it, for all components, widths and flags.\<close>

theorem decimal_buffer_in_bounds:
  assumes "limit_precision [] precision = (buf, precision')"
  shows "length (fst (decimal_buffer components precision' width flags buf)) \<le> 32"
  using length_limit_precision [of "[]" precision] assms by (intro length_decimal_buffer) simp

theorem decimal_buffer_in_bounds_witness:
  "length (fst (decimal_buffer \<lparr>dc_integral = 123456789, dc_fractional = 5, dc_is_negative = True\<rparr>
     (snd (limit_precision [] 40)) 60 FLAGS_ZEROPAD (fst (limit_precision [] 40)))) \<le> 32"
  by (rule decimal_buffer_in_bounds [of 40]) simp

text \<open>\<open>print_floating_point\<close> either is undefined or sends one string, that of
  \<open>float_string\<close>, to its output, in every notation; the result depends on the gadget in no other way.\<close>

theorem print_floating_point_string:
  "print_floating_point output val precision width flags prefer_exponential =
     Option.bind (float_string val precision width flags prefer_exponential) (\<lambda>s. emit s output)"
  by (rule print_floating_point_emit)

text \<open>The precision is clamped only after the branch for numbers above \<open>1e9\<close>, so that
  \<open>%.30f\<close> of \<open>1e10\<close> reads the table of powers of ten beyond its end.\<close>

theorem large_number_unclamped_precision:
  "print_floating_point discarding_gadget (f_lit 1 10) 30 0 FLAGS_PRECISION False = None"
  by code_simp

end
