(* ===== verification/Format.thy ===== *)
theory Format
  imports Print_Float
begin

text \<open>
  The interpreter of format strings of \<open>src/printf.c\<close>: \<open>format_string_loop\<close> and the
  functions of the \<open>printf\<close> family built on it. A format string is a list of bytes whose
  end is the terminating NUL; \<open>peek\<close> is \<open>*format\<close>. The variable arguments are a list of
  slots, as the calling convention of the target passes them: a general-purpose slot holds an
  integer or a pointer, of which \<open>va_arg\<close> reads the low bits. Reading a slot of the wrong
  kind, or one more than there are, is undefined. The stores of \<open>%n\<close> are listed in order.
\<close>

section \<open>Variable arguments\<close>

datatype va_slot =
    Gp u64            \<comment> \<open>an integer, or a pointer used as a number; 0 is NULL\<close>
  | Gp_str string     \<comment> \<open>a pointer to a string\<close>
  | Gp_out nat        \<comment> \<open>a pointer to a variable that \<open>%n\<close> writes\<close>
  | Fp double

fun va_word :: "va_slot list \<Rightarrow> (u64 \<times> va_slot list) option" where
  "va_word (Gp w # args) = Some (w, args)"
| "va_word args = None"

definition va_int :: "va_slot list \<Rightarrow> (u32 \<times> va_slot list) option" where
  "va_int args = map_option (\<lambda>(w, args). (ucast w, args)) (va_word args)"

fun va_str :: "va_slot list \<Rightarrow> (string option \<times> va_slot list) option" where
  "va_str (Gp_str s # args) = Some (Some s, args)"
| "va_str (Gp w # args) = (if w = 0 then Some (None, args) else None)"
| "va_str args = None"

fun va_double :: "va_slot list \<Rightarrow> (double \<times> va_slot list) option" where
  "va_double (Fp x # args) = Some (x, args)"
| "va_double args = None"

fun va_out :: "va_slot list \<Rightarrow> (nat \<times> va_slot list) option" where
  "va_out (Gp_out p # args) = Some (p, args)"
| "va_out args = None"

section \<open>Parsing a conversion specification\<close>

definition peek :: "string \<Rightarrow> char" where
  "peek format = (case format of [] \<Rightarrow> NUL | c # _ \<Rightarrow> c)"

text \<open>The macro \<open>ADVANCE_IN_FORMAT_STRING\<close> returns from the function at the end.\<close>

datatype 'a parsed = Go 'a | Return | Undefined

primrec andthen :: "'a parsed \<Rightarrow> ('a \<Rightarrow> 'b parsed) \<Rightarrow> 'b parsed" where
  "andthen (Go x) f = f x"
| "andthen Return f = Return"
| "andthen Undefined f = Undefined"

definition ADVANCE_IN_FORMAT_STRING :: "string \<Rightarrow> string parsed" where
  "ADVANCE_IN_FORMAT_STRING cptr =
     (case cptr of [] \<Rightarrow> Undefined | c # rest \<Rightarrow> if rest = [] then Return else Go rest)"

fun parse_flags_loop :: "u32 \<Rightarrow> string \<Rightarrow> u32 \<times> string" where
  "parse_flags_loop flags [] = (flags, [])"
| "parse_flags_loop flags (c # format) =
     (if c = CHR ''0'' then parse_flags_loop (flags OR FLAGS_ZEROPAD) format
      else if c = CHR ''-'' then parse_flags_loop (flags OR FLAGS_LEFT) format
      else if c = CHR ''+'' then parse_flags_loop (flags OR FLAGS_PLUS) format
      else if c = CHR '' '' then parse_flags_loop (flags OR FLAGS_SPACE) format
      else if c = CHR ''#'' then parse_flags_loop (flags OR FLAGS_HASH) format
      else (flags, c # format))"

definition parse_flags :: "string \<Rightarrow> u32 \<times> string" where
  "parse_flags format = parse_flags_loop 0 format"

definition parse_width ::
  "u32 \<Rightarrow> string \<Rightarrow> va_slot list \<Rightarrow> (u32 \<times> u32 \<times> string \<times> va_slot list) parsed" where
  "parse_width flags format args =
     (if is_digit (peek format) then
        (let (width, format) = atou format in Go (flags, width, format, args))
      else if peek format = CHR ''*'' then
        (case va_int args of
           None \<Rightarrow> Undefined
         | Some (w, args) \<Rightarrow>
             if sint w = - (2 ^ 31) then Undefined
             else
               (let (flags, width) = (if sint w < 0 then (flags OR FLAGS_LEFT, - w) else (flags, w))
                in andthen (ADVANCE_IN_FORMAT_STRING format)
                     (\<lambda>format. Go (flags, width, format, args))))
      else Go (flags, 0, format, args))"

definition parse_precision ::
  "u32 \<Rightarrow> string \<Rightarrow> va_slot list \<Rightarrow> (u32 \<times> u32 \<times> string \<times> va_slot list) parsed" where
  "parse_precision flags format args =
     (if peek format = CHR ''.'' then
        (let flags = flags OR FLAGS_PRECISION in
         andthen (ADVANCE_IN_FORMAT_STRING format) (\<lambda>format.
           if is_digit (peek format) then
             (let (precision, format) = atou format in Go (flags, precision, format, args))
           else if peek format = CHR ''*'' then
             (case va_int args of
                None \<Rightarrow> Undefined
              | Some (p, args) \<Rightarrow>
                  (let precision = (if 0 < sint p then p else 0)
                   in andthen (ADVANCE_IN_FORMAT_STRING format)
                        (\<lambda>format. Go (flags, precision, format, args))))
           else Go (flags, 0, format, args)))
      else Go (flags, 0, format, args))"

text \<open>On the target \<open>ptrdiff_t\<close>, \<open>intmax_t\<close> and \<open>size_t\<close> have the size of \<open>long\<close>.\<close>

definition parse_length :: "u32 \<Rightarrow> string \<Rightarrow> (u32 \<times> string) parsed" where
  "parse_length flags format =
     (let c = peek format in
      if c = CHR ''l'' then
        andthen (ADVANCE_IN_FORMAT_STRING format) (\<lambda>format.
          if peek format = CHR ''l'' then
            andthen (ADVANCE_IN_FORMAT_STRING format)
              (\<lambda>format. Go (flags OR FLAGS_LONG OR FLAGS_LONG_LONG, format))
          else Go (flags OR FLAGS_LONG, format))
      else if c = CHR ''h'' then
        andthen (ADVANCE_IN_FORMAT_STRING format) (\<lambda>format.
          if peek format = CHR ''h'' then
            andthen (ADVANCE_IN_FORMAT_STRING format)
              (\<lambda>format. Go (flags OR FLAGS_SHORT OR FLAGS_CHAR, format))
          else Go (flags OR FLAGS_SHORT, format))
      else if c = CHR ''t'' \<or> c = CHR ''j'' \<or> c = CHR ''z'' then
        andthen (ADVANCE_IN_FORMAT_STRING format) (\<lambda>format. Go (flags OR FLAGS_LONG, format))
      else Go (flags, format))"

record conversion =
  cv_flags :: u32
  cv_width :: u32
  cv_precision :: u32

text \<open>\<open>%[flags][width][.precision][length]\<close>, from the \<open>%\<close> on.\<close>

definition parse_conversion ::
  "string \<Rightarrow> va_slot list \<Rightarrow> (conversion \<times> string \<times> va_slot list) parsed" where
  "parse_conversion format args =
     andthen (ADVANCE_IN_FORMAT_STRING format) (\<lambda>format.
       let (flags, format) = parse_flags format in
       andthen (parse_width flags format args) (\<lambda>(flags, width, format, args).
       andthen (parse_precision flags format args) (\<lambda>(flags, precision, format, args).
       andthen (parse_length flags format) (\<lambda>(flags, format).
         Go (\<lparr>cv_flags = flags, cv_width = width, cv_precision = precision\<rparr>, format, args)))))"

section \<open>The conversions\<close>

text \<open>
  \<open>ABS_FOR_PRINTING\<close>: the negation is in \<open>long long\<close>, and overflows for its least value.
\<close>

definition ABS_FOR_PRINTING :: "int \<Rightarrow> u64 option" where
  "ABS_FOR_PRINTING x =
     (if 0 < x then Some (word_of_int x)
      else if x = - (2 ^ 63) then None else Some (word_of_int (- x)))"

definition is_integer_specifier :: "char \<Rightarrow> bool" where
  "is_integer_specifier c \<longleftrightarrow> c \<in> set ''diuxXob''"

definition specifier_base :: "char \<Rightarrow> u8" where
  "specifier_base c =
     (if c = CHR ''x'' \<or> c = CHR ''X'' then BASE_HEX
      else if c = CHR ''o'' then BASE_OCTAL
      else if c = CHR ''b'' then BASE_BINARY
      else BASE_DECIMAL)"

definition integer_flags :: "char \<Rightarrow> u32 \<Rightarrow> u32" where
  "integer_flags c flags =
     (let flags = (if c = CHR ''d'' \<or> c = CHR ''i'' then flags OR FLAGS_SIGNED else flags);
          flags = (if specifier_base c = BASE_DECIMAL then clear_flag flags FLAGS_HASH else flags);
          flags = (if c = CHR ''X'' then flags OR FLAGS_UPPERCASE else flags);
          flags = (if has_flag flags FLAGS_PRECISION then clear_flag flags FLAGS_ZEROPAD else flags)
      in if has_flag flags FLAGS_SIGNED then flags
         else clear_flag flags (FLAGS_PLUS OR FLAGS_SPACE))"

text \<open>The value of the argument of an integer conversion: magnitude and sign.\<close>

definition integer_argument ::
  "u32 \<Rightarrow> va_slot list \<Rightarrow> (u64 \<times> bool \<times> va_slot list) option" where
  "integer_argument flags args =
     (case va_word args of
        None \<Rightarrow> None
      | Some (w, args) \<Rightarrow>
          if has_flag flags FLAGS_SIGNED then
            (let v = (if has_flag flags FLAGS_LONG_LONG \<or> has_flag flags FLAGS_LONG then sint w
                      else if has_flag flags FLAGS_CHAR then sint (ucast w :: u8)
                      else if has_flag flags FLAGS_SHORT then sint (ucast w :: 16 word)
                      else sint (ucast w :: u32))
             in map_option (\<lambda>a. (a, v < 0, args)) (ABS_FOR_PRINTING v))
          else
            (let v = (if has_flag flags FLAGS_LONG_LONG \<or> has_flag flags FLAGS_LONG then w
                      else if has_flag flags FLAGS_CHAR then ucast (ucast w :: u8)
                      else if has_flag flags FLAGS_SHORT then ucast (ucast w :: 16 word)
                      else ucast (ucast w :: u32))
             in Some (v, False, args)))"

text \<open>
  The loops \<open>while (l++ < width) putchar_via_gadget(output, ' ')\<close> of \<open>%c\<close> and
  \<open>%s\<close> print what \<open>pad_from l\<close> prints; only one of the two is run.
\<close>

definition print_char :: "output_gadget \<Rightarrow> char \<Rightarrow> u32 \<Rightarrow> u32 \<Rightarrow> output_gadget option" where
  "print_char output c width flags =
     do {
       output \<leftarrow> (if \<not> has_flag flags FLAGS_LEFT then pad_from 1 width output else Some output);
       output \<leftarrow> putchar_via_gadget output c;
       (if has_flag flags FLAGS_LEFT then pad_from 1 width output else Some output)
     }"

fun string_out :: "string \<Rightarrow> u32 \<Rightarrow> u32 \<Rightarrow> output_gadget \<Rightarrow> output_gadget option" where
  "string_out [] flags precision output = Some output"
| "string_out (c # p) flags precision output =
     (if \<not> has_flag flags FLAGS_PRECISION \<or> precision \<noteq> 0 then
        (case putchar_via_gadget output c of None \<Rightarrow> None
         | Some output \<Rightarrow> string_out p flags (precision - 1) output)
      else Some output)"

definition print_string :: "output_gadget \<Rightarrow> string option \<Rightarrow> u32 \<Rightarrow> u32 \<Rightarrow> u32 \<Rightarrow> output_gadget option" where
  "print_string output p precision width flags =
     (case p of
        None \<Rightarrow> out_rev output '')llun('' 6 width flags
      | Some p \<Rightarrow>
          (let l = strnlen_s p (if precision \<noteq> 0 then precision else PRINTF_MAX_POSSIBLE_BUFFER_SIZE);
               l = (if has_flag flags FLAGS_PRECISION then (if l < precision then l else precision) else l)
           in do {
             output \<leftarrow> (if \<not> has_flag flags FLAGS_LEFT then pad_from l width output else Some output);
             output \<leftarrow> string_out p flags precision output;
             (if has_flag flags FLAGS_LEFT then pad_from l width output else Some output)
           }))"

definition print_pointer :: "output_gadget \<Rightarrow> u64 \<Rightarrow> u32 \<Rightarrow> u32 \<Rightarrow> output_gadget option" where
  "print_pointer output val precision flags =
     (let width = 18; flags = flags OR FLAGS_ZEROPAD OR FLAGS_POINTER
      in if val = 0 then out_rev output '')lin('' 5 width flags
         else print_integer output val False BASE_HEX precision width flags)"

text \<open>The value that \<open>%n\<close> stores, in the type its length modifier names.\<close>

definition writeback_value :: "u32 \<Rightarrow> u32 \<Rightarrow> int" where
  "writeback_value flags pos =
     (if has_flag flags FLAGS_CHAR then sint (ucast pos :: u8)
      else if has_flag flags FLAGS_SHORT then sint (ucast pos :: 16 word)
      else if has_flag flags FLAGS_LONG then uint pos
      else if has_flag flags FLAGS_LONG_LONG then uint pos
      else sint pos)"

record printf_state =
  ps_out :: output_gadget
  ps_args :: "va_slot list"
  ps_stores :: "(nat \<times> int) list"

definition eval_integer :: "char \<Rightarrow> conversion \<Rightarrow> printf_state \<Rightarrow> printf_state option" where
  "eval_integer c cv st =
     (let flags = integer_flags c (cv_flags cv) in do {
        (v, negative, args) \<leftarrow> integer_argument flags (ps_args st);
        output \<leftarrow> print_integer (ps_out st) v negative (specifier_base c)
                   (cv_precision cv) (cv_width cv) flags;
        Some (st\<lparr>ps_out := output, ps_args := args\<rparr>)
      })"

definition float_flags :: "char \<Rightarrow> u32 \<Rightarrow> u32" where
  "float_flags c flags =
     (let flags = (if c = CHR ''g'' \<or> c = CHR ''G'' then flags OR FLAGS_ADAPT_EXP else flags)
      in if c = CHR ''F'' \<or> c = CHR ''E'' \<or> c = CHR ''G'' then flags OR FLAGS_UPPERCASE else flags)"

definition eval_float :: "char \<Rightarrow> conversion \<Rightarrow> printf_state \<Rightarrow> printf_state option" where
  "eval_float c cv st =
     do {
       (x, args) \<leftarrow> va_double (ps_args st);
       output \<leftarrow> print_floating_point (ps_out st) x (cv_precision cv) (cv_width cv)
                  (float_flags c (cv_flags cv)) (c \<noteq> CHR ''f'' \<and> c \<noteq> CHR ''F'');
       Some (st\<lparr>ps_out := output, ps_args := args\<rparr>)
     }"

definition eval_char :: "conversion \<Rightarrow> printf_state \<Rightarrow> printf_state option" where
  "eval_char cv st =
     do {
       (w, args) \<leftarrow> va_int (ps_args st);
       output \<leftarrow> print_char (ps_out st) (char_of (unat (ucast w :: u8))) (cv_width cv) (cv_flags cv);
       Some (st\<lparr>ps_out := output, ps_args := args\<rparr>)
     }"

definition eval_string :: "conversion \<Rightarrow> printf_state \<Rightarrow> printf_state option" where
  "eval_string cv st =
     do {
       (p, args) \<leftarrow> va_str (ps_args st);
       output \<leftarrow> print_string (ps_out st) p (cv_precision cv) (cv_width cv) (cv_flags cv);
       Some (st\<lparr>ps_out := output, ps_args := args\<rparr>)
     }"

definition eval_pointer :: "conversion \<Rightarrow> printf_state \<Rightarrow> printf_state option" where
  "eval_pointer cv st =
     do {
       (v, args) \<leftarrow> va_word (ps_args st);
       output \<leftarrow> print_pointer (ps_out st) v (cv_precision cv) (cv_flags cv);
       Some (st\<lparr>ps_out := output, ps_args := args\<rparr>)
     }"

definition eval_writeback :: "conversion \<Rightarrow> printf_state \<Rightarrow> printf_state option" where
  "eval_writeback cv st =
     do {
       (p, args) \<leftarrow> va_out (ps_args st);
       Some (st\<lparr>ps_args := args,
                ps_stores := ps_stores st @ [(p, writeback_value (cv_flags cv) (og_pos (ps_out st)))]\<rparr>)
     }"

definition is_float_specifier :: "char \<Rightarrow> bool" where
  "is_float_specifier c \<longleftrightarrow> c \<in> set ''fFeEgG''"

text \<open>The \<open>switch\<close> on the specifier; \<open>%%\<close> and any other character print it.\<close>

definition eval_specifier :: "char \<Rightarrow> conversion \<Rightarrow> printf_state \<Rightarrow> printf_state option" where
  "eval_specifier c cv st =
     (if is_integer_specifier c then eval_integer c cv st
      else if is_float_specifier c then eval_float c cv st
      else if c = CHR ''c'' then eval_char cv st
      else if c = CHR ''s'' then eval_string cv st
      else if c = CHR ''p'' then eval_pointer cv st
      else if c = CHR ''n'' then eval_writeback cv st
      else map_option (\<lambda>output. st\<lparr>ps_out := output\<rparr>) (putchar_via_gadget (ps_out st) c))"

section \<open>The loop\<close>

datatype step_result = Continue printf_state string | Finished printf_state | Undef

text \<open>
  One iteration of the loop, on a format that is not at its end. The last step of a
  conversion is \<open>format++\<close>: when the specifier is the terminating NUL, it moves past the end
  of the string, and the loop goes on to read there.
\<close>

definition format_step :: "printf_state \<Rightarrow> string \<Rightarrow> step_result" where
  "format_step st format =
     (if peek format \<noteq> CHR ''%'' then
        (case putchar_via_gadget (ps_out st) (peek format) of
           None \<Rightarrow> Undef
         | Some output \<Rightarrow> Continue (st\<lparr>ps_out := output\<rparr>) (tl format))
      else
        (case parse_conversion format (ps_args st) of
           Undefined \<Rightarrow> Undef
         | Return \<Rightarrow> Finished st
         | Go (cv, format, args) \<Rightarrow>
             (case eval_specifier (peek format) cv (st\<lparr>ps_args := args\<rparr>) of
                None \<Rightarrow> Undef
              | Some st \<Rightarrow>
                  (case format of [] \<Rightarrow> Undef | c # format \<Rightarrow> Continue st format))))"


text \<open>Every stage of the parser returns a suffix of the format it is given.\<close>

lemma atou_loop_suffix: "atou_loop i s = (v, rest) \<Longrightarrow> length rest \<le> length s"
  by (induction s arbitrary: i) (auto split: if_splits intro: le_SucI)

lemma parse_flags_suffix: "parse_flags_loop flags s = (f, rest) \<Longrightarrow> length rest \<le> length s"
  by (induction s arbitrary: flags) (auto split: if_splits intro: le_SucI)

lemma andthen_Go [simp]: "andthen p f = Go y \<longleftrightarrow> (\<exists>x. p = Go x \<and> f x = Go y)"
  by (cases p) auto

lemma ADVANCE_Go [simp]:
  "ADVANCE_IN_FORMAT_STRING s = Go rest \<longleftrightarrow> (\<exists>c. s = c # rest) \<and> rest \<noteq> []"
  by (auto simp: ADVANCE_IN_FORMAT_STRING_def split: list.splits if_splits)

lemma parse_width_suffix:
  "parse_width flags s args = Go (f, w, rest, args') \<Longrightarrow> length rest \<le> length s"
  by (auto simp: parse_width_def atou_def Let_def split: if_splits option.splits prod.splits
      dest: atou_loop_suffix)

lemma parse_precision_suffix:
  "parse_precision flags s args = Go (f, w, rest, args') \<Longrightarrow> length rest \<le> length s"
  by (auto simp: parse_precision_def atou_def Let_def split: if_splits option.splits prod.splits
      dest: atou_loop_suffix)

lemma parse_length_suffix: "parse_length flags s = Go (f, rest) \<Longrightarrow> length rest \<le> length s"
  by (auto simp: parse_length_def Let_def split: if_splits)

lemma parse_conversion_suffix:
  assumes "parse_conversion s args = Go (cv, rest, args')"
  shows "length rest < length s"
proof -
  obtain c s1 where s: "s = c # s1" "s1 \<noteq> []"
    using assms by (auto simp: parse_conversion_def)
  obtain f s2 where f: "parse_flags s1 = (f, s2)" by (cases "parse_flags s1")
  have "length rest \<le> length s2"
    using assms f s unfolding parse_conversion_def
    by (auto dest!: parse_width_suffix parse_precision_suffix parse_length_suffix)
  also have "length s2 \<le> length s1"
    using f unfolding parse_flags_def by (rule parse_flags_suffix)
  finally show ?thesis using s by simp
qed

lemma format_step_decreases:
  "format_step st s = Continue st' rest \<Longrightarrow> s \<noteq> [] \<Longrightarrow> length rest < length s"
  by (auto simp: format_step_def split: if_splits option.splits parsed.splits list.splits
      dest!: parse_conversion_suffix)

function format_string_loop :: "printf_state \<Rightarrow> string \<Rightarrow> printf_state option" where
  "format_string_loop st [] = Some st"
| "format_string_loop st (c # format) =
     (case format_step st (c # format) of
        Continue st' format' \<Rightarrow> format_string_loop st' format'
      | Finished st' \<Rightarrow> Some st'
      | Undef \<Rightarrow> None)"
  by pat_completeness auto
termination
  by (relation "measure (\<lambda>(st, format). length format)") (auto dest: format_step_decreases)

section \<open>The functions of the library\<close>

text \<open>
  A call returns an \<open>int\<close>, leaves its gadget (the buffer written, the function called), and
  performs the stores of \<open>%n\<close>. The names of the source end in an underscore
  (\<open>snprintf_\<close> is \<open>lib_snprintf\<close> here).
\<close>

type_synonym printf_result = "(int \<times> output_gadget \<times> (nat \<times> int) list) option"

definition vsnprintf_impl :: "output_gadget \<Rightarrow> string \<Rightarrow> va_slot list \<Rightarrow> printf_result" where
  "vsnprintf_impl output format args =
     do {
       st \<leftarrow> format_string_loop \<lparr>ps_out = output, ps_args = args, ps_stores = []\<rparr> format;
       output \<leftarrow> append_termination_with_gadget (ps_out st);
       Some (sint (og_pos output), output, ps_stores st)
     }"

definition lib_vprintf :: "string \<Rightarrow> va_slot list \<Rightarrow> printf_result" where
  "lib_vprintf format arg = vsnprintf_impl extern_putchar_gadget format arg"

definition lib_vsnprintf :: "char list option \<Rightarrow> u64 \<Rightarrow> string \<Rightarrow> va_slot list \<Rightarrow> printf_result" where
  "lib_vsnprintf s n format arg = vsnprintf_impl (buffer_gadget s n) format arg"

definition lib_vsprintf :: "char list option \<Rightarrow> string \<Rightarrow> va_slot list \<Rightarrow> printf_result" where
  "lib_vsprintf s format arg =
     lib_vsnprintf s (ucast PRINTF_MAX_POSSIBLE_BUFFER_SIZE) format arg"

definition vfctprintf :: "out_function \<Rightarrow> u64 \<Rightarrow> string \<Rightarrow> va_slot list \<Rightarrow> printf_result" where
  "vfctprintf out extra_arg format arg = vsnprintf_impl (function_gadget out extra_arg) format arg"

definition lib_printf :: "string \<Rightarrow> va_slot list \<Rightarrow> printf_result" where
  "lib_printf format args = lib_vprintf format args"

definition lib_sprintf :: "char list option \<Rightarrow> string \<Rightarrow> va_slot list \<Rightarrow> printf_result" where
  "lib_sprintf s format args = lib_vsprintf s format args"

definition lib_snprintf :: "char list option \<Rightarrow> u64 \<Rightarrow> string \<Rightarrow> va_slot list \<Rightarrow> printf_result" where
  "lib_snprintf s n format args = lib_vsnprintf s n format args"

definition fctprintf :: "out_function \<Rightarrow> u64 \<Rightarrow> string \<Rightarrow> va_slot list \<Rightarrow> printf_result" where
  "fctprintf out extra_arg format args = vfctprintf out extra_arg format args"

section \<open>The string a format denotes\<close>

text \<open>
  The specification of the library: a format with its arguments denotes a string, independent
  of where it is printed. \<open>specifier_string\<close> gives the string of one conversion and the
  arguments left; \<open>pos\<close> is the number of characters printed before, which only \<open>%n\<close> sees.
\<close>

definition char_string :: "char \<Rightarrow> u32 \<Rightarrow> u32 \<Rightarrow> string" where
  "char_string c width flags =
     (let pad = replicate (unat width - 1) CHR '' '' in
      if has_flag flags FLAGS_LEFT then c # pad else pad @ [c])"

definition string_field :: "string option \<Rightarrow> u32 \<Rightarrow> u32 \<Rightarrow> u32 \<Rightarrow> string" where
  "string_field p precision width flags =
     (case p of
        None \<Rightarrow> padded width flags ''(null)''
      | Some s \<Rightarrow>
          (let t = (if has_flag flags FLAGS_PRECISION then take (unat precision) s else s);
               l = (if has_flag flags FLAGS_PRECISION \<or> precision \<noteq> 0
                    then min (length s) (unat precision)
                    else min (length s) (unat PRINTF_MAX_POSSIBLE_BUFFER_SIZE));
               pad = replicate (unat width - l) CHR '' ''
           in if has_flag flags FLAGS_LEFT then t @ pad else pad @ t))"

definition pointer_string :: "u64 \<Rightarrow> u32 \<Rightarrow> u32 \<Rightarrow> string" where
  "pointer_string v precision flags =
     (let flags = flags OR FLAGS_ZEROPAD OR FLAGS_POINTER
      in if v = 0 then padded 18 flags ''(nil)''
         else integer_string v False BASE_HEX precision 18 flags)"

type_synonym denoted = "(string \<times> va_slot list \<times> (nat \<times> int) list) option"

definition integer_denoted :: "char \<Rightarrow> conversion \<Rightarrow> va_slot list \<Rightarrow> denoted" where
  "integer_denoted c cv args =
     map_option (\<lambda>(v, negative, args).
         (integer_string v negative (specifier_base c) (cv_precision cv) (cv_width cv)
            (integer_flags c (cv_flags cv)), args, []))
       (integer_argument (integer_flags c (cv_flags cv)) args)"

definition float_denoted :: "char \<Rightarrow> conversion \<Rightarrow> va_slot list \<Rightarrow> denoted" where
  "float_denoted c cv args =
     (case va_double args of
        None \<Rightarrow> None
      | Some (x, args) \<Rightarrow>
          map_option (\<lambda>s. (s, args, []))
            (float_string x (cv_precision cv) (cv_width cv) (float_flags c (cv_flags cv))
              (c \<noteq> CHR ''f'' \<and> c \<noteq> CHR ''F'')))"

definition specifier_string :: "char \<Rightarrow> conversion \<Rightarrow> u32 \<Rightarrow> va_slot list \<Rightarrow> denoted" where
  "specifier_string c cv pos args =
     (if is_integer_specifier c then integer_denoted c cv args
      else if is_float_specifier c then float_denoted c cv args
      else if c = CHR ''c'' then
        map_option (\<lambda>(w, args).
          (char_string (char_of (unat (ucast w :: u8))) (cv_width cv) (cv_flags cv), args, []))
          (va_int args)
      else if c = CHR ''s'' then
        map_option (\<lambda>(p, args).
          (string_field p (cv_precision cv) (cv_width cv) (cv_flags cv), args, [])) (va_str args)
      else if c = CHR ''p'' then
        map_option (\<lambda>(v, args). (pointer_string v (cv_precision cv) (cv_flags cv), args, []))
          (va_word args)
      else if c = CHR ''n'' then
        map_option (\<lambda>(p, args). ([], args, [(p, writeback_value (cv_flags cv) pos)])) (va_out args)
      else Some ([c], args, []))"

text \<open>A state after printing what is denoted.\<close>

definition emitted :: "printf_state \<Rightarrow> denoted \<Rightarrow> printf_state option" where
  "emitted st d =
     (case d of None \<Rightarrow> None
      | Some (s, args, stores) \<Rightarrow>
          map_option (\<lambda>g. st\<lparr>ps_out := g, ps_args := args, ps_stores := ps_stores st @ stores\<rparr>)
            (emit s (ps_out st)))"

function render ::
  "u32 \<Rightarrow> string \<Rightarrow> va_slot list \<Rightarrow> (string \<times> va_slot list \<times> (nat \<times> int) list) option" where
  "render pos [] args = Some ([], args, [])"
| "render pos (c # format) args =
     (if c \<noteq> CHR ''%'' then
        map_option (\<lambda>(s, args, stores). (c # s, args, stores)) (render (pos + 1) format args)
      else
        (case parse_conversion (c # format) args of
           Undefined \<Rightarrow> None
         | Return \<Rightarrow> Some ([], args, [])
         | Go (cv, rest, args) \<Rightarrow>
             (case specifier_string (peek rest) cv pos args of
                None \<Rightarrow> None
              | Some (s, args, stores) \<Rightarrow>
                  (case rest of [] \<Rightarrow> None
                   | c' # rest \<Rightarrow>
                       map_option (\<lambda>(s', args, stores'). (s @ s', args, stores @ stores'))
                         (render (pos + of_nat (length s)) rest args)))))"
  by pat_completeness auto
termination
  by (relation "measure (\<lambda>(pos, format, args). length format)") (auto dest!: parse_conversion_suffix)

section \<open>The library prints the denoted string\<close>

lemma print_char_emit: "print_char output c width flags = emit (char_string c width flags) output"
  by (simp add: print_char_def char_string_def pad_from_emit emit_append Let_def
      split: option.splits)

lemma string_out_emit:
  "string_out p flags precision g =
     emit (if has_flag flags FLAGS_PRECISION then take (unat precision) p else p) g"
proof (induction p arbitrary: precision g)
  case (Cons c p)
  show ?case
  proof (cases "has_flag flags FLAGS_PRECISION \<and> precision = 0")
    case False
    then have "has_flag flags FLAGS_PRECISION \<Longrightarrow>
        take (unat precision) (c # p) = c # take (unat (precision - 1)) p"
      by (cases "unat precision") (auto simp: unat_minus_one unat_eq_0)
    with False Cons show ?thesis by (auto split: option.split)
  qed (simp add: Cons)
qed simp

lemma string_field_length:
  "unat (if has_flag flags FLAGS_PRECISION
         then (if strnlen_s p m < precision then strnlen_s p m else precision)
         else strnlen_s p m) =
     (if has_flag flags FLAGS_PRECISION \<or> precision \<noteq> 0
      then min (length p) (unat precision)
      else min (length p) (unat PRINTF_MAX_POSSIBLE_BUFFER_SIZE))"
  if "m = (if precision \<noteq> 0 then precision else PRINTF_MAX_POSSIBLE_BUFFER_SIZE)"
  using that by (cases "precision = 0") (auto simp: strnlen_s_eq word_less_nat_alt)

lemma print_string_emit:
  "print_string output p precision width flags = emit (string_field p precision width flags) output"
proof (cases p)
  case None
  then show ?thesis by (simp add: print_string_def string_field_def out_rev_const)
next
  case (Some s)
  then show ?thesis
    using string_field_length [OF refl, of flags s precision]
    by (simp add: print_string_def string_field_def pad_from_emit string_out_emit emit_append Let_def
        split: option.split)
qed

lemma print_pointer_emit:
  "print_pointer output v precision flags = emit (pointer_string v precision flags) output"
  by (simp add: print_pointer_def pointer_string_def out_rev_const print_integer_emit Let_def)

lemma unat_specifier_base: "2 \<le> unat (specifier_base c)"
  by (simp add: specifier_base_def)

lemma bind_Some_map: "Option.bind x (\<lambda>g. Some (f g)) = map_option f x"
  by (cases x) auto

lemma eval_integer_emitted:
  "eval_integer c cv st = emitted st (integer_denoted c cv (ps_args st))"
  by (simp add: eval_integer_def integer_denoted_def emitted_def Let_def print_integer_emit
      unat_specifier_base bind_Some_map split: option.split prod.split)

lemma eval_float_emitted: "eval_float c cv st = emitted st (float_denoted c cv (ps_args st))"
proof (cases "va_double (ps_args st)")
  case (Some a)
  obtain x args where a: "a = (x, args)" by (cases a)
  show ?thesis
    by (cases "float_string x (cv_precision cv) (cv_width cv) (float_flags c (cv_flags cv))
          (c \<noteq> CHR ''f'' \<and> c \<noteq> CHR ''F'')")
      (simp_all add: eval_float_def float_denoted_def emitted_def Some a print_floating_point_emit
        bind_Some_map)
qed (simp add: eval_float_def float_denoted_def emitted_def)

lemma eval_char_emitted:
  "eval_char cv st = emitted st (map_option (\<lambda>(w, args).
     (char_string (char_of (unat (ucast w :: u8))) (cv_width cv) (cv_flags cv), args, []))
     (va_int (ps_args st)))"
  by (cases "va_int (ps_args st)")
    (auto simp: eval_char_def emitted_def print_char_emit bind_Some_map)

lemma eval_string_emitted:
  "eval_string cv st = emitted st (map_option (\<lambda>(p, args).
     (string_field p (cv_precision cv) (cv_width cv) (cv_flags cv), args, []))
     (va_str (ps_args st)))"
  by (cases "va_str (ps_args st)")
    (auto simp: eval_string_def emitted_def print_string_emit bind_Some_map)

lemma eval_pointer_emitted:
  "eval_pointer cv st = emitted st (map_option (\<lambda>(v, args).
     (pointer_string v (cv_precision cv) (cv_flags cv), args, [])) (va_word (ps_args st)))"
  by (cases "va_word (ps_args st)")
    (auto simp: eval_pointer_def emitted_def print_pointer_emit bind_Some_map)

lemma eval_writeback_emitted:
  "eval_writeback cv st = emitted st (map_option (\<lambda>(p, args).
     ([], args, [(p, writeback_value (cv_flags cv) (og_pos (ps_out st)))])) (va_out (ps_args st)))"
  by (cases "va_out (ps_args st)") (auto simp: eval_writeback_def emitted_def)

lemma eval_default_emitted:
  "map_option (\<lambda>output. st\<lparr>ps_out := output\<rparr>) (putchar_via_gadget (ps_out st) c) =
     emitted st (Some ([c], ps_args st, []))"
  by (simp add: emitted_def split: option.split)

lemmas eval_emitted =
  eval_integer_emitted eval_float_emitted eval_char_emitted eval_string_emitted
  eval_pointer_emitted eval_writeback_emitted eval_default_emitted

lemma eval_specifier_emitted:
  "eval_specifier c cv st = emitted st (specifier_string c cv (og_pos (ps_out st)) (ps_args st))"
  unfolding eval_specifier_def specifier_string_def eval_emitted by simp

lemma emitted_None [simp]: "emitted st None = None"
  by (simp add: emitted_def)

lemma format_string_loop_render:
  "format_string_loop st format = emitted st (render (og_pos (ps_out st)) format (ps_args st))"
proof (induction st format rule: format_string_loop.induct)
  case (1 st)
  then show ?case by (simp add: emitted_def)
next
  case (2 st c format)
  show ?case
  proof (cases "c = CHR ''%''")
    case False
    show ?thesis
    proof (cases "putchar_via_gadget (ps_out st) c")
      case None
      then show ?thesis using False
        by (simp add: format_step_def peek_def emitted_def split: option.split)
    next
      case (Some g)
      then have step: "format_step st (c # format) = Continue (st\<lparr>ps_out := g\<rparr>) format"
        using False by (simp add: format_step_def peek_def)
      show ?thesis
        using 2(1) [OF step] Some False step putchar_pos [OF Some]
        by (auto simp: emitted_def split: option.split)
    qed
  next
    case True
    show ?thesis
    proof (cases "parse_conversion (c # format) (ps_args st)")
      case Return
      then show ?thesis using True by (simp add: format_step_def peek_def emitted_def)
    next
      case Undefined
      then show ?thesis using True by (simp add: format_step_def peek_def)
    next
      case (Go x)
      obtain cv rest args where x: "x = (cv, rest, args)" by (cases x)
      let ?st = "st\<lparr>ps_args := args\<rparr>"
      let ?d = "specifier_string (peek rest) cv (og_pos (ps_out st)) args"
      have ev: "eval_specifier (peek rest) cv ?st = emitted ?st ?d"
        by (simp add: eval_specifier_emitted)
      show ?thesis
      proof (cases "emitted ?st ?d")
        case None
        then have "?d = None \<or> (\<exists>s args' stores. ?d = Some (s, args', stores) \<and> emit s (ps_out st) = None)"
          by (auto simp: emitted_def split: option.splits)
        then show ?thesis
          using None True Go x ev
          by (auto simp: format_step_def peek_def emitted_def emit_append
              split: option.split list.split)
      next
        case (Some st')
        then obtain s args' stores g where d: "?d = Some (s, args', stores)"
          and g: "emit s (ps_out st) = Some g"
          and st': "st' = st\<lparr>ps_out := g, ps_args := args', ps_stores := ps_stores st @ stores\<rparr>"
          by (auto simp: emitted_def split: option.splits)
        show ?thesis
        proof (cases rest)
          case Nil
          then show ?thesis using True Go x ev Some d by (simp add: format_step_def peek_def)
        next
          case (Cons c' rest')
          then have step: "format_step st (c # format) = Continue st' rest'"
            using True Go x ev Some by (simp add: format_step_def peek_def)
          show ?thesis
            using 2(1) [OF step] step True Go x d g st' Cons emit_pos [OF g]
            by (auto simp: emitted_def emit_append split: option.split)
        qed
      qed
    qed
  qed
qed


section \<open>What a call returns and leaves\<close>

lemma unat_PRINTF_MAX [simp]: "unat PRINTF_MAX_POSSIBLE_BUFFER_SIZE = 2147483647"
  by (simp add: PRINTF_MAX_POSSIBLE_BUFFER_SIZE_def)

text \<open>The bytes of an array of which the first \<open>m\<close> may hold \<open>s\<close> and its terminator.\<close>

definition written :: "char list \<Rightarrow> nat \<Rightarrow> string \<Rightarrow> char list" where
  "written b m s =
     (if m = 0 then b else take (m - 1) s @ NUL # drop (Suc (min (m - 1) (length s))) b)"

lemma overlay_terminated:
  assumes "0 < m" "m \<le> length b"
  shows "(overlay b 0 m s)[(if length s < m then length s else m - 1) := NUL] = written b m s"
proof (cases "length s < m")
  case True
  then have "overlay b 0 m s = s @ b ! length s # drop (Suc (length s)) b"
    using assms by (simp add: overlay_def Cons_nth_drop_Suc)
  moreover have "min (m - 1) (length s) = length s" using True by simp
  ultimately show ?thesis using True assms by (simp add: written_def)
next
  case False
  then obtain k where m: "m = Suc k" "k < length s" using assms by (cases m) auto
  then have "overlay b 0 m s = take k s @ s ! k # drop m b"
    using assms by (simp add: overlay_def take_Suc_conv_app_nth)
  then show ?thesis using m by (simp add: written_def list_update_append)
qed

lemma unat_ucast_size: "unat n \<le> 2147483647 \<Longrightarrow> unat (ucast (n :: u64) :: u32) = unat n"
  by (simp add: unsigned_ucast_eq take_bit_nat_eq_self)

lemma buffer_gadget_Some:
  "buffer_gadget (Some b) n = discarding_gadget\<lparr>og_buffer := Some b,
     og_max_chars := of_nat (min (unat n) 2147483647)\<rparr>"
proof -
  have lt: "ucast PRINTF_MAX_POSSIBLE_BUFFER_SIZE < n \<longleftrightarrow> 2147483647 < unat n"
    by (simp add: word_less_nat_alt PRINTF_MAX_POSSIBLE_BUFFER_SIZE_def)
  have "ucast n = (of_nat (unat n) :: u32)" by simp
  then show ?thesis
    unfolding buffer_gadget_def Let_def lt
    by (simp add: min_def PRINTF_MAX_POSSIBLE_BUFFER_SIZE_def)
qed

lemma vsnprintf_impl_emit:
  assumes "render (og_pos g) format args = Some (s, args', stores)" "emit s g = Some g'"
  shows "vsnprintf_impl g format args =
    Option.bind (append_termination_with_gadget g') (\<lambda>g''. Some (sint (og_pos g''), g'', stores))"
  using assms by (simp add: vsnprintf_impl_def format_string_loop_render emitted_def)

lemma snprintf_buffer:
  assumes "render 0 format args = Some (s, args', stores)" "length s < 2 ^ 31" "unat n \<le> length b"
  shows "\<exists>g. lib_snprintf (Some b) n format args = Some (int (length s), g, stores) \<and>
     og_buffer g = Some (written b (min (unat n) 2147483647) s)"
proof -
  let ?m = "min (unat n) 2147483647"
  let ?g = "buffer_gadget (Some b) n"
  have m: "unat (og_max_chars ?g) = ?m"
    by (simp add: buffer_gadget_Some unat_of_nat_u32)
  have pos: "og_pos ?g = 0" "og_function ?g = None" "og_buffer ?g = Some b"
    by (simp_all add: buffer_gadget_Some discarding_gadget_def)
  have len: "unat (of_nat (length s) :: u32) = length s"
    using assms(2) by (intro unat_of_nat_u32) simp
  define g1 where "g1 = ?g\<lparr>og_pos := of_nat (length s), og_buffer := Some (overlay b 0 ?m s)\<rparr>"
  have emit: "emit s ?g = Some g1"
    using emit_buffer [of ?g b s] assms pos m by (simp add: g1_def)
  have g1: "og_function g1 = None" "og_buffer g1 = Some (overlay b 0 ?m s)"
    "og_max_chars g1 = og_max_chars ?g" "og_pos g1 = of_nat (length s)"
    by (simp_all add: g1_def pos)
  have "\<exists>g. append_termination_with_gadget g1 = Some g \<and> og_pos g = og_pos g1 \<and>
      og_buffer g = Some (written b ?m s)"
  proof (cases "unat n = 0")
    case True
    then have "og_max_chars g1 = 0" using m g1(3) by (simp add: unat_eq_0)
    then show ?thesis
      using True g1 by (simp add: append_termination_with_gadget_def written_def overlay_full)
  next
    case False
    then have m0: "0 < ?m" "?m \<le> length b" using assms(3) by auto
    have nz: "og_max_chars g1 \<noteq> 0" using m0(1) m g1(3) by (metis less_irrefl unat_0)
    have idx: "unat (if og_pos g1 < og_max_chars g1 then og_pos g1 else og_max_chars g1 - 1) =
        (if length s < ?m then length s else ?m - 1)"
      using m g1 len nz by (simp add: word_less_nat_alt unat_minus_one)
    have "(if length s < ?m then length s else ?m - 1) < length (overlay b 0 ?m s)"
      using m0 by (auto simp: length_overlay)
    then show ?thesis
      using g1 nz idx overlay_terminated [OF m0, of s]
      by (simp add: append_termination_with_gadget_def store_char_def Let_def)
  qed
  then show ?thesis
    using vsnprintf_impl_emit [of ?g format args s args' stores g1] assms(1,2) pos emit g1
    by (auto simp: lib_snprintf_def lib_vsnprintf_def sint_of_nat_u32)
qed

lemma snprintf_null:
  assumes "render 0 format args = Some (s, args', stores)" "length s < 2 ^ 31"
  shows "\<exists>g. lib_snprintf None n format args = Some (int (length s), g, stores) \<and>
     og_buffer g = None \<and> og_calls g = []"
proof -
  have g: "buffer_gadget None n = discarding_gadget" by (simp add: buffer_gadget_def Let_def)
  have "emit s discarding_gadget = Some (discarding_gadget\<lparr>og_pos := of_nat (length s)\<rparr>)"
    using emit_discard [of discarding_gadget s] by (simp add: discarding_gadget_def)
  then show ?thesis
    using vsnprintf_impl_emit [of discarding_gadget format args s args' stores] assms
    by (simp add: lib_snprintf_def lib_vsnprintf_def g append_termination_with_gadget_def
        discarding_gadget_def sint_of_nat_u32)
qed

lemma fctprintf_calls:
  assumes "render 0 format args = Some (s, args', stores)" "length s < 2 ^ 31"
  shows "\<exists>g. fctprintf out extra format args = Some (int (length s), g, stores) \<and>
     og_calls g = map (\<lambda>c. (c, extra)) s"
proof -
  let ?g = "function_gadget out extra"
  have g: "og_function ?g = Some out" "og_pos ?g = 0" "og_extra_arg ?g = extra" "og_calls ?g = []"
    "og_max_chars ?g = PRINTF_MAX_POSSIBLE_BUFFER_SIZE"
    by (simp_all add: function_gadget_def discarding_gadget_def)
  have "emit s ?g = Some (?g\<lparr>og_pos := of_nat (length s), og_calls := map (\<lambda>c. (c, extra)) s\<rparr>)"
    using emit_function [of ?g out s] g assms(2) by simp
  then show ?thesis
    using vsnprintf_impl_emit [of ?g format args s args' stores] assms g
    by (simp add: fctprintf_def vfctprintf_def append_termination_with_gadget_def sint_of_nat_u32)
qed


section \<open>The conversions that jmprof uses\<close>

named_theorems render_simps \<open>rendering of literal text and of single conversions\<close>

lemma render_text [render_simps]:
  "c \<noteq> CHR ''%'' \<Longrightarrow> render pos (c # format) args =
     map_option (\<lambda>(s, args, stores). (c # s, args, stores)) (render (pos + 1) format args)"
  by simp

lemma render_end [render_simps]: "render pos [] args = Some ([], args, [])"
  by simp

lemma parse_none:
  "c \<notin> set ''0-+ #'' \<Longrightarrow> parse_flags (c # format) = (0, c # format)"
  "\<not> is_digit c \<Longrightarrow> c \<noteq> CHR ''*'' \<Longrightarrow>
     parse_width flags (c # format) args = Go (flags, 0, c # format, args)"
  "c \<noteq> CHR ''.'' \<Longrightarrow> parse_precision flags (c # format) args = Go (flags, 0, c # format, args)"
  "c \<notin> set ''lhtjz'' \<Longrightarrow> parse_length flags (c # format) = Go (flags, c # format)"
  by (simp_all add: parse_flags_def parse_width_def parse_precision_def parse_length_def peek_def
      Let_def)

lemma not_digits [simp]:
  "\<not> is_digit CHR ''c''" "\<not> is_digit CHR ''s''" "\<not> is_digit CHR ''l''" "\<not> is_digit CHR ''j''"
  by (simp_all add: is_digit_def)

lemma parse_length_long:
  assumes "m \<in> set ''lj''" "c \<in> set ''ux''"
  shows "parse_length flags (m # c # format) = Go (flags OR FLAGS_LONG, c # format)"
proof -
  have "m = CHR ''l'' \<or> m = CHR ''j''" "c \<noteq> CHR ''l''" using assms by auto
  then show ?thesis
    by (auto simp: parse_length_def peek_def ADVANCE_IN_FORMAT_STRING_def)
qed

lemma parse_conversion_plain:
  assumes "c \<in> set ''cs''"
  shows "parse_conversion (CHR ''%'' # c # format) args =
     Go (\<lparr>cv_flags = 0, cv_width = 0, cv_precision = 0\<rparr>, c # format, args)"
proof -
  have "c \<notin> set ''0-+ #''" "\<not> is_digit c" "c \<noteq> CHR ''*''" "c \<noteq> CHR ''.''" "c \<notin> set ''lhtjz''"
    using assms by auto
  then show ?thesis
    by (simp add: parse_conversion_def ADVANCE_IN_FORMAT_STRING_def parse_none)
qed

lemma parse_conversion_long:
  assumes "m \<in> set ''lj''" "c \<in> set ''ux''"
  shows "parse_conversion (CHR ''%'' # m # c # format) args =
     Go (\<lparr>cv_flags = FLAGS_LONG, cv_width = 0, cv_precision = 0\<rparr>, c # format, args)"
proof -
  have "m \<notin> set ''0-+ #''" "\<not> is_digit m" "m \<noteq> CHR ''*''" "m \<noteq> CHR ''.''"
    using assms(1) by auto
  then show ?thesis
    using parse_length_long [OF assms, of 0]
    by (simp add: parse_conversion_def ADVANCE_IN_FORMAT_STRING_def parse_none)
qed

lemma render_c [render_simps]:
  "render pos (CHR ''%'' # CHR ''c'' # format) (Gp w # args) =
     map_option (\<lambda>(s, args, stores). (char_of (unat (ucast w :: u8)) # s, args, stores))
       (render (pos + 1) format args)"
proof -
  have "ucast (ucast w :: u32) = (ucast w :: u8)"
    by (simp add: bit_eq_iff bit_simps)
  then show ?thesis
    by (simp add: parse_conversion_plain specifier_string_def is_integer_specifier_def
        is_float_specifier_def peek_def va_int_def char_string_def)
qed

lemma render_s [render_simps]:
  assumes "length p \<le> 2147483647"
  shows "render pos (CHR ''%'' # CHR ''s'' # format) (Gp_str p # args) =
     map_option (\<lambda>(s, args, stores). (p @ s, args, stores))
       (render (pos + of_nat (length p)) format args)"
  using assms
  by (simp add: parse_conversion_plain specifier_string_def is_integer_specifier_def
      is_float_specifier_def peek_def string_field_def)

lemma integer_denoted_long:
  assumes "c \<in> set ''ux''"
  shows "integer_denoted c \<lparr>cv_flags = FLAGS_LONG, cv_width = 0, cv_precision = 0\<rparr> (Gp w # args) =
     Some (num_string False (unat (specifier_base c)) (unat w), args, [])"
proof -
  let ?f = "integer_flags c FLAGS_LONG"
  have base: "8 \<le> unat (specifier_base c)"
    using assms by (auto simp: specifier_base_def)
  have flags: "\<not> has_flag ?f FLAGS_HASH" "\<not> has_flag ?f FLAGS_POINTER" "\<not> has_flag ?f FLAGS_SIGNED"
    "has_flag ?f FLAGS_LONG" "\<not> has_flag ?f FLAGS_PRECISION" "\<not> has_flag ?f FLAGS_UPPERCASE"
    "\<not> has_flag ?f FLAGS_LEFT" "\<not> has_flag ?f FLAGS_ZEROPAD" "\<not> has_flag ?f FLAGS_PLUS"
    "\<not> has_flag ?f FLAGS_SPACE"
    using assms
    by (auto simp: integer_flags_def specifier_base_def clear_flag_def FLAGS_defs has_flag_def)
  have "integer_string w False (specifier_base c) 0 0 ?f =
      num_string False (unat (specifier_base c)) (unat w)"
    using flags base
    by (subst integer_string_iso) (auto simp: iso_integer_def iso_digits_def sign_string_def Let_def)
  then show ?thesis
    by (simp add: integer_denoted_def integer_argument_def flags)
qed

lemma render_long [render_simps]:
  assumes "m \<in> set ''lj''" "c \<in> set ''ux''"
  shows "render pos (CHR ''%'' # m # c # format) (Gp w # args) =
     map_option (\<lambda>(s, args, stores).
         (num_string False (unat (specifier_base c)) (unat w) @ s, args, stores))
       (render (pos + of_nat (length (num_string False (unat (specifier_base c)) (unat w))))
          format args)"
proof -
  have "is_integer_specifier c" using assms by (auto simp: is_integer_specifier_def)
  then show ?thesis
    using assms by (simp add: parse_conversion_long specifier_string_def peek_def integer_denoted_long
        option.case_eq_if map_option_case split: option.split)
qed

lemma specifier_base_ux [render_simps]:
  "unat (specifier_base CHR ''u'') = 10" "unat (specifier_base CHR ''x'') = 16"
  by (simp_all add: specifier_base_def)

declare render.simps [simp del]

section \<open>Properties\<close>

lemma dec_77: "dec_string 77 = ''77''" by code_simp
lemma dec_3: "dec_string 3 = ''3''" by code_simp
lemma hex_255: "hex_string 255 = ''ff''" by code_simp


text \<open>C38: \<open>snprintf\<close> into an array of at least \<open>n\<close> bytes returns the length of the whole
  string, and leaves its first \<open>n - 1\<close> bytes, a terminator, and the rest of the array as it was.\<close>

theorem snprintf_fills_buffer:
  assumes "render 0 format args = Some (s, args', stores)" "length s < 2 ^ 31" "unat n \<le> length b"
  shows "\<exists>g. lib_snprintf (Some b) n format args = Some (int (length s), g, stores) \<and>
     og_buffer g = Some (written b (min (unat n) 2147483647) s)"
  by (rule snprintf_buffer [OF assms])

theorem snprintf_fills_buffer_witness:
  "\<exists>g. lib_snprintf (Some (replicate 8 CHR ''-'')) 4 ''leak:%lu'' [Gp 77] =
       Some (int (length ''leak:77''), g, []) \<and>
     og_buffer g = Some (written (replicate 8 CHR ''-'') (min (unat (4 :: u64)) 2147483647) ''leak:77'') \<and>
     written (replicate 8 CHR ''-'') 4 ''leak:77'' = ''lea'' @ [NUL] @ ''----''"
proof -
  have r: "render 0 ''leak:%lu'' [Gp 77] = Some (''leak:77'', [], [])"
    using dec_77 by (simp add: render_simps)
  have "written (replicate 8 CHR ''-'') 4 ''leak:77'' = ''lea'' @ [NUL] @ ''----''"
    by (simp add: written_def numeral_eq_Suc)
  then show ?thesis
    using snprintf_fills_buffer [OF r, of 4 "replicate 8 CHR ''-''"] by simp
qed

text \<open>With a null buffer \<open>snprintf\<close> only counts: it returns the length of the string,
  whatever size it is given, and writes nothing.\<close>

theorem snprintf_null_counts:
  assumes "render 0 format args = Some (s, args', stores)" "length s < 2 ^ 31"
  shows "\<exists>g. lib_snprintf None n format args = Some (int (length s), g, stores) \<and>
     og_buffer g = None \<and> og_calls g = []"
  by (rule snprintf_null [OF assms])

text \<open>\<open>fctprintf\<close> calls the output function once for each character of the string, in
  order, with the extra argument; so \<open>printf_\<close> calls \<open>putchar_\<close>.\<close>

theorem fctprintf_calls_each:
  assumes "render 0 format args = Some (s, args', stores)" "length s < 2 ^ 31"
  shows "\<exists>g. fctprintf out extra format args = Some (int (length s), g, stores) \<and>
     og_calls g = map (\<lambda>c. (c, extra)) s"
  by (rule fctprintf_calls [OF assms])

text \<open>\<open>ABS_FOR_PRINTING\<close> gives the magnitude of every 64-bit integer except the least
  one, for which its negation overflows; its comment claims a defined result for all values.\<close>

theorem ABS_FOR_PRINTING_magnitude:
  assumes "- (2 ^ 63) \<le> x" "x < 2 ^ 63"
  shows "map_option unat (ABS_FOR_PRINTING x) = (if x = - (2 ^ 63) then None else Some (nat \<bar>x\<bar>))"
proof -
  have pos: "unat (word_of_int y :: u64) = nat y" if "0 \<le> y" "y < 2 ^ 63" for y
    using that unat_of_nat_u64 [of "nat y"] by simp
  then show ?thesis using assms pos [of "- x"] by (auto simp: ABS_FOR_PRINTING_def)
qed

theorem ABS_FOR_PRINTING_magnitude_witness:
  "map_option unat (ABS_FOR_PRINTING (- 5)) = Some 5"
  using ABS_FOR_PRINTING_magnitude [of "- 5"] by simp

lemma atou_all_digits: "list_all is_digit ds \<Longrightarrow> snd (atou ds) = []"
proof -
  have "list_all is_digit ds \<Longrightarrow> snd (atou_loop i ds) = []" for i
    by (induction ds arbitrary: i) simp_all
  then show "list_all is_digit ds \<Longrightarrow> snd (atou ds) = []" by (simp add: atou_def)
qed

lemma parse_flags_digits:
  "list_all is_digit ds \<Longrightarrow> list_all is_digit (snd (parse_flags_loop f ds))"
proof (induction ds arbitrary: f)
  case (Cons d ds)
  have "\<not> is_digit CHR ''-''" "\<not> is_digit CHR ''+''" "\<not> is_digit CHR '' ''" "\<not> is_digit CHR ''#''"
    by (simp_all add: is_digit_def)
  then show ?case using Cons by auto
qed simp

lemma parse_conversion_digits:
  assumes "list_all is_digit ds" "ds \<noteq> []"
  shows "\<exists>cv. parse_conversion (CHR ''%'' # ds) args = Go (cv, [], args)"
proof -
  obtain f rest where rest: "parse_flags ds = (f, rest)" by (cases "parse_flags ds")
  then have digits: "list_all is_digit rest"
    using parse_flags_digits [OF assms(1), of 0] by (simp add: parse_flags_def)
  have "\<exists>w. parse_width f rest args = Go (f, w, [], args)"
  proof (cases rest)
    case Nil
    then show ?thesis by (simp add: parse_width_def peek_def is_digit_def)
  next
    case (Cons d r)
    obtain w r' where a: "atou rest = (w, r')" by (cases "atou rest")
    then show ?thesis
      using Cons digits atou_all_digits [OF digits] by (simp add: parse_width_def peek_def)
  qed
  then obtain w where w: "parse_width f rest args = Go (f, w, [], args)" by blast
  have "parse_precision f [] args = Go (f, 0, [], args)" "parse_length f [] = Go (f, [])"
    by (simp_all add: parse_precision_def parse_length_def peek_def)
  then show ?thesis
    using assms(2) rest w
    by (simp add: parse_conversion_def ADVANCE_IN_FORMAT_STRING_def del: andthen_Go)
qed

text \<open>A format that ends in the digits of a width is not ended there: the terminator is
  taken for the specifier, and the loop reads on behind the string, although the comment on
  \<open>ADVANCE_IN_FORMAT_STRING\<close> promises that it stops.\<close>

theorem format_ending_in_width:
  assumes "list_all is_digit ds" "ds \<noteq> []"
  shows "format_string_loop st (CHR ''%'' # ds) = None"
proof -
  obtain cv where "parse_conversion (CHR ''%'' # ds) (ps_args st) = Go (cv, [], ps_args st)"
    using parse_conversion_digits [OF assms] by blast
  then have "format_step st (CHR ''%'' # ds) = Undef"
    by (simp add: format_step_def peek_def split: option.split)
  then show ?thesis by (subst format_string_loop.simps) simp
qed

theorem format_ending_in_width_witness:
  "format_string_loop \<lparr>ps_out = discarding_gadget, ps_args = [], ps_stores = []\<rparr> ''%05'' = None"
  by (rule format_ending_in_width) (simp_all add: is_digit_def)

end
