(* ===== verification/Scan.thy ===== *)
theory Scan
  imports Prelude
begin

text \<open>
  The input functions of the C library that jmprof calls: \<open>fgets\<close>, and \<open>sscanf\<close> with the
  directives of its formats. A call of \<open>sscanf\<close> gives the list of the values it assigns, in
  order, which ends at the first directive that does not match; its length is the number
  returned. The lemmas read back what the log writer prints.
\<close>

section \<open>Lines\<close>

definition c_string :: "char list \<Rightarrow> string" where
  "c_string bytes = takeWhile (\<lambda>c. c \<noteq> NUL) bytes"

text \<open>At most \<open>n\<close> characters, up to and including the first newline.\<close>

fun take_line :: "nat \<Rightarrow> string \<Rightarrow> string \<times> string" where
  "take_line 0 s = ([], s)"
| "take_line (Suc n) [] = ([], [])"
| "take_line (Suc n) (c # s) =
     (if c = CHR ''\<newline>'' then ([c], s)
      else (case take_line n s of (l, rest) \<Rightarrow> (c # l, rest)))"

definition fgets :: "nat \<Rightarrow> string \<Rightarrow> (string \<times> string) option" where
  "fgets bufsize stream = (if stream = [] then None else Some (take_line (bufsize - 1) stream))"

lemma take_line_append: "take_line n s = (l, rest) \<Longrightarrow> s = l @ rest"
  by (induction n s arbitrary: l rest rule: take_line.induct) (auto split: if_splits prod.splits)

lemma take_line_length: "take_line n s = (l, rest) \<Longrightarrow> length l \<le> n"
  by (induction n s arbitrary: l rest rule: take_line.induct) (auto split: if_splits prod.splits)

lemma fgets_Some:
  assumes "fgets bufsize s = Some (l, rest)" "2 \<le> bufsize"
  shows "s = l @ rest" "length l < bufsize" "l \<noteq> []" "length rest < length s"
proof -
  have l: "take_line (bufsize - 1) s = (l, rest)" "s \<noteq> []"
    using assms(1) by (auto simp: fgets_def split: if_splits)
  show s: "s = l @ rest" using take_line_append [OF l(1)] .
  show "length l < bufsize" using take_line_length [OF l(1)] assms(2) by simp
  show "l \<noteq> []"
    using l assms(2) by (cases "bufsize - 1"; cases s) (auto split: if_splits prod.splits)
  then show "length rest < length s" using s by simp
qed

lemma take_line_whole:
  "CHR ''\<newline>'' \<notin> set l \<Longrightarrow> length l < n \<Longrightarrow>
     take_line n (l @ CHR ''\<newline>'' # rest) = (l @ [CHR ''\<newline>''], rest)"
proof (induction l arbitrary: n)
  case Nil
  then show ?case by (cases n) auto
next
  case (Cons c l)
  then show ?case by (cases n) auto
qed

lemma fgets_line:
  "CHR ''\<newline>'' \<notin> set l \<Longrightarrow> length l + 1 < bufsize \<Longrightarrow>
     fgets bufsize (l @ CHR ''\<newline>'' # rest) = Some (l @ [CHR ''\<newline>''], rest)"
  by (simp add: fgets_def take_line_whole)

section \<open>Directives\<close>

definition is_space :: "char \<Rightarrow> bool" where
  "is_space c \<longleftrightarrow> of_char c = (32 :: nat) \<or> 9 \<le> (of_char c :: nat) \<and> (of_char c :: nat) \<le> 13"

definition skip_space :: "string \<Rightarrow> string" where
  "skip_space s = dropWhile is_space s"

datatype scanned = Num u64 | Str string | Chr char

datatype directive =
    Scan_Space           \<comment> \<open>white space in the format\<close>
  | Scan_Lit char        \<comment> \<open>any other character\<close>
  | Scan_Int             \<comment> \<open>\<open>%d\<close>\<close>
  | Scan_Ulong           \<comment> \<open>\<open>%lu\<close>\<close>
  | Scan_Ptr             \<comment> \<open>\<open>%p\<close>\<close>
  | Scan_Char            \<comment> \<open>\<open>%c\<close>\<close>
  | Scan_Str             \<comment> \<open>\<open>%s\<close>\<close>

text \<open>The subject sequence of \<open>strtol\<close>: white space, sign, prefix, digits.\<close>

definition take_sign :: "string \<Rightarrow> bool \<times> string" where
  "take_sign s =
     (case s of [] \<Rightarrow> (False, [])
      | c # r \<Rightarrow> if c = CHR ''-'' then (True, r) else if c = CHR ''+'' then (False, r) else (False, s))"

definition take_prefix :: "nat \<Rightarrow> string \<Rightarrow> string" where
  "take_prefix b s =
     (case s of c # d # r \<Rightarrow>
        if b = 16 \<and> c = CHR ''0'' \<and> (d = CHR ''x'' \<or> d = CHR ''X'') then r else s
      | _ \<Rightarrow> s)"

definition scan_number :: "nat \<Rightarrow> string \<Rightarrow> (bool \<times> nat \<times> string) option" where
  "scan_number b s =
     (let (neg, s) = take_sign (skip_space s); s = take_prefix b s
      in if stops b s then None
         else (case read_nat b 0 s of (v, rest) \<Rightarrow> Some (neg, v, rest)))"

text \<open>\<open>strtoul\<close> and \<open>strtol\<close> return the nearest value of the type when out of range.\<close>

definition to_ulong :: "bool \<Rightarrow> nat \<Rightarrow> u64" where
  "to_ulong neg v = (if 2 ^ 64 \<le> v then - 1 else if neg then - of_nat v else of_nat v)"

definition to_long :: "bool \<Rightarrow> nat \<Rightarrow> u64" where
  "to_long neg v =
     word_of_int (max (- (2 ^ 63)) (min (2 ^ 63 - 1) (if neg then - int v else int v)))"

fun scan_one :: "directive \<Rightarrow> string \<Rightarrow> (scanned option \<times> string) option" where
  "scan_one Scan_Space s = Some (None, skip_space s)"
| "scan_one (Scan_Lit c) s = (case s of d # r \<Rightarrow> if d = c then Some (None, r) else None | [] \<Rightarrow> None)"
| "scan_one Scan_Int s =
     map_option (\<lambda>(neg, v, r). (Some (Num (to_long neg v)), r)) (scan_number 10 s)"
| "scan_one Scan_Ulong s =
     map_option (\<lambda>(neg, v, r). (Some (Num (to_ulong neg v)), r)) (scan_number 10 s)"
| "scan_one Scan_Ptr s =
     map_option (\<lambda>(neg, v, r). (Some (Num (to_ulong neg v)), r)) (scan_number 16 s)"
| "scan_one Scan_Char s = (case s of c # r \<Rightarrow> Some (Some (Chr c), r) | [] \<Rightarrow> None)"
| "scan_one Scan_Str s =
     (let s = skip_space s; t = takeWhile (\<lambda>c. \<not> is_space c) s
      in if t = [] then None else Some (Some (Str t), drop (length t) s))"

fun sscanf :: "directive list \<Rightarrow> string \<Rightarrow> scanned list" where
  "sscanf [] s = []"
| "sscanf (d # ds) s =
     (case scan_one d s of None \<Rightarrow> []
      | Some (None, r) \<Rightarrow> sscanf ds r
      | Some (Some v, r) \<Rightarrow> v # sscanf ds r)"

definition strtol10 :: "string \<Rightarrow> u64" where
  "strtol10 s = (case scan_number 10 s of None \<Rightarrow> 0 | Some (neg, v, _) \<Rightarrow> to_long neg v)"

section \<open>Reading printed numbers\<close>

lemma digit_not_space: "digit_of_char c = Some d \<Longrightarrow> \<not> is_space c"
  by (auto simp: digit_of_char_def is_space_def Let_def split: if_splits)

lemma num_string_head:
  assumes "2 \<le> b" "b \<le> 16"
  obtains c s d where "num_string u b n = c # s" "digit_of_char c = Some d" "d < b"
proof -
  obtain c s where cs: "num_string u b n = c # s"
    using num_string_not_Nil [of u b n] by (cases "num_string u b n") auto
  then obtain d where "d < b" "c = digit_char u d"
    using num_string_digits [of b c u n] assms by auto
  with cs that assms show thesis by auto
qed

lemma take_prefix_dec [simp]: "take_prefix 10 s = s"
  by (simp add: take_prefix_def split: list.split)

lemma num_string_start:
  assumes "2 \<le> b" "b \<le> 16"
  shows "skip_space (num_string u b n @ r) = num_string u b n @ r"
    and "take_sign (num_string u b n @ r) = (False, num_string u b n @ r)"
    and "\<not> stops b (num_string u b n @ r)"
proof -
  obtain c s d where h: "num_string u b n = c # s" "digit_of_char c = Some d" "d < b"
    using num_string_head [OF assms] .
  show "skip_space (num_string u b n @ r) = num_string u b n @ r"
    using h digit_not_space by (simp add: skip_space_def)
  have "c \<noteq> CHR ''-''" "c \<noteq> CHR ''+''" using h(2) by (auto simp: digit_of_char_def)
  then show "take_sign (num_string u b n @ r) = (False, num_string u b n @ r)"
    using h by (simp add: take_sign_def)
  show "\<not> stops b (num_string u b n @ r)"
    using h by (simp add: stops_def)
qed

lemma scan_number_dec:
  assumes "stops 10 r"
  shows "scan_number 10 (dec_string n @ r) = Some (False, n, r)"
  using assms num_string_start [of 10 False n r] by (simp add: scan_number_def)

lemma scan_number_hex:
  assumes "stops 16 r"
  shows "scan_number 16 (CHR ''0'' # CHR ''x'' # hex_string n @ r) = Some (False, n, r)"
  using assms num_string_start(3) [of 16 False n r]
  by (simp add: scan_number_def take_prefix_def take_sign_def skip_space_def is_space_def)

lemma to_ulong_unat [simp]: "to_ulong False (unat (w :: u64)) = w"
  using unat_u64 [of w] by (simp add: to_ulong_def)

end
