(* ===== verification/Sokol_Time.thy ===== *)
theory Sokol_Time
  imports Double
begin

text \<open>
  The clock of \<open>src/external/sokol_time.h\<close> on Linux, which stamps every line of the log. The
  time read by \<open>clock_gettime\<close> is an argument, in seconds and nanoseconds.
\<close>

section \<open>The clock\<close>

record stm_state =
  stm_initialized :: u32
  stm_start :: u64

definition STM_MAGIC :: u32 where "STM_MAGIC = 0xABCDABCD"

definition clock_ns :: "u64 \<times> u64 \<Rightarrow> u64" where
  "clock_ns ts = fst ts * 1000000000 + snd ts"

definition stm_setup :: "u64 \<times> u64 \<Rightarrow> stm_state" where
  "stm_setup ts = \<lparr>stm_initialized = STM_MAGIC, stm_start = clock_ns ts\<rparr>"

definition stm_now :: "stm_state \<Rightarrow> u64 \<times> u64 \<Rightarrow> u64 outcome" where
  "stm_now stm ts =
     (if stm_initialized stm = STM_MAGIC then Ok (clock_ns ts - stm_start stm)
      else Fail Assertion_Failed)"

definition stm_diff :: "u64 \<Rightarrow> u64 \<Rightarrow> u64" where
  "stm_diff new_ticks old_ticks = (if old_ticks < new_ticks then new_ticks - old_ticks else 1)"

definition stm_since :: "stm_state \<Rightarrow> u64 \<times> u64 \<Rightarrow> u64 \<Rightarrow> u64 outcome" where
  "stm_since stm ts start_ticks = and_then (stm_now stm ts) (\<lambda>now. Ok (stm_diff now start_ticks))"

text \<open>\<open>stm_laptime\<close> returns the time since the last call, and the new \<open>*last_time\<close>.\<close>

definition stm_laptime :: "stm_state \<Rightarrow> u64 \<times> u64 \<Rightarrow> u64 option \<Rightarrow> (u64 \<times> u64) outcome" where
  "stm_laptime stm ts last_time =
     (case last_time of
        None \<Rightarrow> Fail Assertion_Failed
      | Some prev \<Rightarrow>
          and_then (stm_now stm ts) (\<lambda>now. Ok (if prev \<noteq> 0 then stm_diff now prev else 0, now)))"

definition stm_refresh_rates :: "(u64 \<times> u64) list" where
  "stm_refresh_rates =
     [(16666667, 1000000), (13888889, 250000), (13333333, 250000), (11764706, 250000),
      (11111111, 250000), (10000000, 500000), (8333333, 500000), (6944445, 500000),
      (4166667, 1000000), (0, 0)]"

fun find_refresh_rate :: "(u64 \<times> u64) list \<Rightarrow> u64 \<Rightarrow> u64" where
  "find_refresh_rate [] ticks = ticks"
| "find_refresh_rate ((ns, tol) # rates) ticks =
     (if ns = 0 then ticks
      else if ns - tol < ticks \<and> ticks < ns + tol then ns
      else find_refresh_rate rates ticks)"

definition stm_round_to_common_refresh_rate :: "u64 \<Rightarrow> u64" where
  "stm_round_to_common_refresh_rate ticks = find_refresh_rate stm_refresh_rates ticks"

definition stm_sec :: "u64 \<Rightarrow> double" where
  "stm_sec ticks = fdiv (f_of_int (uint ticks)) (f_lit 1 9)"

definition stm_ms :: "u64 \<Rightarrow> double" where
  "stm_ms ticks = fdiv (f_of_int (uint ticks)) (f_lit 1 6)"

definition stm_us :: "u64 \<Rightarrow> double" where
  "stm_us ticks = fdiv (f_of_int (uint ticks)) (f_lit 1 3)"

definition stm_ns :: "u64 \<Rightarrow> double" where
  "stm_ns ticks = f_of_int (uint ticks)"

section \<open>Lemmas\<close>

text \<open>Two entries of the table never both match, as its comment demands.\<close>

definition matches_rate :: "u64 \<Rightarrow> u64 \<times> u64 \<Rightarrow> bool" where
  "matches_rate ticks r \<longleftrightarrow> fst r - snd r < ticks \<and> ticks < fst r + snd r"

lemma refresh_rates_disjoint:
  assumes "r \<in> set (butlast stm_refresh_rates)" "r' \<in> set (butlast stm_refresh_rates)"
    "matches_rate ticks r" "matches_rate ticks r'"
  shows "r = r'"
  using assms
  by (auto simp: stm_refresh_rates_def matches_rate_def word_less_nat_alt)

text \<open>Time passes as on the monotonic clock, while it fits in 64 bits of nanoseconds.\<close>

lemma stm_now_elapsed:
  assumes "clock_ns t0 \<le> clock_ns t1"
  shows "stm_now (stm_setup t0) t1 = Ok (clock_ns t1 - clock_ns t0)"
    and "unat (clock_ns t1 - clock_ns t0) = unat (clock_ns t1) - unat (clock_ns t0)"
  using assms by (simp_all add: stm_now_def stm_setup_def unat_sub)

lemma find_refresh_rate_filter:
  assumes "\<forall>r \<in> set rates. fst r \<noteq> 0"
  shows "find_refresh_rate (rates @ [(0, 0)]) ticks =
    (case filter (matches_rate ticks) rates of [] \<Rightarrow> ticks | r # _ \<Rightarrow> fst r)"
  using assms by (induction rates) (auto simp: matches_rate_def)

lemma stm_refresh_rates_butlast:
  "stm_refresh_rates = butlast stm_refresh_rates @ [(0, 0)]"
  "\<forall>r \<in> set (butlast stm_refresh_rates). fst r \<noteq> 0"
  "distinct (butlast stm_refresh_rates)"
  by (simp_all add: stm_refresh_rates_def)

lemma at_most_one_rate: "length (filter (matches_rate ticks) (butlast stm_refresh_rates)) \<le> 1"
proof -
  define m where "m = filter (matches_rate ticks) (butlast stm_refresh_rates)"
  have dist: "distinct m" using stm_refresh_rates_butlast(3) by (simp add: m_def)
  have same: "r = r'" if "r \<in> set m" "r' \<in> set m" for r r'
    using that refresh_rates_disjoint [of r r' ticks] unfolding m_def set_filter by blast
  have "\<not> 2 \<le> length m"
  proof
    assume len: "2 \<le> length m"
    then have "m ! 0 \<in> set m" "m ! 1 \<in> set m" by (auto intro!: nth_mem)
    then have "m ! 0 = m ! 1" by (rule same)
    moreover have "0 < length m" "1 < length m" using len by linarith+
    ultimately have "(0 :: nat) = 1" using dist by (metis nth_eq_iff_index_eq)
    then show False by simp
  qed
  then show ?thesis by (simp add: m_def)
qed

lemma round_filter:
  "stm_round_to_common_refresh_rate ticks =
     (case filter (matches_rate ticks) (butlast stm_refresh_rates) of
        [] \<Rightarrow> ticks | r # _ \<Rightarrow> fst r)"
  unfolding stm_round_to_common_refresh_rate_def
  using find_refresh_rate_filter [OF stm_refresh_rates_butlast(2)]
  by (subst stm_refresh_rates_butlast(1)) (simp only:)

lemma round_rates:
  "list_all (\<lambda>r. stm_round_to_common_refresh_rate (fst r) = fst r) (butlast stm_refresh_rates)"
  by code_simp

lemma round_rate:
  "r \<in> set (butlast stm_refresh_rates) \<Longrightarrow> stm_round_to_common_refresh_rate (fst r) = fst r"
  using round_rates by (simp only: list_all_iff)

lemma round_idempotent:
  "stm_round_to_common_refresh_rate (stm_round_to_common_refresh_rate ticks) =
     stm_round_to_common_refresh_rate ticks"
proof (cases "filter (matches_rate ticks) (butlast stm_refresh_rates)")
  case Nil
  then show ?thesis by (simp add: round_filter)
next
  case (Cons r rs)
  then have "r \<in> set (butlast stm_refresh_rates)"
    using list.set_intros(1) [of r rs] unfolding Cons [symmetric] set_filter by blast
  then show ?thesis using Cons round_rate by (simp add: round_filter [of ticks])
qed

section \<open>Properties\<close>



text \<open>Rounding to a common refresh rate picks a rate of the table whose tolerance
  contains the value, if there is one, and there is at most one; rounding twice changes nothing more.\<close>

theorem round_to_refresh_rate:
  "stm_round_to_common_refresh_rate ticks =
     (case filter (matches_rate ticks) (butlast stm_refresh_rates) of [] \<Rightarrow> ticks | r # _ \<Rightarrow> fst r) \<and>
   length (filter (matches_rate ticks) (butlast stm_refresh_rates)) \<le> 1 \<and>
   stm_round_to_common_refresh_rate (stm_round_to_common_refresh_rate ticks) =
     stm_round_to_common_refresh_rate ticks"
  using round_filter at_most_one_rate round_idempotent by blast

end
