(* ===== verification/Tracker.thy ===== *)
theory Tracker
  imports Format Scan Sokol_Time
begin

text \<open>
  The log writer of \<open>src/tracker.c\<close>: its static variables and the two mutexes it takes, the
  writer of one log line, the list of the loaded modules, and the heap regions of the process.
  The operating system is the record \<open>world\<close>; the log is the list of the requests to \<open>write\<close>.
\<close>

section \<open>State\<close>

text \<open>
  What the process reads from outside. A reading that may change in the course of time takes the
  number of log lines written before it.
\<close>

record world =
  w_clock :: "nat \<Rightarrow> u64 \<times> u64"                 \<comment> \<open>\<open>clock_gettime\<close>\<close>
  w_stack :: "nat \<Rightarrow> char list"                 \<comment> \<open>what the local \<open>char buffer[2048]\<close> holds at first\<close>
  w_phdrs :: "nat \<Rightarrow> (u64 \<times> string option) list"  \<comment> \<open>the objects of \<open>dl_iterate_phdr\<close>\<close>
  w_readlink :: "string option"                 \<comment> \<open>the target of \<open>/proc/self/exe\<close>\<close>
  w_open :: int                                 \<comment> \<open>the descriptor that \<open>open\<close> returns, or \<open>-1\<close>\<close>
  w_close :: int
  w_maps :: "string option"                     \<comment> \<open>\<open>/proc/self/maps\<close>\<close>

record tracker =
  tk_init_once :: bool
  tk_deinit_once :: bool
  tk_dirty_mutex :: bool                        \<comment> \<open>held\<close>
  tk_fd_mutex :: bool
  tk_exec_path :: "char list"
  tk_is_dirty :: bool
  tk_fd :: int
  tk_stm :: stm_state
  tk_lines :: nat
  tk_writes :: "(int \<times> char list) list"

definition MAX_BACKTRACE_COUNT :: nat where "MAX_BACKTRACE_COUNT = 32"
definition MAX_BUFFER_SIZE :: nat where "MAX_BUFFER_SIZE = 2048"
definition MAX_REGION_COUNT :: nat where "MAX_REGION_COUNT = 128"
definition MMAP_ROW_SIZE :: nat where "MMAP_ROW_SIZE = 512"
definition PATH_MAX :: nat where "PATH_MAX = 4096"

datatype jmOpcode =
    JM_OPCODE_UNKNOWN
  | JM_OPCODE_ALLOC
  | JM_OPCODE_BACKTRACE
  | JM_OPCODE_FREE
  | JM_OPCODE_MODULE
  | JM_OPCODE_REGION
  | JM_OPCODE_UPDATE_MODULES
  | JM_OPCODE_EXEC_PATH

fun opcode_char :: "jmOpcode \<Rightarrow> char" where
  "opcode_char JM_OPCODE_UNKNOWN = NUL"
| "opcode_char JM_OPCODE_ALLOC = CHR ''a''"
| "opcode_char JM_OPCODE_BACKTRACE = CHR ''b''"
| "opcode_char JM_OPCODE_FREE = CHR ''f''"
| "opcode_char JM_OPCODE_MODULE = CHR ''m''"
| "opcode_char JM_OPCODE_REGION = CHR ''r''"
| "opcode_char JM_OPCODE_UPDATE_MODULES = CHR ''u''"
| "opcode_char JM_OPCODE_EXEC_PATH = CHR ''x''"

record jmRegion =
  start :: u64
  end_addr :: u64

definition Gp_char :: "char \<Rightarrow> va_slot" where
  "Gp_char c = Gp (of_nat (of_char c))"

definition initial_tracker :: "stm_state \<Rightarrow> tracker" where
  "initial_tracker stm =
     \<lparr>tk_init_once = False, tk_deinit_once = False, tk_dirty_mutex = False, tk_fd_mutex = False,
      tk_exec_path = replicate (PATH_MAX + 1) NUL, tk_is_dirty = True, tk_fd = -1, tk_stm = stm,
      tk_lines = 0, tk_writes = []\<rparr>"

section \<open>Log lines\<close>

definition write_fd :: "int \<Rightarrow> char list \<Rightarrow> int \<Rightarrow> tracker \<Rightarrow> tracker outcome" where
  "write_fd fd buffer len tk =
     (if 0 \<le> len \<and> nat len \<le> length buffer
      then Ok (tk\<lparr>tk_writes := tk_writes tk @ [(fd, take (nat len) buffer)]\<rparr>)
      else Fail Undefined_Behaviour)"

text \<open>Printing into the array \<open>buffer\<close> from index \<open>i\<close> on: the result and the array left.\<close>

definition snprintf_at ::
    "char list \<Rightarrow> nat \<Rightarrow> u64 \<Rightarrow> string \<Rightarrow> va_slot list \<Rightarrow> (int \<times> char list) outcome" where
  "snprintf_at buffer i n format args =
     defined (Option.bind (lib_snprintf (Some (drop i buffer)) n format args)
       (\<lambda>(len, g, _). map_option (\<lambda>b. (len, take i buffer @ b)) (og_buffer g)))"

definition timestamp_format :: string where
  "timestamp_format = ''%lu ''"

definition jm_tracker_fprintf :: "world \<Rightarrow> string \<Rightarrow> va_slot list \<Rightarrow> tracker \<Rightarrow> tracker outcome" where
  "jm_tracker_fprintf w format args tk =
     (if tk_fd_mutex tk then Fail Deadlock
      else
        and_then (stm_now (tk_stm tk) (w_clock w (tk_lines tk))) (\<lambda>timestamp.
        let buffer = w_stack w (tk_lines tk)
        in and_then (defined (lib_snprintf None 0 timestamp_format [Gp timestamp])) (\<lambda>(len, _, _).
           and_then (snprintf_at buffer 0 (of_int (len + 1)) timestamp_format [Gp timestamp])
             (\<lambda>(_, buffer).
           and_then (snprintf_at buffer (nat len) (of_int (int MAX_BUFFER_SIZE - (len + 1)))
                       format args) (\<lambda>(more, buffer).
           and_then (write_fd (tk_fd tk) buffer (len + more) tk) (\<lambda>tk.
           Ok (tk\<lparr>tk_lines := Suc (tk_lines tk)\<rparr>)))))))"

section \<open>Modules\<close>

definition jm_tracker_set_dirty :: "bool \<Rightarrow> tracker \<Rightarrow> tracker" where
  "jm_tracker_set_dirty val tk = (if tk_dirty_mutex tk then tk else tk\<lparr>tk_is_dirty := val\<rparr>)"

definition module_format :: string where
  "module_format = ''%c 0x%jx %s'' @ [CHR ''\<newline>'']"

definition dl_iterate_phdr_callback ::
    "world \<Rightarrow> u64 \<times> string option \<Rightarrow> tracker \<Rightarrow> tracker outcome" where
  "dl_iterate_phdr_callback w info tk =
     (let dlpi_name = (case snd info of
                         None \<Rightarrow> c_string (tk_exec_path tk)
                       | Some name \<Rightarrow> if name = [] then c_string (tk_exec_path tk) else name)
      in jm_tracker_fprintf w module_format
           [Gp_char (opcode_char JM_OPCODE_MODULE), Gp (fst info), Gp_str dlpi_name] tk)"

fun dl_iterate_phdr :: "world \<Rightarrow> (u64 \<times> string option) list \<Rightarrow> tracker \<Rightarrow> tracker outcome" where
  "dl_iterate_phdr w [] tk = Ok tk"
| "dl_iterate_phdr w (info # infos) tk =
     and_then (dl_iterate_phdr_callback w info tk) (dl_iterate_phdr w infos)"

definition jm_tracker_update_mappings :: "world \<Rightarrow> tracker \<Rightarrow> tracker outcome" where
  "jm_tracker_update_mappings w tk =
     (if tk_dirty_mutex tk then Ok tk
      else
        (let tk = tk\<lparr>tk_dirty_mutex := True\<rparr>
         in if \<not> tk_is_dirty tk then Ok tk
            else and_then (dl_iterate_phdr w (w_phdrs w (tk_lines tk)) (tk\<lparr>tk_is_dirty := False\<rparr>))
                   (\<lambda>tk. Ok (tk\<lparr>tk_dirty_mutex := False\<rparr>))))"

section \<open>Heap regions\<close>

definition maps_directives :: "directive list" where
  "maps_directives =
     [Scan_Str, Scan_Space, Scan_Str, Scan_Space, Scan_Int, Scan_Space, Scan_Str, Scan_Space,
      Scan_Int, Scan_Space, Scan_Str]"

text \<open>A token fits its array of \<open>MMAP_ROW_SIZE\<close> characters together with its terminator.\<close>

fun fits :: "scanned \<Rightarrow> bool" where
  "fits (Str t) = (length t < MMAP_ROW_SIZE)"
| "fits _ = True"

text \<open>
  The arrays \<open>addr\<close> and \<open>path\<close> keep what the last row that reached them put there; at first they
  are uninitialised.
\<close>

definition scanned_str :: "scanned list \<Rightarrow> nat \<Rightarrow> string option \<Rightarrow> string option" where
  "scanned_str vs i old =
     (if i < length vs then (case vs ! i of Str t \<Rightarrow> Some t | _ \<Rightarrow> old) else old)"

definition region_directives :: "directive list" where
  "region_directives = [Scan_Ptr, Scan_Lit CHR ''-'', Scan_Ptr]"

record heap_scan =
  hs_regions :: "jmRegion list"
  hs_result :: nat
  hs_addr :: "string option"
  hs_path :: "string option"

text \<open>The assertion around \<open>sscanf(addr, "%p-%p", ...)\<close>, and \<open>result++\<close>.\<close>

definition store_region :: "heap_scan \<Rightarrow> heap_scan outcome" where
  "store_region hs =
     (case hs_addr hs of
        None \<Rightarrow> Fail Undefined_Behaviour
      | Some addr \<Rightarrow>
          (case sscanf region_directives addr of
             [] \<Rightarrow> Fail Assertion_Failed
           | v # vs \<Rightarrow>
               if length (hs_regions hs) \<le> hs_result hs then Fail Undefined_Behaviour
               else (case (v, vs) of
                       (Num s, [Num e]) \<Rightarrow>
                         Ok (hs\<lparr>hs_regions := (hs_regions hs)[hs_result hs := \<lparr>start = s, end_addr = e\<rparr>],
                                hs_result := Suc (hs_result hs)\<rparr>)
                     | _ \<Rightarrow> Fail Assertion_Failed)))"

definition scan_row :: "nat \<Rightarrow> string \<Rightarrow> heap_scan \<Rightarrow> heap_scan outcome" where
  "scan_row bufsize buffer hs =
     (let vs = sscanf maps_directives (c_string buffer);
          hs = hs\<lparr>hs_addr := scanned_str vs 0 (hs_addr hs), hs_path := scanned_str vs 5 (hs_path hs)\<rparr>
      in if \<not> list_all fits vs then Fail Undefined_Behaviour
         else if length vs < 5 then
           (if bufsize < hs_result hs then Ok hs else store_region hs)
         else
           (case hs_path hs of
              None \<Rightarrow> Fail Undefined_Behaviour
            | Some path \<Rightarrow>
                if path = ''[heap]'' then
                  (if bufsize < hs_result hs then Ok hs else store_region hs)
                else Ok hs))"

function scan_rows :: "nat \<Rightarrow> string \<Rightarrow> heap_scan \<Rightarrow> heap_scan outcome" where
  "scan_rows bufsize stream hs =
     (case fgets MAX_BUFFER_SIZE stream of
        None \<Rightarrow> Ok hs
      | Some (buffer, rest) \<Rightarrow> and_then (scan_row bufsize buffer hs) (scan_rows bufsize rest))"
  by pat_completeness auto

termination
  by (relation "measure (\<lambda>(_, stream, _). length stream)")
    (auto dest: fgets_Some(4) simp: MAX_BUFFER_SIZE_def)

declare scan_rows.simps [simp del]

definition find_heap_regions ::
    "string option \<Rightarrow> jmRegion list \<Rightarrow> nat \<Rightarrow> (jmRegion list \<times> nat) outcome" where
  "find_heap_regions maps regions bufsize =
     (case maps of
        None \<Rightarrow> Fail Undefined_Behaviour
      | Some stream \<Rightarrow>
          and_then (scan_rows bufsize stream
                      \<lparr>hs_regions = regions, hs_result = 0, hs_addr = None, hs_path = None\<rparr>)
            (\<lambda>hs. Ok (hs_regions hs, hs_result hs)))"

section \<open>Opening and closing the log\<close>

definition exec_path_format :: string where
  "exec_path_format = module_format"

definition region_format :: string where
  "region_format = ''%c 0x%jx 0x%jx'' @ [CHR ''\<newline>'']"

text \<open>\<open>readlink\<close> copies at most \<open>PATH_MAX\<close> bytes and adds no terminator.\<close>

definition read_exec_path :: "string option \<Rightarrow> char list \<Rightarrow> char list outcome" where
  "read_exec_path link path =
     (case link of
        None \<Rightarrow> and_then (snprintf_at path 0 8 ''unknown'' []) (\<lambda>(_, path). Ok path)
      | Some target \<Rightarrow> Ok (take PATH_MAX target @ drop (length (take PATH_MAX target)) path))"

definition tracker_open :: "world \<Rightarrow> tracker \<Rightarrow> tracker outcome" where
  "tracker_open w tk =
     and_then (read_exec_path (w_readlink w) (tk_exec_path tk)) (\<lambda>path.
     jm_tracker_fprintf w exec_path_format
       [Gp_char (opcode_char JM_OPCODE_EXEC_PATH), Gp 0, Gp_str (c_string path)]
       (tk\<lparr>tk_exec_path := path, tk_fd := w_open w\<rparr>))"

definition print_region :: "world \<Rightarrow> jmRegion \<Rightarrow> tracker \<Rightarrow> tracker outcome" where
  "print_region w r =
     jm_tracker_fprintf w region_format
       [Gp_char (opcode_char JM_OPCODE_REGION), Gp (start r), Gp (end_addr r)]"

fun print_regions :: "world \<Rightarrow> jmRegion list \<Rightarrow> tracker \<Rightarrow> tracker outcome" where
  "print_regions w [] tk = Ok tk"
| "print_regions w (r # rs) tk = and_then (print_region w r tk) (print_regions w rs)"

definition tracker_close :: "world \<Rightarrow> tracker \<Rightarrow> tracker outcome" where
  "tracker_close w tk =
     (if tk_fd tk < 0 then Ok tk
      else
        and_then (find_heap_regions (w_maps w)
                    (replicate MAX_REGION_COUNT \<lparr>start = 0, end_addr = 0\<rparr>) MAX_REGION_COUNT)
          (\<lambda>(regions, count).
        and_then (print_regions w (take count regions) tk) (\<lambda>tk.
        if w_close w = 0 then Ok tk else Fail Assertion_Failed)))"

text \<open>\<open>pthread_once\<close>.\<close>

definition jm_tracker_init :: "world \<Rightarrow> tracker \<Rightarrow> tracker outcome" where
  "jm_tracker_init w tk =
     (if tk_init_once tk then Ok tk else tracker_open w (tk\<lparr>tk_init_once := True\<rparr>))"

definition jm_tracker_deinit :: "world \<Rightarrow> tracker \<Rightarrow> tracker outcome" where
  "jm_tracker_deinit w tk =
     (if tk_deinit_once tk then Ok tk else tracker_close w (tk\<lparr>tk_deinit_once := True\<rparr>))"

section \<open>One line of the log\<close>

lemma snprintf_at_render:
  assumes "render 0 format args = Some (s, args', stores)" "length s < 2 ^ 31"
    and "i + unat n \<le> length buffer"
  shows "snprintf_at buffer i n format args =
    Ok (int (length s), take i buffer @ written (drop i buffer) (min (unat n) 2147483647) s)"
proof -
  have "unat n \<le> length (drop i buffer)" using assms(3) by simp
  then show ?thesis
    using snprintf_buffer [OF assms(1,2), of n "drop i buffer"]
    by (auto simp: snprintf_at_def)
qed

lemma length_dec_u64: "length (dec_string (unat (t :: u64))) \<le> 20"
  using length_nat_digits_le [of 10 "unat t" 20] unat_u64 [of t] by (simp add: length_num_string)

lemma render_timestamp:
  "render 0 timestamp_format [Gp t] = Some (dec_string (unat t) @ '' '', [], [])"
  unfolding timestamp_format_def by (simp add: render_simps)

lemma unat_of_int_u64: "0 \<le> k \<Longrightarrow> k < 2 ^ 64 \<Longrightarrow> unat (of_int k :: u64) = nat k"
  using unat_of_nat_u64 [of "nat k"] by simp

text \<open>What the body of the log writer leaves in its buffer.\<close>

definition stamp :: "tracker \<Rightarrow> world \<Rightarrow> string" where
  "stamp tk w = dec_string (unat (clock_ns (w_clock w (tk_lines tk)) - stm_start (tk_stm tk))) @ '' ''"

definition line_buffer :: "char list \<Rightarrow> string \<Rightarrow> string \<Rightarrow> char list" where
  "line_buffer buffer ts s =
     ts @ written (drop (length ts) (written buffer (Suc (length ts)) ts)) (2047 - length ts) s"

lemma length_written: "m \<le> length b \<Longrightarrow> length (written b m s) = length b"
  by (auto simp: written_def)

lemma take_written: "length s < m \<Longrightarrow> m \<le> length b \<Longrightarrow> i \<le> length s \<Longrightarrow> take i (written b m s) = take i s"
  by (simp add: written_def)

lemma fprintf_buffer:
  assumes "\<not> tk_fd_mutex tk" "stm_initialized (tk_stm tk) = STM_MAGIC"
    and "length (w_stack w (tk_lines tk)) = MAX_BUFFER_SIZE"
    and "render 0 format args = Some (s, args', stores)" "length s < 2 ^ 31"
  shows "jm_tracker_fprintf w format args tk =
    and_then (write_fd (tk_fd tk) (line_buffer (w_stack w (tk_lines tk)) (stamp tk w) s)
                (int (length (stamp tk w) + length s)) tk)
      (\<lambda>tk. Ok (tk\<lparr>tk_lines := Suc (tk_lines tk)\<rparr>))"
proof -
  let ?b = "w_stack w (tk_lines tk)"
  define t where "t = clock_ns (w_clock w (tk_lines tk)) - stm_start (tk_stm tk)"
  define ts where "ts = dec_string (unat t) @ '' ''"
  have now: "stm_now (tk_stm tk) (w_clock w (tk_lines tk)) = Ok t"
    using assms(2) by (simp add: stm_now_def t_def)
  have lts: "length ts \<le> 21" using length_dec_u64 [of t] by (simp add: ts_def)
  have r: "render 0 timestamp_format [Gp t] = Some (ts, [], [])"
    by (simp add: render_timestamp ts_def)
  obtain g where s1: "lib_snprintf None 0 timestamp_format [Gp t] = Some (int (length ts), g, [])"
    using snprintf_null [OF r, of 0] lts by auto
  define n :: u64 where "n = of_int (int (length ts) + 1)"
  have n: "unat n = Suc (length ts)"
    unfolding n_def using lts by (subst unat_of_int_u64) auto
  have s2: "snprintf_at ?b 0 n timestamp_format [Gp t] =
      Ok (int (length ts), written ?b (Suc (length ts)) ts)"
    using lts assms(3) by (subst snprintf_at_render [OF r]) (auto simp: n MAX_BUFFER_SIZE_def)
  let ?b1 = "written ?b (Suc (length ts)) ts"
  define m :: u64 where "m = of_int (int MAX_BUFFER_SIZE - (int (length ts) + 1))"
  have m: "unat m = 2047 - length ts"
    unfolding m_def using lts by (subst unat_of_int_u64) (auto simp: MAX_BUFFER_SIZE_def)
  have len1: "length ?b1 = 2048"
    using lts assms(3) by (simp add: length_written MAX_BUFFER_SIZE_def)
  have take1: "take (length ts) ?b1 = ts"
    using lts assms(3) by (subst take_written) (auto simp: MAX_BUFFER_SIZE_def)
  have s3: "snprintf_at ?b1 (length ts) m format args =
      Ok (int (length s), line_buffer ?b ts s)"
    using lts len1 take1
    by (subst snprintf_at_render [OF assms(4,5)]) (auto simp: m line_buffer_def)
  have stamp: "stamp tk w = ts" by (simp add: stamp_def ts_def t_def)
  show ?thesis
    using assms(1) s2 [unfolded n_def] s3 [unfolded m_def]
    by (simp add: jm_tracker_fprintf_def now s1 stamp)
qed

lemma line_buffer_fits:
  assumes "length buffer = 2048" "length ts \<le> 21" 
  shows "length (line_buffer buffer ts s) = 2048"
    and "length ts + length s < 2047 \<Longrightarrow> take (length ts + length s) (line_buffer buffer ts s) = ts @ s"
    and "2047 \<le> length ts + length s \<Longrightarrow> line_buffer buffer ts s =
         ts @ take (2046 - length ts) s @ NUL # drop 2047 buffer"
proof -
  have "2047 - length ts \<le> length (drop (length ts) (written buffer (Suc (length ts)) ts))"
    using assms by (simp add: length_written)
  then show "length (line_buffer buffer ts s) = 2048"
    using assms by (simp add: line_buffer_def length_written)
  show "length ts + length s < 2047 \<Longrightarrow> take (length ts + length s) (line_buffer buffer ts s) = ts @ s"
    using assms by (simp add: line_buffer_def take_written length_written)
  assume "2047 \<le> length ts + length s"
  then show "line_buffer buffer ts s = ts @ take (2046 - length ts) s @ NUL # drop 2047 buffer"
    using assms by (auto simp: line_buffer_def written_def)
qed

lemma length_stamp: "length (stamp tk w) \<le> 21"
  using length_dec_u64 [of "clock_ns (w_clock w (tk_lines tk)) - stm_start (tk_stm tk)"]
  by (simp add: stamp_def)

text \<open>The state in which a log line may be written.\<close>

definition ready :: "world \<Rightarrow> tracker \<Rightarrow> bool" where
  "ready w tk \<longleftrightarrow> \<not> tk_fd_mutex tk \<and> stm_initialized (tk_stm tk) = STM_MAGIC \<and>
     length (w_stack w (tk_lines tk)) = MAX_BUFFER_SIZE"

definition logged :: "char list \<Rightarrow> tracker \<Rightarrow> tracker" where
  "logged line tk = tk\<lparr>tk_writes := tk_writes tk @ [(tk_fd tk, line)], tk_lines := Suc (tk_lines tk)\<rparr>"

lemma fprintf_line:
  assumes "ready w tk" "render 0 format args = Some (s, args', stores)"
    and "length (stamp tk w) + length s < 2047"
  shows "jm_tracker_fprintf w format args tk = Ok (logged (stamp tk w @ s) tk)"
  using assms line_buffer_fits [OF _ length_stamp, of "w_stack w (tk_lines tk)" tk w s]
  by (subst fprintf_buffer)
    (auto simp: ready_def MAX_BUFFER_SIZE_def write_fd_def logged_def nat_int_add)

lemma fprintf_cut:
  assumes "ready w tk" "render 0 format args = Some (s, args', stores)"
    and "length (stamp tk w) + length s = k" "k = 2047 \<or> k = 2048"
  shows "jm_tracker_fprintf w format args tk =
    Ok (logged (take k (take 2046 (stamp tk w @ s) @ NUL # drop 2047 (w_stack w (tk_lines tk)))) tk)"
  using assms line_buffer_fits [OF _ length_stamp, of "w_stack w (tk_lines tk)" tk w s]
    length_stamp [of tk w]
  by (subst fprintf_buffer)
    (auto simp: ready_def MAX_BUFFER_SIZE_def write_fd_def logged_def nat_int_add)

lemma fprintf_overread:
  assumes "ready w tk" "render 0 format args = Some (s, args', stores)" "length s < 2 ^ 31"
    and "MAX_BUFFER_SIZE < length (stamp tk w) + length s"
  shows "jm_tracker_fprintf w format args tk = Fail Undefined_Behaviour"
  using assms line_buffer_fits(1) [OF _ length_stamp, of "w_stack w (tk_lines tk)" tk w s]
  by (subst fprintf_buffer)
    (auto simp: ready_def MAX_BUFFER_SIZE_def write_fd_def logged_def nat_int_add)

subsection \<open>The rendered lines\<close>

lemma char_arg [simp]: "ucast (of_nat (of_char c) :: u64) = (of_nat (of_char c) :: u8)"
  by (simp add: bit_eq_iff bit_simps)

lemma render_opcode: "render pos (CHR ''%'' # CHR ''c'' # format) (Gp_char c # args) =
    map_option (\<lambda>(s, args, stores). (c # s, args, stores)) (render (pos + 1) format args)"
  by (simp add: Gp_char_def render_simps unat_of_nat)

definition module_line :: "char \<Rightarrow> u64 \<Rightarrow> string \<Rightarrow> string" where
  "module_line c addr name = [c] @ '' 0x'' @ hex_string (unat addr) @ '' '' @ name @ [CHR ''\<newline>'']"

lemma render_module:
  "length name \<le> 2147483647 \<Longrightarrow>
     render 0 module_format [Gp_char c, Gp addr, Gp_str name] = Some (module_line c addr name, [], [])"
  unfolding module_format_def module_line_def by (simp add: render_opcode render_simps)

definition region_line :: "jmRegion \<Rightarrow> string" where
  "region_line r = ''r 0x'' @ hex_string (unat (start r)) @ '' 0x'' @ hex_string (unat (end_addr r)) @
     [CHR ''\<newline>'']"

lemma render_region:
  "render 0 region_format [Gp_char CHR ''r'', Gp (start r), Gp (end_addr r)] =
     Some (region_line r, [], [])"
  unfolding region_format_def region_line_def by (simp add: render_opcode render_simps)

subsection \<open>Sequences of lines\<close>

definition world_ok :: "world \<Rightarrow> bool" where
  "world_ok w \<longleftrightarrow> (\<forall>n. length (w_stack w n) = MAX_BUFFER_SIZE)"

definition tracker_ok :: "tracker \<Rightarrow> bool" where
  "tracker_ok tk \<longleftrightarrow> \<not> tk_fd_mutex tk \<and> stm_initialized (tk_stm tk) = STM_MAGIC"

lemma ready_iff: "world_ok w \<Longrightarrow> ready w tk \<longleftrightarrow> tracker_ok tk"
  by (auto simp: world_ok_def ready_def tracker_ok_def)

lemma tracker_ok_logged [simp]: "tracker_ok (logged l tk) \<longleftrightarrow> tracker_ok tk"
  by (simp add: tracker_ok_def logged_def)

text \<open>Every line that the process writes is the time followed by a body.\<close>

fun log_all :: "world \<Rightarrow> string list \<Rightarrow> tracker \<Rightarrow> tracker" where
  "log_all w [] tk = tk"
| "log_all w (s # ss) tk = log_all w ss (logged (stamp tk w @ s) tk)"

lemma log_all_append: "log_all w (ss @ ts) tk = log_all w ts (log_all w ss tk)"
  by (induction ss arbitrary: tk) auto

lemma tracker_ok_log_all [simp]: "tracker_ok (log_all w ss tk) \<longleftrightarrow> tracker_ok tk"
  by (induction ss arbitrary: tk) auto

lemma log_all_sel [simp]:
  "tk_fd (log_all w ss tk) = tk_fd tk" "tk_is_dirty (log_all w ss tk) = tk_is_dirty tk"
  "tk_dirty_mutex (log_all w ss tk) = tk_dirty_mutex tk" "tk_stm (log_all w ss tk) = tk_stm tk"
  "tk_exec_path (log_all w ss tk) = tk_exec_path tk" "tk_fd_mutex (log_all w ss tk) = tk_fd_mutex tk"
  "tk_lines (log_all w ss tk) = tk_lines tk + length ss"
  "tk_init_once (log_all w ss tk) = tk_init_once tk"
  "tk_deinit_once (log_all w ss tk) = tk_deinit_once tk"
  by (induction ss arbitrary: tk) (auto simp: logged_def)

text \<open>A body of at most 2025 bytes always fits the buffer.\<close>

lemma fprintf_log:
  assumes "world_ok w" "tracker_ok tk" "render 0 format args = Some (s, args', stores)"
    and "length s \<le> 2025"
  shows "jm_tracker_fprintf w format args tk = Ok (log_all w [s] tk)"
  using assms length_stamp [of tk w] by (subst fprintf_line) (auto simp: ready_iff)

definition shown_name :: "tracker \<Rightarrow> string option \<Rightarrow> string" where
  "shown_name tk name = (case name of None \<Rightarrow> c_string (tk_exec_path tk)
     | Some n \<Rightarrow> if n = [] then c_string (tk_exec_path tk) else n)"

definition info_line :: "tracker \<Rightarrow> u64 \<times> string option \<Rightarrow> string" where
  "info_line tk info = module_line CHR ''m'' (fst info) (shown_name tk (snd info))"

lemma length_hex_u64: "length (hex_string (unat (t :: u64))) \<le> 16"
  using length_nat_digits_le [of 16 "unat t" 16] unat_u64 [of t] by (simp add: length_num_string)

lemma length_module_line: "length (module_line c a name) \<le> 22 + length name"
  using length_hex_u64 [of a] by (simp add: module_line_def)

lemma dl_iterate_phdr_callback_log:
  assumes "world_ok w" "tracker_ok tk" "length (shown_name tk (snd info)) \<le> 2000"
  shows "dl_iterate_phdr_callback w info tk = Ok (log_all w [info_line tk info] tk)"
proof -
  have "dl_iterate_phdr_callback w info tk = jm_tracker_fprintf w module_format
      [Gp_char CHR ''m'', Gp (fst info), Gp_str (shown_name tk (snd info))] tk"
    by (simp add: dl_iterate_phdr_callback_def shown_name_def)
  moreover have "render 0 module_format
      [Gp_char CHR ''m'', Gp (fst info), Gp_str (shown_name tk (snd info))] =
      Some (info_line tk info, [], [])"
    unfolding info_line_def by (rule render_module) (use assms(3) in simp)
  moreover have "length (info_line tk info) \<le> 2025"
    using length_module_line [of "CHR ''m''" "fst info" "shown_name tk (snd info)"] assms(3)
    by (simp add: info_line_def)
  ultimately show ?thesis using fprintf_log assms(1,2) by metis
qed

lemma dl_iterate_phdr_log:
  assumes "world_ok w" "tracker_ok tk"
    and "\<forall>info \<in> set infos. length (shown_name tk (snd info)) \<le> 2000"
  shows "dl_iterate_phdr w infos tk = Ok (log_all w (map (info_line tk) infos) tk)"
  using assms(2,3)
proof (induction infos arbitrary: tk)
  case (Cons info infos)
  let ?tk = "log_all w [info_line tk info] tk"
  have name: "shown_name ?tk = shown_name tk" by (auto simp: shown_name_def logged_def split: option.split)
  then have "info_line ?tk = info_line tk" by (simp add: info_line_def fun_eq_iff)
  moreover have "dl_iterate_phdr w infos ?tk = Ok (log_all w (map (info_line ?tk) infos) ?tk)"
    using Cons name by (intro Cons.IH) (auto simp del: log_all.simps)
  ultimately show ?case
    using Cons.prems assms(1) by (simp add: dl_iterate_phdr_callback_log)
qed simp

lemma logged_update:
  "logged l (t\<lparr>tk_dirty_mutex := a\<rparr>) = (logged l t)\<lparr>tk_dirty_mutex := a\<rparr>"
  "logged l (t\<lparr>tk_is_dirty := b\<rparr>) = (logged l t)\<lparr>tk_is_dirty := b\<rparr>"
  "stamp (t\<lparr>tk_dirty_mutex := a\<rparr>) w = stamp t w" "stamp (t\<lparr>tk_is_dirty := b\<rparr>) w = stamp t w"
  by (simp_all add: logged_def stamp_def)

lemma log_all_update:
  "log_all w ss (t\<lparr>tk_dirty_mutex := a\<rparr>) = (log_all w ss t)\<lparr>tk_dirty_mutex := a\<rparr>"
  "log_all w ss (t\<lparr>tk_is_dirty := b\<rparr>) = (log_all w ss t)\<lparr>tk_is_dirty := b\<rparr>"
  by (induction ss arbitrary: t) (simp_all add: logged_update)

lemma update_mappings_dirty:
  assumes "world_ok w" "tracker_ok tk" "tk_is_dirty tk" "\<not> tk_dirty_mutex tk"
    and "\<forall>info \<in> set (w_phdrs w (tk_lines tk)). length (shown_name tk (snd info)) \<le> 2000"
  shows "jm_tracker_update_mappings w tk =
    Ok ((log_all w (map (info_line tk) (w_phdrs w (tk_lines tk))) tk)\<lparr>tk_is_dirty := False\<rparr>)"
proof -
  let ?tk = "tk\<lparr>tk_dirty_mutex := True, tk_is_dirty := False\<rparr>"
  have sel: "tracker_ok ?tk" "shown_name ?tk = shown_name tk"
    using assms(2) by (auto simp: tracker_ok_def shown_name_def split: option.split)
  have line: "info_line ?tk = info_line tk"
    by (simp add: info_line_def fun_eq_iff sel)
  have "tk\<lparr>tk_dirty_mutex := False\<rparr> = tk" using assms(4) by simp
  then show ?thesis
    using assms sel
    by (simp add: jm_tracker_update_mappings_def dl_iterate_phdr_log line log_all_update)
qed

section \<open>The mutex of the dirty flag\<close>

datatype dirty_op = Set_Dirty bool | Update

fun run_dirty :: "world \<Rightarrow> dirty_op list \<Rightarrow> tracker \<Rightarrow> tracker outcome" where
  "run_dirty w [] tk = Ok tk"
| "run_dirty w (Set_Dirty b # ops) tk = run_dirty w ops (jm_tracker_set_dirty b tk)"
| "run_dirty w (Update # ops) tk = and_then (jm_tracker_update_mappings w tk) (run_dirty w ops)"

lemma update_mappings_clean:
  "\<not> tk_is_dirty tk \<Longrightarrow> jm_tracker_update_mappings w tk = Ok (tk\<lparr>tk_dirty_mutex := True\<rparr>)"
  by (cases "tk_dirty_mutex tk") (simp_all add: jm_tracker_update_mappings_def)

lemma run_dirty_stuck: "tk_dirty_mutex tk \<Longrightarrow> run_dirty w ops tk = Ok tk"
  by (induction w ops tk rule: run_dirty.induct)
    (simp_all add: jm_tracker_set_dirty_def jm_tracker_update_mappings_def)

lemma run_dirty_append:
  "run_dirty w (ops @ ops') tk = and_then (run_dirty w ops tk) (run_dirty w ops')"
proof (induction ops arbitrary: tk)
  case (Cons op ops)
  then show ?case
    by (cases op; cases "jm_tracker_update_mappings w tk") auto
qed simp

text \<open>The flag and its mutex seen from outside: three states.\<close>

datatype mappings = Stale | Fresh | Frozen

definition mappings_of :: "tracker \<Rightarrow> mappings" where
  "mappings_of tk = (if tk_dirty_mutex tk then Frozen else if tk_is_dirty tk then Stale else Fresh)"

fun mappings_step :: "dirty_op \<Rightarrow> mappings \<Rightarrow> mappings" where
  "mappings_step _ Frozen = Frozen"
| "mappings_step (Set_Dirty True) _ = Stale"
| "mappings_step (Set_Dirty False) _ = Fresh"
| "mappings_step Update Stale = Fresh"
| "mappings_step Update Fresh = Frozen"

lemma fprintf_frame:
  assumes "jm_tracker_fprintf w format args tk = Ok tk'"
  shows "tk_dirty_mutex tk' = tk_dirty_mutex tk" "tk_is_dirty tk' = tk_is_dirty tk"
    and "tk_fd tk' = tk_fd tk" "tk_exec_path tk' = tk_exec_path tk" "tk_stm tk' = tk_stm tk"
    and "tk_init_once tk' = tk_init_once tk" "tk_deinit_once tk' = tk_deinit_once tk"
    and "tk_fd_mutex tk' = tk_fd_mutex tk"
  using assms
  by (auto simp: jm_tracker_fprintf_def and_then_Ok_iff write_fd_def split: if_splits prod.splits)

lemma dl_iterate_phdr_frame:
  assumes "dl_iterate_phdr w infos tk = Ok tk'"
  shows "tk_dirty_mutex tk' = tk_dirty_mutex tk \<and> tk_is_dirty tk' = tk_is_dirty tk"
  using assms
proof (induction infos arbitrary: tk)
  case (Cons info infos)
  then obtain t where t: "dl_iterate_phdr_callback w info tk = Ok t" "dl_iterate_phdr w infos t = Ok tk'"
    by (auto simp: and_then_Ok_iff)
  have "tk_dirty_mutex t = tk_dirty_mutex tk \<and> tk_is_dirty t = tk_is_dirty tk"
    using t(1) fprintf_frame(1,2) unfolding dl_iterate_phdr_callback_def Let_def by blast
  with Cons.IH [OF t(2)] show ?case by simp
qed simp

lemma set_dirty_mappings:
  "mappings_of (jm_tracker_set_dirty b tk) = mappings_step (Set_Dirty b) (mappings_of tk)"
  by (cases b) (auto simp: jm_tracker_set_dirty_def mappings_of_def)

lemma update_mappings_mappings:
  assumes "jm_tracker_update_mappings w tk = Ok tk'"
  shows "mappings_of tk' = mappings_step Update (mappings_of tk)"
  using assms dl_iterate_phdr_frame
  by (fastforce simp: jm_tracker_update_mappings_def mappings_of_def and_then_Ok_iff Let_def split: if_splits)

lemma run_dirty_simulation:
  "run_dirty w ops tk = Ok tk' \<Longrightarrow> mappings_of tk' = fold mappings_step ops (mappings_of tk)"
proof (induction w ops tk rule: run_dirty.induct)
  case (3 w ops tk)
  then obtain t where "jm_tracker_update_mappings w tk = Ok t" "run_dirty w ops t = Ok tk'"
    by (auto simp: and_then_Ok_iff)
  with 3 show ?case by (simp add: update_mappings_mappings)
qed (simp_all add: set_dirty_mappings)

section \<open>The scan of the heap regions\<close>

lemma store_region_bound:
  assumes "store_region hs = Ok hs'"
  shows "hs_result hs < length (hs_regions hs)" "length (hs_regions hs') = length (hs_regions hs)"
    and "hs_result hs' = Suc (hs_result hs)"
  using assms by (auto simp: store_region_def split: option.splits list.splits if_splits scanned.splits)

lemma scan_row_bound:
  assumes "scan_row n buffer hs = Ok hs'"
  shows "length (hs_regions hs') = length (hs_regions hs) \<and>
    (hs_result hs' = hs_result hs \<or> hs_result hs' = Suc (hs_result hs) \<and> hs_result hs' \<le> length (hs_regions hs'))"
proof -
  have *: "length (hs_regions b) = length (hs_regions a) \<and> hs_result b = Suc (hs_result a) \<and>
      hs_result b \<le> length (hs_regions b)" if "store_region a = Ok b" for a b
    using store_region_bound [OF that] by simp
  show ?thesis
    using assms unfolding scan_row_def Let_def
    by (auto split: if_splits option.splits dest!: *)
qed

lemma scan_rows_bound:
  assumes "scan_rows n stream hs = Ok hs'" "hs_result hs \<le> length (hs_regions hs)"
  shows "length (hs_regions hs') = length (hs_regions hs) \<and> hs_result hs' \<le> length (hs_regions hs')"
  using assms
proof (induction n stream hs rule: scan_rows.induct)
  case (1 n stream hs)
  show ?case
  proof (cases "fgets MAX_BUFFER_SIZE stream")
    case None
    then show ?thesis using 1(2,3) by (simp add: scan_rows.simps)
  next
    case (Some a)
    obtain buffer rest where a: "a = (buffer, rest)" by (cases a)
    obtain h where h: "scan_row n buffer hs = Ok h" "scan_rows n rest h = Ok hs'"
      using 1(2) Some a by (auto simp: scan_rows.simps [of n stream] and_then_Ok_iff)
    show ?thesis
      using 1(1) [OF Some a [symmetric] h(2)] scan_row_bound [OF h(1)] 1(3) by auto
  qed
qed

lemma find_heap_regions_bound:
  "find_heap_regions maps regions n = Ok (regions', k) \<Longrightarrow>
     length regions' = length regions \<and> k \<le> length regions"
  using scan_rows_bound
  by (fastforce simp: find_heap_regions_def and_then_Ok_iff split: option.splits)

section \<open>Rows of the memory map\<close>

lemmas scan_eval = scan_number_def skip_space_def is_space_def take_sign_def take_prefix_def
  stops_def digit_of_char_def to_ulong_def to_long_def c_string_def

definition heap_row :: string where
  "heap_row = ''10-20 rw-p 0 00:00 0 [heap]'' @ [CHR ''\<newline>'']"

definition library_row :: string where
  "library_row = ''30-40 r-xp 0001a000 fd:01 77 /lib/libc.so'' @ [CHR ''\<newline>'']"

lemma heap_row_scanned:
  "sscanf maps_directives (c_string heap_row) =
    [Str ''10-20'', Str ''rw-p'', Num 0, Str ''00:00'', Num 0, Str ''[heap]'']" 
  by (simp add: maps_directives_def heap_row_def scan_eval)
lemma library_row_scanned: "sscanf maps_directives (c_string library_row) =
    [Str ''30-40'', Str ''r-xp'', Num 1, Str ''a000'']" 
  by (simp add: maps_directives_def library_row_def scan_eval)
lemma region_scanned: "sscanf region_directives ''10-20'' = [Num 16, Num 32]" 
  "sscanf region_directives ''30-40'' = [Num 48, Num 64]"
  by (simp_all add: region_directives_def scan_eval)

lemma heap_row_line:
  "fgets MAX_BUFFER_SIZE (heap_row @ rest) = Some (heap_row, rest)"
  "fgets MAX_BUFFER_SIZE (library_row @ rest) = Some (library_row, rest)"
  using fgets_line [of "''10-20 rw-p 0 00:00 0 [heap]''" MAX_BUFFER_SIZE rest]
   fgets_line [of "''30-40 r-xp 0001a000 fd:01 77 /lib/libc.so''" MAX_BUFFER_SIZE rest]
  by (simp_all add: heap_row_def library_row_def MAX_BUFFER_SIZE_def)

lemma scan_row_heap:
  "hs_result hs \<le> n \<Longrightarrow> scan_row n heap_row hs =
     (if hs_result hs < length (hs_regions hs)
      then Ok (hs\<lparr>hs_addr := Some ''10-20'', hs_path := Some ''[heap]'',
        hs_regions := (hs_regions hs)[hs_result hs := \<lparr>start = 16, end_addr = 32\<rparr>],
        hs_result := Suc (hs_result hs)\<rparr>)
      else Fail Undefined_Behaviour)"
  using heap_row_scanned region_scanned(1)
  by (simp add: scan_row_def scanned_str_def store_region_def MMAP_ROW_SIZE_def)

lemma scan_rows_nil: "scan_rows n [] hs = Ok hs"
  by (simp add: scan_rows.simps fgets_def)

lemma scan_rows_heap:
  assumes "length (hs_regions hs) = n" "hs_result hs \<le> n"
  shows "\<exists>rs a p. scan_rows n (concat (replicate k heap_row)) hs =
    (if hs_result hs + k \<le> n
     then Ok \<lparr>hs_regions = rs, hs_result = hs_result hs + k, hs_addr = a, hs_path = p\<rparr>
     else Fail Undefined_Behaviour)"
  using assms
proof (induction k arbitrary: hs)
  case 0
  then show ?case by (cases hs) (simp add: scan_rows_nil)
next
  case (Suc k)
  let ?h = "hs\<lparr>hs_addr := Some ''10-20'', hs_path := Some ''[heap]'',
        hs_regions := (hs_regions hs)[hs_result hs := \<lparr>start = 16, end_addr = 32\<rparr>],
        hs_result := Suc (hs_result hs)\<rparr>"
  have step: "scan_rows n (concat (replicate (Suc k) heap_row)) hs =
      and_then (scan_row n heap_row hs) (scan_rows n (concat (replicate k heap_row)))"
    by (subst scan_rows.simps) (simp add: heap_row_line)
  show ?case
  proof (cases "hs_result hs < n")
    case True
    have h: "hs_result ?h = Suc (hs_result hs)" "length (hs_regions ?h) = n"
      using Suc.prems(1) by simp_all
    obtain rs a p where "scan_rows n (concat (replicate k heap_row)) ?h =
        (if Suc (hs_result hs) + k \<le> n
         then Ok \<lparr>hs_regions = rs, hs_result = Suc (hs_result hs) + k, hs_addr = a, hs_path = p\<rparr>
         else Fail Undefined_Behaviour)"
      using Suc.IH [OF h(2)] True unfolding h(1) by (auto simp del: One_nat_def)
    then show ?thesis
      using True Suc.prems unfolding step by (auto simp: scan_row_heap)
  next
    case False
    then show ?thesis using Suc.prems unfolding step by (simp add: scan_row_heap)
  qed
qed

section \<open>Properties\<close>

text \<open>C28: the log writer writes the time stamp and the whole formatted line with one request while
  they are shorter than 2047 bytes, loses the end of the line behind a terminator at 2047 and 2048
  bytes, and beyond that hands the system more bytes than its buffer has.\<close>

theorem log_line_written:
  assumes "ready w tk" "render 0 format args = Some (s, args', stores)" "length s < 2 ^ 31"
  shows "jm_tracker_fprintf w format args tk =
    (let k = length (stamp tk w) + length s
     in if k < 2047 then Ok (logged (stamp tk w @ s) tk)
        else if k \<le> 2048
        then Ok (logged (take k (take 2046 (stamp tk w @ s) @ NUL # drop 2047 (w_stack w (tk_lines tk)))) tk)
        else Fail Undefined_Behaviour)"
proof -
  let ?k = "length (stamp tk w) + length s"
  consider "?k < 2047" | "?k = 2047 \<or> ?k = 2048" | "2048 < ?k" by linarith
  then show ?thesis
  proof cases
    case 1
    then show ?thesis using fprintf_line [OF assms(1,2)] by simp
  next
    case 2
    then show ?thesis using fprintf_cut [OF assms(1,2) refl 2] unfolding Let_def by (elim disjE) simp_all
  next
    case 3
    then show ?thesis using fprintf_overread [OF assms] by (simp add: MAX_BUFFER_SIZE_def)
  qed
qed

theorem log_line_written_witness:
  "\<exists>w tk. jm_tracker_fprintf w ''%s'' [Gp_str (replicate 2100 CHR ''x'')] tk = Fail Undefined_Behaviour \<and>
     jm_tracker_fprintf w ''%s'' [Gp_str ''ok''] tk = Ok (logged ''1 ok'' tk)"
proof -
  define w where "w = \<lparr>w_clock = \<lambda>_. (0, 1), w_stack = \<lambda>_. replicate MAX_BUFFER_SIZE NUL,
    w_phdrs = \<lambda>_. [], w_readlink = None, w_open = 3, w_close = 0, w_maps = None\<rparr>"
  define tk where "tk = (initial_tracker (stm_setup (0, 0)))\<lparr>tk_fd := 3\<rparr>"
  have ready: "ready w tk"
    by (simp add: ready_def w_def tk_def initial_tracker_def stm_setup_def)
  have one: "dec_string 1 = ''1''" by code_simp
  have stamp: "stamp tk w = ''1 ''"
    using one by (simp add: stamp_def w_def tk_def initial_tracker_def stm_setup_def clock_ns_def)
  have r: "render 0 ''%s'' [Gp_str t] = Some (t, [], [])" if "length t \<le> 2147483647" for t
    using that by (simp add: render_simps)
  show ?thesis
    using log_line_written [OF ready r, of "replicate 2100 CHR ''x''"]
      log_line_written [OF ready r, of "''ok''"]
    by (auto simp: stamp Let_def intro!: exI [of _ w] exI [of _ tk])
qed

text \<open>C29: the flag of unlogged modules and its mutex behave, over every sequence of
  \<open>jm_tracker_set_dirty\<close> and \<open>jm_tracker_update_mappings\<close>, as an automaton of three states: stale, fresh,
  and frozen, the last never left.\<close>

theorem dirty_flag_refines_automaton:
  assumes "run_dirty w ops tk = Ok tk'"
  shows "mappings_of tk' = fold mappings_step ops (mappings_of tk)"
  by (rule run_dirty_simulation [OF assms])

theorem dirty_flag_refines_automaton_witness:
  "mappings_of (jm_tracker_set_dirty True ((initial_tracker (stm_setup (0, 0)))\<lparr>tk_is_dirty := False\<rparr>)) = Stale"
proof -
  let ?tk = "(initial_tracker (stm_setup (0, 0)))\<lparr>tk_is_dirty := False\<rparr>"
  have "run_dirty undefined [Set_Dirty True] ?tk = Ok (jm_tracker_set_dirty True ?tk)" by simp
  from dirty_flag_refines_automaton [OF this] show ?thesis
    by (simp add: mappings_of_def initial_tracker_def)
qed

text \<open>C30: an update that finds nothing new returns with the mutex of the flag locked, so that no
  later call ever logs a module again: whatever is loaded or unloaded, the tracker stays as it is.\<close>

theorem mappings_frozen_forever:
  assumes "jm_tracker_update_mappings w tk = Ok tk1" "jm_tracker_update_mappings w tk1 = Ok tk2"
  shows "run_dirty w ops tk2 = Ok tk2"
proof -
  have "mappings_of tk2 = Frozen"
    using update_mappings_mappings [OF assms(1)] update_mappings_mappings [OF assms(2)]
    by (cases "mappings_of tk") auto
  then show ?thesis by (intro run_dirty_stuck) (simp add: mappings_of_def split: if_splits)
qed

theorem mappings_frozen_forever_witness:
  "\<exists>tk. \<forall>w. run_dirty w [Set_Dirty True, Update] tk = Ok tk \<and> \<not> tk_is_dirty tk"
proof -
  define tk where "tk = (initial_tracker (stm_setup (0, 0)))\<lparr>tk_is_dirty := False\<rparr>"
  have u: "jm_tracker_update_mappings w tk = Ok (tk\<lparr>tk_dirty_mutex := True\<rparr>)" for w
    by (simp add: update_mappings_clean tk_def)
  have u2: "jm_tracker_update_mappings w (tk\<lparr>tk_dirty_mutex := True\<rparr>) = Ok (tk\<lparr>tk_dirty_mutex := True\<rparr>)" for w
    by (simp add: jm_tracker_update_mappings_def)
  have "run_dirty w [Set_Dirty True, Update] (tk\<lparr>tk_dirty_mutex := True\<rparr>) = Ok (tk\<lparr>tk_dirty_mutex := True\<rparr>)" for w
    by (rule mappings_frozen_forever [OF u u2])
  then show ?thesis
    by (intro exI [of _ "tk\<lparr>tk_dirty_mutex := True\<rparr>"]) (simp add: tk_def del: run_dirty.simps)
qed

text \<open>When the scan of \<open>/proc/self/maps\<close> returns, it has written inside the array of regions
  only, and the count it returns is at most the size of that array.\<close>

theorem heap_regions_in_bounds:
  assumes "find_heap_regions maps regions n = Ok (regions', k)"
  shows "length regions' = length regions \<and> k \<le> length regions"
  by (rule find_heap_regions_bound [OF assms])

theorem heap_regions_in_bounds_witness:
  "length ((replicate MAX_REGION_COUNT \<lparr>start = 0, end_addr = 0\<rparr>)[0 := \<lparr>start = 48, end_addr = 64\<rparr>]) = length (replicate MAX_REGION_COUNT \<lparr>start = 0, end_addr = 0\<rparr>) \<and>
    1 \<le> length (replicate MAX_REGION_COUNT \<lparr>start = 0, end_addr = 0\<rparr>)"
proof -
  let ?r = "\<lparr>start = 0, end_addr = 0\<rparr> :: jmRegion"
  have "fgets MAX_BUFFER_SIZE library_row = Some (library_row, [])"
    using heap_row_line(2) [of "[]"] by simp
  then have "find_heap_regions (Some library_row) (replicate MAX_REGION_COUNT ?r) MAX_REGION_COUNT =
     Ok ((replicate MAX_REGION_COUNT ?r)[0 := \<lparr>start = 48, end_addr = 64\<rparr>], 1)"
    using library_row_scanned region_scanned(2)
    by (simp add: find_heap_regions_def scan_rows.simps [of _ library_row] scan_rows_nil scan_row_def
        scanned_str_def store_region_def MMAP_ROW_SIZE_def MAX_REGION_COUNT_def)
  from heap_regions_in_bounds [OF this] show ?thesis .
qed

text \<open>C36: the test that the array of regions is not full comes one row late: a process with as
  many heap rows as the array is long is recorded, with one more row the array is overrun.\<close>

theorem heap_rows_overrun:
  "and_then (find_heap_regions (Some (concat (replicate k heap_row)))
      (replicate MAX_REGION_COUNT r) MAX_REGION_COUNT) (\<lambda>(_, count). Ok count) =
    (if k \<le> MAX_REGION_COUNT then Ok k else Fail Undefined_Behaviour)"
  using scan_rows_heap [of "\<lparr>hs_regions = replicate MAX_REGION_COUNT r, hs_result = 0, hs_addr = None,
    hs_path = None\<rparr>" MAX_REGION_COUNT k]
  by (auto simp: find_heap_regions_def)

text \<open>The offset of a mapping is hexadecimal but read with \<open>%d\<close>: a row of a shared library
  whose offset has a letter gives fewer than five values and is recorded as a heap region.\<close>

theorem library_row_taken_for_heap:
  "find_heap_regions (Some library_row) (replicate MAX_REGION_COUNT r) MAX_REGION_COUNT =
     Ok ((replicate MAX_REGION_COUNT r)[0 := \<lparr>start = 48, end_addr = 64\<rparr>], 1)"
proof -
  have "fgets MAX_BUFFER_SIZE library_row = Some (library_row, [])"
    using heap_row_line(2) [of "[]"] by simp
  then show ?thesis
    using library_row_scanned region_scanned(2)
    by (simp add: find_heap_regions_def scan_rows.simps [of _ library_row] scan_rows_nil scan_row_def
        scanned_str_def store_region_def MMAP_ROW_SIZE_def MAX_REGION_COUNT_def)
qed

end
