(* ===== verification/Backtrace.thy ===== *)
theory Backtrace
  imports Tracker
begin

text \<open>
  The recorder of one allocation or release with its call stack, \<open>src/backtrace.c\<close>, and the
  state of the preloaded library that it shares with \<open>src/preload.c\<close>: the variables of both
  files, and the log writer.
\<close>

section \<open>The state of the preloaded library\<close>

text \<open>A thread-specific key: not created or deleted, or created with its value set or \<open>NULL\<close>.\<close>

datatype key = No_Key | Key bool

text \<open>A \<open>libc_\<close> pointer is \<open>True\<close> when it has been resolved.\<close>

record process =
  pr_tracker :: tracker
  pr_unwind_mutex :: bool
  pr_libc_calloc :: bool
  pr_libc_malloc :: bool
  pr_libc_realloc :: bool
  pr_libc_free :: bool
  pr_libc_dlopen :: bool
  pr_libc_dlclose :: bool
  pr_init_once :: bool
  pr_deinit_once :: bool
  pr_calloc_key :: key
  pr_malloc_key :: key
  pr_realloc_key :: key
  pr_free_key :: key
  pr_is_initialized :: bool

definition lift_tracker :: "(tracker \<Rightarrow> tracker outcome) \<Rightarrow> process \<Rightarrow> process outcome" where
  "lift_tracker f st = and_then (f (pr_tracker st)) (\<lambda>tk. Ok (st\<lparr>pr_tracker := tk\<rparr>))"

section \<open>Unwinding\<close>

definition alloc_format :: string where
  "alloc_format = ''%c 0x%jx %ju'' @ [CHR ''\<newline>'']"

definition frame_format :: string where
  "frame_format = ''b 0x%jx'' @ [CHR ''\<newline>'']"

fun print_frames :: "world \<Rightarrow> u64 list \<Rightarrow> tracker \<Rightarrow> tracker outcome" where
  "print_frames w [] tk = Ok tk"
| "print_frames w (pc # pcs) tk =
     and_then (jm_tracker_fprintf w frame_format [Gp pc] tk) (print_frames w pcs)"

text \<open>
  \<open>usable\<close> is what \<open>malloc_usable_size\<close> returns for the pointer, \<open>trace\<close> what \<open>unw_backtrace\<close>
  finds, and \<open>inside\<close> the calls that \<open>unw_backtrace\<close> makes itself.
\<close>

definition jm_backtrace_unwind ::
    "world \<Rightarrow> bool \<Rightarrow> u64 \<Rightarrow> u64 \<Rightarrow> u64 list \<Rightarrow> (process \<Rightarrow> process outcome) \<Rightarrow> process \<Rightarrow> process outcome"
  where
  "jm_backtrace_unwind w is_alloc ptr usable trace inside st =
     (if pr_unwind_mutex st then Fail Deadlock
      else
        and_then (lift_tracker (jm_tracker_fprintf w alloc_format
                    [Gp_char (opcode_char (if is_alloc then JM_OPCODE_ALLOC else JM_OPCODE_FREE)),
                     Gp ptr, Gp usable]) (st\<lparr>pr_unwind_mutex := True\<rparr>)) (\<lambda>st.
        and_then (inside st) (\<lambda>st.
        and_then (lift_tracker (print_frames w (drop 1 (take MAX_BACKTRACE_COUNT trace))) st) (\<lambda>st.
        Ok (st\<lparr>pr_unwind_mutex := False\<rparr>)))))"

section \<open>The lines written\<close>

definition alloc_line :: "bool \<Rightarrow> u64 \<Rightarrow> u64 \<Rightarrow> string" where
  "alloc_line is_alloc ptr usable =
     (if is_alloc then CHR ''a'' else CHR ''f'') # '' 0x'' @ hex_string (unat ptr) @ '' '' @
       dec_string (unat usable) @ [CHR ''\<newline>'']"

definition frame_line :: "u64 \<Rightarrow> string" where
  "frame_line pc = ''b 0x'' @ hex_string (unat pc) @ [CHR ''\<newline>'']"

definition unwind_lines :: "bool \<Rightarrow> u64 \<Rightarrow> u64 \<Rightarrow> u64 list \<Rightarrow> string list" where
  "unwind_lines is_alloc ptr usable trace =
     alloc_line is_alloc ptr usable # map frame_line (drop 1 (take MAX_BACKTRACE_COUNT trace))"

lemma render_alloc:
  "render 0 alloc_format [Gp_char (opcode_char (if b then JM_OPCODE_ALLOC else JM_OPCODE_FREE)),
      Gp ptr, Gp usable] = Some (alloc_line b ptr usable, [], [])"
  unfolding alloc_format_def alloc_line_def by (simp add: render_opcode render_simps)

lemma render_frame: "render 0 frame_format [Gp pc] = Some (frame_line pc, [], [])"
  unfolding frame_format_def frame_line_def by (simp add: render_simps)

lemma length_alloc_line: "length (alloc_line b ptr usable) \<le> 2025"
  using length_hex_u64 [of ptr] length_dec_u64 [of usable] by (simp add: alloc_line_def)

lemma length_frame_line: "length (frame_line pc) \<le> 2025"
  using length_hex_u64 [of pc] by (simp add: frame_line_def)

lemma print_frames_log:
  assumes "world_ok w" "tracker_ok tk"
  shows "print_frames w pcs tk = Ok (log_all w (map frame_line pcs) tk)"
  using assms(2)
proof (induction pcs arbitrary: tk)
  case (Cons pc pcs)
  have "jm_tracker_fprintf w frame_format [Gp pc] tk = Ok (log_all w [frame_line pc] tk)"
    using fprintf_log [OF assms(1) Cons.prems render_frame length_frame_line] .
  then show ?case using Cons by simp
qed simp

lemma unwind_log:
  assumes "world_ok w" "tracker_ok (pr_tracker st)" "\<not> pr_unwind_mutex st"
    and "inside (st\<lparr>pr_unwind_mutex := True,
             pr_tracker := log_all w [alloc_line is_alloc ptr usable] (pr_tracker st)\<rparr>) =
           Ok (st\<lparr>pr_unwind_mutex := True,
             pr_tracker := log_all w [alloc_line is_alloc ptr usable] (pr_tracker st)\<rparr>)"
  shows "jm_backtrace_unwind w is_alloc ptr usable trace inside st =
     Ok (st\<lparr>pr_tracker := log_all w (unwind_lines is_alloc ptr usable trace) (pr_tracker st)\<rparr>)"
proof -
  have "jm_tracker_fprintf w alloc_format
      [Gp_char (opcode_char (if is_alloc then JM_OPCODE_ALLOC else JM_OPCODE_FREE)),
       Gp ptr, Gp usable] (pr_tracker st) = Ok (log_all w [alloc_line is_alloc ptr usable] (pr_tracker st))"
    using fprintf_log [OF assms(1,2) render_alloc length_alloc_line] .
  then show ?thesis
    using assms by (simp add: jm_backtrace_unwind_def lift_tracker_def print_frames_log unwind_lines_def)
qed

text \<open>The mutex is not recursive: unwinding inside unwinding never returns.\<close>

lemma unwind_locked: "pr_unwind_mutex st \<Longrightarrow>
    jm_backtrace_unwind w is_alloc ptr usable trace inside st = Fail Deadlock"
  by (simp add: jm_backtrace_unwind_def)

section \<open>Properties\<close>

text \<open>Recording an allocation or a release writes one line for it, with the usable size, and
  then one line for each frame of its stack but the innermost, at most 31 of them; the lock and
  the rest of the state come back as they were.\<close>

theorem unwind_writes_trace:
  assumes "world_ok w" "tracker_ok (pr_tracker st)" "\<not> pr_unwind_mutex st"
  shows "jm_backtrace_unwind w is_alloc ptr usable trace Ok st =
     Ok (st\<lparr>pr_tracker := log_all w (alloc_line is_alloc ptr usable #
           map frame_line (drop 1 (take MAX_BACKTRACE_COUNT trace))) (pr_tracker st)\<rparr>) \<and>
    length (drop 1 (take MAX_BACKTRACE_COUNT trace)) \<le> 31"
  using unwind_log [OF assms, of Ok] by (simp add: unwind_lines_def MAX_BACKTRACE_COUNT_def)

definition quiet_world :: world where
  "quiet_world = \<lparr>w_clock = \<lambda>n. (0, of_nat n), w_stack = \<lambda>_. replicate MAX_BUFFER_SIZE NUL,
     w_phdrs = \<lambda>_. [], w_readlink = Some ''/bin/app'', w_open = 3, w_close = 0, w_maps = Some []\<rparr>"

definition ready_process :: process where
  "ready_process =
     \<lparr>pr_tracker = (initial_tracker (stm_setup (0, 0)))\<lparr>tk_fd := 3\<rparr>, pr_unwind_mutex = False,
      pr_libc_calloc = True, pr_libc_malloc = True, pr_libc_realloc = True, pr_libc_free = True,
      pr_libc_dlopen = True, pr_libc_dlclose = True, pr_init_once = True, pr_deinit_once = False,
      pr_calloc_key = Key False, pr_malloc_key = Key False, pr_realloc_key = Key False,
      pr_free_key = Key False, pr_is_initialized = True\<rparr>"

lemma quiet_world_ok: "world_ok quiet_world"
  by (simp add: world_ok_def quiet_world_def)

lemma ready_process_ok: "tracker_ok (pr_tracker ready_process)" "\<not> pr_unwind_mutex ready_process"
  by (simp_all add: ready_process_def tracker_ok_def initial_tracker_def stm_setup_def)

theorem unwind_writes_trace_witness:
  "jm_backtrace_unwind quiet_world True 64 24 [1, 2, 3] Ok ready_process =
     Ok (ready_process\<lparr>pr_tracker := log_all quiet_world (alloc_line True 64 24 #
           map frame_line [2, 3]) (pr_tracker ready_process)\<rparr>)"
  using unwind_writes_trace [OF quiet_world_ok ready_process_ok, of True 64 24 "[1, 2, 3]"]
  by (simp add: MAX_BACKTRACE_COUNT_def del: log_all.simps)

end
