(* ===== verification/Preload.thy ===== *)
theory Preload
  imports Backtrace
begin

text \<open>
  The interposed functions of \<open>src/preload.c\<close>: the allocator, \<open>dlopen\<close> and \<open>dlclose\<close>, the
  initialisation of the library and its handlers of \<open>fork\<close>. A \<open>call\<close> carries what the C
  library answers to it, and the calls that come back into these functions while it runs.
\<close>

section \<open>Calls\<close>

datatype request =
    Calloc u64 u64
  | Malloc u64
  | Realloc u64 u64
  | Free u64
  | Dlopen
  | Dlclose

text \<open>
  The request, the result of the \<open>libc_\<close> function, \<open>malloc_usable_size\<close> of the pointer that is
  recorded, the frames that \<open>unw_backtrace\<close> stores, and the calls made inside: by
  \<open>unw_backtrace\<close>, or by \<open>libc_dlopen\<close> and \<open>libc_dlclose\<close>.
\<close>

datatype call = Call request u64 u64 "u64 list" "call list"

text \<open>The answers of the system to the initialisation; \<open>dlsym\<close> may make calls of its own.\<close>

record system =
  sy_world :: world
  sy_atfork :: int
  sy_atexit :: int
  sy_dlsym :: "string \<Rightarrow> bool \<times> call list"

section \<open>Keys\<close>

fun pthread_getspecific :: "key \<Rightarrow> bool outcome" where
  "pthread_getspecific No_Key = Fail Undefined_Behaviour"
| "pthread_getspecific (Key b) = Ok b"

fun pthread_setspecific :: "key \<Rightarrow> bool \<Rightarrow> key outcome" where
  "pthread_setspecific No_Key b = Fail Undefined_Behaviour"
| "pthread_setspecific (Key _) b = Ok (Key b)"

fun pthread_key_delete :: "key \<Rightarrow> key outcome" where
  "pthread_key_delete No_Key = Fail Undefined_Behaviour"
| "pthread_key_delete (Key _) = Ok No_Key"

fun key_of :: "request \<Rightarrow> process \<Rightarrow> key" where
  "key_of (Calloc _ _) st = pr_calloc_key st"
| "key_of (Malloc _) st = pr_malloc_key st"
| "key_of (Realloc _ _) st = pr_realloc_key st"
| "key_of (Free _) st = pr_free_key st"
| "key_of _ st = No_Key"

fun set_key :: "request \<Rightarrow> key \<Rightarrow> process \<Rightarrow> process" where
  "set_key (Calloc _ _) k st = st\<lparr>pr_calloc_key := k\<rparr>"
| "set_key (Malloc _) k st = st\<lparr>pr_malloc_key := k\<rparr>"
| "set_key (Realloc _ _) k st = st\<lparr>pr_realloc_key := k\<rparr>"
| "set_key (Free _) k st = st\<lparr>pr_free_key := k\<rparr>"
| "set_key _ k st = st"

fun libc_resolved :: "request \<Rightarrow> process \<Rightarrow> bool" where
  "libc_resolved (Calloc _ _) st = pr_libc_calloc st"
| "libc_resolved (Malloc _) st = pr_libc_malloc st"
| "libc_resolved (Realloc _ _) st = pr_libc_realloc st"
| "libc_resolved (Free _) st = pr_libc_free st"
| "libc_resolved Dlopen st = pr_libc_dlopen st"
| "libc_resolved Dlclose st = pr_libc_dlclose st"

section \<open>The interposed functions\<close>

text \<open>
  \<open>if (is_initialized && (pthread_getspecific(key) == NULL)) { ... }\<close>, which the four functions
  of the allocator share: \<open>body\<close> runs with the key set.
\<close>

definition guarded :: "request \<Rightarrow> (process \<Rightarrow> process outcome) \<Rightarrow> process \<Rightarrow> process outcome" where
  "guarded r body st =
     (if \<not> pr_is_initialized st then Ok st
      else
        and_then (pthread_getspecific (key_of r st)) (\<lambda>busy.
        if busy then Ok st
        else
          and_then (pthread_setspecific (key_of r st) True) (\<lambda>k.
          and_then (body (set_key r k st)) (\<lambda>st.
          and_then (pthread_setspecific (key_of r st) False) (\<lambda>k.
          Ok (set_key r k st))))))"

text \<open>\<open>init\<close> is \<open>jm_preload_init\<close>.\<close>

definition ensure_init :: "(process \<Rightarrow> process outcome) \<Rightarrow> request \<Rightarrow> process \<Rightarrow> process outcome" where
  "ensure_init init r st = (if libc_resolved r st then Ok st else init st)"

definition preload_calloc ::
    "world \<Rightarrow> u64 \<Rightarrow> u64 \<Rightarrow> u64 \<Rightarrow> u64 \<Rightarrow> u64 list \<Rightarrow> (process \<Rightarrow> process outcome) \<Rightarrow> process \<Rightarrow> (u64 \<times> process) outcome"
  where
  "preload_calloc w num sz result usable trace inside st =
     and_then (guarded (Calloc num sz) (\<lambda>st.
         and_then (lift_tracker (jm_tracker_update_mappings w) st)
           (jm_backtrace_unwind w True result usable trace inside)) st) (\<lambda>st. Ok (result, st))"

definition preload_malloc ::
    "world \<Rightarrow> u64 \<Rightarrow> u64 \<Rightarrow> u64 \<Rightarrow> u64 list \<Rightarrow> (process \<Rightarrow> process outcome) \<Rightarrow> process \<Rightarrow> (u64 \<times> process) outcome"
  where
  "preload_malloc w sz result usable trace inside st =
     and_then (guarded (Malloc sz) (\<lambda>st.
         and_then (lift_tracker (jm_tracker_update_mappings w) st)
           (jm_backtrace_unwind w True result usable trace inside)) st) (\<lambda>st. Ok (result, st))"

definition preload_realloc ::
    "world \<Rightarrow> u64 \<Rightarrow> u64 \<Rightarrow> u64 \<Rightarrow> u64 \<Rightarrow> u64 list \<Rightarrow> (process \<Rightarrow> process outcome) \<Rightarrow> process \<Rightarrow> (u64 \<times> process) outcome"
  where
  "preload_realloc w ptr new_size result usable trace inside st =
     and_then (guarded (Realloc ptr new_size) (\<lambda>st.
         and_then (lift_tracker (jm_tracker_update_mappings w) st) (\<lambda>st.
         let may_free = (ptr \<noteq> 0 \<and> new_size = 0)
         in jm_backtrace_unwind w (\<not> may_free) result usable trace inside st)) st)
       (\<lambda>st. Ok (result, st))"

definition preload_free ::
    "world \<Rightarrow> u64 \<Rightarrow> u64 \<Rightarrow> u64 list \<Rightarrow> (process \<Rightarrow> process outcome) \<Rightarrow> process \<Rightarrow> (u64 \<times> process) outcome"
  where
  "preload_free w ptr usable trace inside st =
     and_then (guarded (Free ptr) (\<lambda>st.
         if ptr \<noteq> 0 then jm_backtrace_unwind w False ptr usable trace inside st else Ok st) st)
       (\<lambda>st. Ok (0, st))"

definition preload_dlopen :: "u64 \<Rightarrow> (process \<Rightarrow> process outcome) \<Rightarrow> process \<Rightarrow> (u64 \<times> process) outcome" where
  "preload_dlopen result inside st =
     and_then (inside st) (\<lambda>st.
     Ok (result, if result \<noteq> 0 then st\<lparr>pr_tracker := jm_tracker_set_dirty True (pr_tracker st)\<rparr> else st))"

definition preload_dlclose :: "u64 \<Rightarrow> (process \<Rightarrow> process outcome) \<Rightarrow> process \<Rightarrow> (u64 \<times> process) outcome" where
  "preload_dlclose result inside st =
     and_then (inside st) (\<lambda>st.
     Ok (result, if result = 0 then st\<lparr>pr_tracker := jm_tracker_set_dirty True (pr_tracker st)\<rparr> else st))"

fun run_call :: "(process \<Rightarrow> process outcome) \<Rightarrow> world \<Rightarrow> call \<Rightarrow> process \<Rightarrow> (u64 \<times> process) outcome"
and run_calls :: "(process \<Rightarrow> process outcome) \<Rightarrow> world \<Rightarrow> call list \<Rightarrow> process \<Rightarrow> process outcome" where
  "run_call init w (Call r result usable trace nested) st =
     and_then (ensure_init init r st) (\<lambda>st.
     (case r of
        Calloc num sz \<Rightarrow> preload_calloc w num sz result usable trace (run_calls init w nested) st
      | Malloc sz \<Rightarrow> preload_malloc w sz result usable trace (run_calls init w nested) st
      | Realloc ptr new_size \<Rightarrow>
          preload_realloc w ptr new_size result usable trace (run_calls init w nested) st
      | Free ptr \<Rightarrow> preload_free w ptr usable trace (run_calls init w nested) st
      | Dlopen \<Rightarrow> preload_dlopen result (run_calls init w nested) st
      | Dlclose \<Rightarrow> preload_dlclose result (run_calls init w nested) st))"
| "run_calls init w [] st = Ok st"
| "run_calls init w (c # cs) st =
     and_then (run_call init w c st) (\<lambda>(_, st). run_calls init w cs st)"

section \<open>Initialisation\<close>

text \<open>
  While \<open>jm_preload_init_\<close> runs, a call to a function that is not resolved yet enters
  \<open>pthread_once\<close> again for the same control variable, and waits for itself.
\<close>

definition init_reentered :: "process \<Rightarrow> process outcome" where
  "init_reentered st = Fail Deadlock"

definition resolve :: "system \<Rightarrow> string \<Rightarrow> (process \<Rightarrow> process) \<Rightarrow> process \<Rightarrow> process outcome" where
  "resolve sy name store st =
     (case sy_dlsym sy name of (found, calls) \<Rightarrow>
        and_then (run_calls init_reentered (sy_world sy) calls st) (\<lambda>st.
        if found then Ok (store st) else Fail Assertion_Failed))"

definition jm_preload_calloc_init :: "process \<Rightarrow> process outcome" where
  "jm_preload_calloc_init st = Ok (st\<lparr>pr_calloc_key := Key False, pr_libc_calloc := True\<rparr>)"

definition jm_preload_malloc_init :: "system \<Rightarrow> process \<Rightarrow> process outcome" where
  "jm_preload_malloc_init sy st =
     resolve sy ''malloc'' (\<lambda>st. st\<lparr>pr_libc_malloc := True\<rparr>) (st\<lparr>pr_malloc_key := Key False\<rparr>)"

definition jm_preload_realloc_init :: "system \<Rightarrow> process \<Rightarrow> process outcome" where
  "jm_preload_realloc_init sy st =
     resolve sy ''realloc'' (\<lambda>st. st\<lparr>pr_libc_realloc := True\<rparr>) (st\<lparr>pr_realloc_key := Key False\<rparr>)"

definition jm_preload_free_init :: "system \<Rightarrow> process \<Rightarrow> process outcome" where
  "jm_preload_free_init sy st =
     resolve sy ''free'' (\<lambda>st. st\<lparr>pr_libc_free := True\<rparr>) (st\<lparr>pr_free_key := Key False\<rparr>)"

definition jm_preload_dlopen_init :: "system \<Rightarrow> process \<Rightarrow> process outcome" where
  "jm_preload_dlopen_init sy = resolve sy ''dlopen'' (\<lambda>st. st\<lparr>pr_libc_dlopen := True\<rparr>)"

definition jm_preload_dlclose_init :: "system \<Rightarrow> process \<Rightarrow> process outcome" where
  "jm_preload_dlclose_init sy = resolve sy ''dlclose'' (\<lambda>st. st\<lparr>pr_libc_dlclose := True\<rparr>)"

definition preload_setup :: "system \<Rightarrow> process \<Rightarrow> process outcome" where
  "preload_setup sy st =
     (let st = st\<lparr>pr_tracker := (pr_tracker st)\<lparr>tk_stm := stm_setup (w_clock (sy_world sy) (tk_lines (pr_tracker st)))\<rparr>\<rparr>
      in if sy_atfork sy \<noteq> 0 then Fail Assertion_Failed
         else
           and_then (jm_preload_calloc_init st) (\<lambda>st.
           and_then (jm_preload_malloc_init sy st) (\<lambda>st.
           and_then (jm_preload_realloc_init sy st) (\<lambda>st.
           and_then (jm_preload_free_init sy st) (\<lambda>st.
           and_then (jm_preload_dlopen_init sy st) (\<lambda>st.
           and_then (jm_preload_dlclose_init sy st) (\<lambda>st.
           if sy_atexit sy = 0 then Ok (st\<lparr>pr_is_initialized := True\<rparr>)
           else Fail Assertion_Failed)))))))"

definition jm_preload_init :: "system \<Rightarrow> process \<Rightarrow> process outcome" where
  "jm_preload_init sy st =
     and_then (if pr_init_once st then Ok st else preload_setup sy (st\<lparr>pr_init_once := True\<rparr>))
       (lift_tracker (jm_tracker_init (sy_world sy)))"

definition delete_key :: "request \<Rightarrow> process \<Rightarrow> process outcome" where
  "delete_key r st = and_then (pthread_key_delete (key_of r st)) (\<lambda>k. Ok (set_key r k st))"

definition preload_teardown :: "process \<Rightarrow> process outcome" where
  "preload_teardown st =
     and_then (delete_key (Calloc 0 0) st) (\<lambda>st.
     and_then (delete_key (Malloc 0) st) (\<lambda>st.
     and_then (delete_key (Realloc 0 0) st) (\<lambda>st.
     and_then (delete_key (Free 0) st) (\<lambda>st.
     Ok (st\<lparr>pr_is_initialized := False\<rparr>)))))"

definition jm_preload_deinit :: "system \<Rightarrow> process \<Rightarrow> process outcome" where
  "jm_preload_deinit sy st =
     and_then (if pr_deinit_once st then Ok st else preload_teardown (st\<lparr>pr_deinit_once := True\<rparr>))
       (lift_tracker (jm_tracker_deinit (sy_world sy)))"

section \<open>Forking\<close>

definition jm_preload_atfork_prepare :: "process \<Rightarrow> process" where
  "jm_preload_atfork_prepare st = st\<lparr>pr_is_initialized := False\<rparr>"

definition jm_preload_atfork_parent :: "process \<Rightarrow> process" where
  "jm_preload_atfork_parent st = st\<lparr>pr_is_initialized := True\<rparr>"

definition jm_preload_atfork_child :: "system \<Rightarrow> process \<Rightarrow> process outcome" where
  "jm_preload_atfork_child sy = jm_preload_deinit sy"

definition api_call :: "system \<Rightarrow> call \<Rightarrow> process \<Rightarrow> (u64 \<times> process) outcome" where
  "api_call sy = run_call (jm_preload_init sy) (sy_world sy)"

section \<open>The library is transparent\<close>

definition result_of :: "call \<Rightarrow> u64" where
  "result_of c = (case c of Call r result _ _ _ \<Rightarrow> (case r of Free _ \<Rightarrow> 0 | _ \<Rightarrow> result))"

lemma run_call_result: "run_call init w c st = Ok (v, st') \<Longrightarrow> v = result_of c"
  by (cases c)
    (auto simp: and_then_Ok_iff result_of_def preload_calloc_def preload_malloc_def
      preload_realloc_def preload_free_def preload_dlopen_def preload_dlclose_def
      split: request.splits)

section \<open>Guards and locks are released\<close>

text \<open>The state between two calls of the program, after initialisation.\<close>

definition running :: "process \<Rightarrow> bool" where
  "running st \<longleftrightarrow> pr_is_initialized st \<and> \<not> pr_unwind_mutex st \<and> tracker_ok (pr_tracker st) \<and>
     pr_calloc_key st = Key False \<and> pr_malloc_key st = Key False \<and> pr_realloc_key st = Key False \<and>
     pr_free_key st = Key False \<and> pr_libc_calloc st \<and> pr_libc_malloc st \<and> pr_libc_realloc st \<and>
     pr_libc_free st \<and> pr_libc_dlopen st \<and> pr_libc_dlclose st"

text \<open>What a call may not change.\<close>

definition shape :: "process \<Rightarrow> _" where
  "shape st = (pr_unwind_mutex st, pr_libc_calloc st, pr_libc_malloc st, pr_libc_realloc st,
     pr_libc_free st, pr_libc_dlopen st, pr_libc_dlclose st, pr_init_once st, pr_deinit_once st,
     pr_calloc_key st, pr_malloc_key st, pr_realloc_key st, pr_free_key st, pr_is_initialized st,
     tk_fd_mutex (pr_tracker st), tk_stm (pr_tracker st), tk_fd (pr_tracker st),
     tk_init_once (pr_tracker st), tk_deinit_once (pr_tracker st))"

definition resolved :: "process \<Rightarrow> bool" where
  "resolved st \<longleftrightarrow> pr_libc_calloc st \<and> pr_libc_malloc st \<and> pr_libc_realloc st \<and>
     pr_libc_free st \<and> pr_libc_dlopen st \<and> pr_libc_dlclose st"

lemma shape_resolved: "shape st' = shape st \<Longrightarrow> resolved st' \<longleftrightarrow> resolved st"
  by (simp add: shape_def resolved_def)

lemma ensure_init_resolved [simp]: "resolved st \<Longrightarrow> ensure_init init r st = Ok st"
  by (cases r) (simp_all add: ensure_init_def resolved_def)

lemma dl_iterate_phdr_frame_more:
  assumes "dl_iterate_phdr w infos tk = Ok tk'"
  shows "tk_fd_mutex tk' = tk_fd_mutex tk \<and> tk_stm tk' = tk_stm tk \<and> tk_fd tk' = tk_fd tk \<and>
    tk_init_once tk' = tk_init_once tk \<and> tk_deinit_once tk' = tk_deinit_once tk"
  using assms
proof (induction infos arbitrary: tk)
  case (Cons info infos)
  then obtain t where t: "dl_iterate_phdr_callback w info tk = Ok t" "dl_iterate_phdr w infos t = Ok tk'"
    by (auto simp: and_then_Ok_iff)
  show ?case
    using fprintf_frame [OF t(1) [unfolded dl_iterate_phdr_callback_def Let_def]] Cons.IH [OF t(2)]
    by simp
qed simp

lemma print_frames_frame:
  assumes "print_frames w pcs tk = Ok tk'"
  shows "tk_fd_mutex tk' = tk_fd_mutex tk \<and> tk_stm tk' = tk_stm tk \<and> tk_fd tk' = tk_fd tk \<and>
    tk_init_once tk' = tk_init_once tk \<and> tk_deinit_once tk' = tk_deinit_once tk"
  using assms
proof (induction pcs arbitrary: tk)
  case (Cons pc pcs)
  then obtain t where t: "jm_tracker_fprintf w frame_format [Gp pc] tk = Ok t" "print_frames w pcs t = Ok tk'"
    by (auto simp: and_then_Ok_iff)
  show ?case using fprintf_frame [OF t(1)] Cons.IH [OF t(2)] by simp
qed simp

lemma update_mappings_shape:
  assumes "lift_tracker (jm_tracker_update_mappings w) st = Ok st'"
  shows "shape st' = shape st"
proof -
  obtain tk where "jm_tracker_update_mappings w (pr_tracker st) = Ok tk" "st' = st\<lparr>pr_tracker := tk\<rparr>"
    using assms by (auto simp: lift_tracker_def and_then_Ok_iff)
  then show ?thesis
    using dl_iterate_phdr_frame_more
    by (fastforce simp: shape_def jm_tracker_update_mappings_def and_then_Ok_iff Let_def split: if_splits)
qed

lemma fprintf_shape:
  assumes "lift_tracker (jm_tracker_fprintf w format args) st = Ok st'"
  shows "shape st' = shape st"
  using assms fprintf_frame by (auto simp: lift_tracker_def and_then_Ok_iff shape_def)

lemma print_frames_shape:
  assumes "lift_tracker (print_frames w pcs) st = Ok st'"
  shows "shape st' = shape st"
  using assms print_frames_frame by (fastforce simp: lift_tracker_def and_then_Ok_iff shape_def)

lemma unwind_shape:
  assumes "\<And>s s'. resolved s \<Longrightarrow> inside s = Ok s' \<Longrightarrow> shape s' = shape s" "resolved st"
    and "jm_backtrace_unwind w is_alloc ptr usable trace inside st = Ok st'"
  shows "shape st' = shape st"
proof -
  let ?st = "st\<lparr>pr_unwind_mutex := True\<rparr>"
  have free: "\<not> pr_unwind_mutex st" using assms(3) by (auto simp: jm_backtrace_unwind_def)
  obtain s1 s2 s3 where
    s1: "lift_tracker (jm_tracker_fprintf w alloc_format
      [Gp_char (opcode_char (if is_alloc then JM_OPCODE_ALLOC else JM_OPCODE_FREE)), Gp ptr, Gp usable])
      ?st = Ok s1" and s2: "inside s1 = Ok s2"
    and s3: "lift_tracker (print_frames w (drop 1 (take MAX_BACKTRACE_COUNT trace))) s2 = Ok s3"
    and st': "st' = s3\<lparr>pr_unwind_mutex := False\<rparr>"
    using assms(3) free unfolding jm_backtrace_unwind_def by (auto simp: and_then_Ok_iff)
  note s = fprintf_shape [OF s1] s2 print_frames_shape [OF s3] st'
  have "resolved s1" using shape_resolved [OF s(1)] assms(2) by (simp add: resolved_def)
  then have "shape s3 = shape ?st" using s assms(1) by metis
  then show ?thesis using s(4) free by (simp add: shape_def)
qed

lemma set_key_shape:
  assumes "key_of r st = Key False" "shape s = shape (set_key r (Key True) st)"
    and "pthread_setspecific (key_of r s) False = Ok k"
  shows "shape (set_key r k s) = shape st"
  using assms by (cases r; cases "key_of r s") (auto simp: shape_def)

lemma guarded_shape:
  assumes "\<And>s s'. resolved s \<Longrightarrow> body s = Ok s' \<Longrightarrow> shape s' = shape s" "resolved st"
    and "guarded r body st = Ok st'"
  shows "shape st' = shape st"
proof (cases "pr_is_initialized st \<and> key_of r st = Key False")
  case True
  then obtain s k where s: "body (set_key r (Key True) st) = Ok s"
    "pthread_setspecific (key_of r s) False = Ok k" "st' = set_key r k s"
    using assms(3) by (auto simp: guarded_def and_then_Ok_iff)
  have "resolved (set_key r (Key True) st)" using assms(2) by (cases r) (auto simp: resolved_def)
  then show ?thesis using set_key_shape [of r st s k] assms(1) s True by metis
next
  case False
  then have "st' = st"
    using assms(3) by (cases "key_of r st") (auto simp: guarded_def and_then_Ok_iff split: if_splits)
  then show ?thesis by simp
qed

lemma set_dirty_shape [simp]:
  "shape (st\<lparr>pr_tracker := jm_tracker_set_dirty b (pr_tracker st)\<rparr>) = shape st"
  by (simp add: shape_def jm_tracker_set_dirty_def)

lemma record_shape:
  assumes "\<And>s s'. resolved s \<Longrightarrow> inside s = Ok s' \<Longrightarrow> shape s' = shape s" "resolved st"
    and "and_then (lift_tracker (jm_tracker_update_mappings w) st)
           (jm_backtrace_unwind w is_alloc ptr usable trace inside) = Ok st'"
  shows "shape st' = shape st"
  using assms(3) update_mappings_shape shape_resolved assms(2) unwind_shape [OF assms(1)]
  unfolding and_then_Ok_iff by metis

lemma guarded_record_shape:
  assumes "\<And>s s'. resolved s \<Longrightarrow> inside s = Ok s' \<Longrightarrow> shape s' = shape s" "resolved st"
    and "guarded r (\<lambda>st. and_then (lift_tracker (jm_tracker_update_mappings w) st)
           (jm_backtrace_unwind w is_alloc ptr usable trace inside)) st = Ok st'"
  shows "shape st' = shape st"
  by (rule guarded_shape [OF record_shape [OF assms(1)] assms(2,3)])

lemma guarded_free_shape:
  assumes "\<And>s s'. resolved s \<Longrightarrow> inside s = Ok s' \<Longrightarrow> shape s' = shape s" "resolved st"
    and "guarded r (\<lambda>st. if b then jm_backtrace_unwind w is_alloc ptr usable trace inside st
           else Ok st) st = Ok st'"
  shows "shape st' = shape st"
proof (rule guarded_shape [OF _ assms(2,3)])
  fix s s' :: process
  assume "resolved s" "(if b then jm_backtrace_unwind w is_alloc ptr usable trace inside s else Ok s) = Ok s'"
  then show "shape s' = shape s"
    using unwind_shape [where inside = inside and st = s, OF assms(1)] by (cases b) auto
qed

lemma run_call_shape:
  "run_call init w c st = Ok (v, st') \<Longrightarrow> resolved st \<Longrightarrow> shape st' = shape st"
  "run_calls init w cs st = Ok st' \<Longrightarrow> resolved st \<Longrightarrow> shape st' = shape st"
proof (induction init w c st and init w cs st arbitrary: v st' and st' rule: run_call_run_calls.induct)
  case (1 init w r result usable trace nested st)
  have inside: "shape s' = shape s" if "resolved s" "run_calls init w nested s = Ok s'" for s s'
    using 1 that by (cases r) auto
  have called: "shape x = shape st" if "run_calls init w nested st = Ok x" for x
    using inside that 1(8) by blast
  show ?case
  proof (cases r)
    case (Calloc a b)
    then have g: "guarded (Calloc a b) (\<lambda>st. and_then (lift_tracker (jm_tracker_update_mappings w) st)
          (jm_backtrace_unwind w True result usable trace (run_calls init w nested))) st = Ok st'"
      using 1(7,8) by (auto simp: preload_calloc_def and_then_Ok_iff Let_def)
    show ?thesis by (rule guarded_record_shape [OF _ 1(8) g]) (rule inside)
  next
    case (Malloc a)
    then have g: "guarded (Malloc a) (\<lambda>st. and_then (lift_tracker (jm_tracker_update_mappings w) st)
          (jm_backtrace_unwind w True result usable trace (run_calls init w nested))) st = Ok st'"
      using 1(7,8) by (auto simp: preload_malloc_def and_then_Ok_iff Let_def)
    show ?thesis by (rule guarded_record_shape [OF _ 1(8) g]) (rule inside)
  next
    case (Realloc a b)
    then have g: "guarded (Realloc a b) (\<lambda>st. and_then (lift_tracker (jm_tracker_update_mappings w) st)
          (jm_backtrace_unwind w (\<not> (a \<noteq> 0 \<and> b = 0)) result usable trace (run_calls init w nested))) st = Ok st'"
      using 1(7,8) by (auto simp: preload_realloc_def and_then_Ok_iff Let_def)
    show ?thesis by (rule guarded_record_shape [OF _ 1(8) g]) (rule inside)
  next
    case (Free a)
    then have g: "guarded (Free a) (\<lambda>st. if a \<noteq> 0
        then jm_backtrace_unwind w False a usable trace (run_calls init w nested) st else Ok st) st = Ok st'"
      using 1(7,8) by (simp add: preload_free_def and_then_Ok_iff)
    show ?thesis by (rule guarded_free_shape [OF _ 1(8) g]) (rule inside)
  next
    case Dlopen
    then show ?thesis
      using 1(7,8) by (auto simp: preload_dlopen_def and_then_Ok_iff dest: called)
  next
    case Dlclose
    then show ?thesis
      using 1(7,8) by (auto simp: preload_dlclose_def and_then_Ok_iff dest: called)
  qed
next
  case (3 init w c cs st)
  then obtain u s where s: "run_call init w c st = Ok (u, s)" "run_calls init w cs s = Ok st'"
    by (auto simp: and_then_Ok_iff)
  have "shape s = shape st" using 3(1) s(1) 3(4) by blast
  moreover from this have "shape st' = shape s"
    using 3(2) [OF s(2)] 3(4) shape_resolved by blast
  ultimately show ?case by simp
qed simp


lemma running_iff: "running st \<longleftrightarrow> resolved st \<and> pr_is_initialized st \<and> \<not> pr_unwind_mutex st \<and>
    tracker_ok (pr_tracker st) \<and> pr_calloc_key st = Key False \<and> pr_malloc_key st = Key False \<and>
    pr_realloc_key st = Key False \<and> pr_free_key st = Key False"
  by (auto simp: running_def resolved_def)

lemma shape_running: "shape st' = shape st \<Longrightarrow> running st' \<longleftrightarrow> running st"
  by (simp add: shape_def running_def tracker_ok_def)

section \<open>What one call logs\<close>

text \<open>
  A call to a function whose key is set, one of the same kind that is being recorded, goes
  through without a trace, and so do the calls it makes itself.
\<close>

definition same_kind :: "request \<Rightarrow> request \<Rightarrow> bool" where
  "same_kind r r' \<longleftrightarrow> (case (r, r') of (Calloc _ _, Calloc _ _) \<Rightarrow> True | (Malloc _, Malloc _) \<Rightarrow> True
     | (Realloc _ _, Realloc _ _) \<Rightarrow> True | (Free _, Free _) \<Rightarrow> True | _ \<Rightarrow> False)"

definition request_of :: "call \<Rightarrow> request" where
  "request_of c = (case c of Call r _ _ _ _ \<Rightarrow> r)"

lemma busy_call:
  assumes "resolved st" "key_of (request_of c) st = Key True"
  shows "run_call init w c st = Ok (result_of c, st)"
proof -
  obtain r result usable trace nested where c: "c = Call r result usable trace nested"
    by (cases c)
  have "guarded r body st = Ok st" for body
    using assms(2) by (simp add: c request_of_def guarded_def)
  then show ?thesis
    using assms by (cases r) (simp_all add: c request_of_def result_of_def preload_calloc_def
        preload_malloc_def preload_realloc_def preload_free_def)
qed

lemma busy_calls:
  assumes "resolved st" "\<forall>c \<in> set cs. key_of (request_of c) st = Key True"
  shows "run_calls init w cs st = Ok st"
  using assms(2) by (induction cs) (simp_all add: busy_call assms(1))

definition updated :: "world \<Rightarrow> tracker \<Rightarrow> tracker" where
  "updated w tk = (case jm_tracker_update_mappings w tk of Ok tk' \<Rightarrow> tk' | Fail _ \<Rightarrow> tk)"

text \<open>The names of the loaded objects fit a log line.\<close>

definition names_fit :: "world \<Rightarrow> tracker \<Rightarrow> bool" where
  "names_fit w tk \<longleftrightarrow>
     (\<forall>info \<in> set (w_phdrs w (tk_lines tk)). length (shown_name tk (snd info)) \<le> 2000)"

lemma updated_Ok:
  assumes "world_ok w" "tracker_ok tk" "names_fit w tk"
  shows "jm_tracker_update_mappings w tk = Ok (updated w tk)" "tracker_ok (updated w tk)"
proof -
  have "\<exists>tk'. jm_tracker_update_mappings w tk = Ok tk' \<and> tracker_ok tk'"
  proof (cases "tk_dirty_mutex tk \<or> \<not> tk_is_dirty tk")
    case True
    then show ?thesis
      using assms(2) by (auto simp: jm_tracker_update_mappings_def tracker_ok_def Let_def)
  next
    case False
    moreover have "tracker_ok (t\<lparr>tk_is_dirty := b\<rparr>) \<longleftrightarrow> tracker_ok t" for t b
      by (simp add: tracker_ok_def)
    ultimately show ?thesis
      using update_mappings_dirty [of w tk] assms by (simp add: names_fit_def)
  qed
  then show "jm_tracker_update_mappings w tk = Ok (updated w tk)" "tracker_ok (updated w tk)"
    by (auto simp: updated_def)
qed

text \<open>The record of one call: which pointer, and whether as an allocation or a release.\<close>

definition recorded :: "call \<Rightarrow> (bool \<times> u64) option" where
  "recorded c = (case c of Call r result _ _ _ \<Rightarrow>
     (case r of Calloc _ _ \<Rightarrow> Some (True, result) | Malloc _ \<Rightarrow> Some (True, result)
      | Realloc ptr sz \<Rightarrow> Some (\<not> (ptr \<noteq> 0 \<and> sz = 0), result)
      | Free ptr \<Rightarrow> if ptr = 0 then None else Some (False, ptr)
      | _ \<Rightarrow> None))"

definition is_free :: "request \<Rightarrow> bool" where
  "is_free r = (case r of Free _ \<Rightarrow> True | _ \<Rightarrow> False)"

definition call_tracker :: "world \<Rightarrow> call \<Rightarrow> tracker \<Rightarrow> tracker" where
  "call_tracker w c tk =
     (case c of Call r _ usable trace _ \<Rightarrow>
        let tk = (if is_free r then tk else updated w tk)
        in case recorded c of None \<Rightarrow> tk
           | Some (is_alloc, ptr) \<Rightarrow> log_all w (unwind_lines is_alloc ptr usable trace) tk)"

lemma guarded_record:
  assumes "running st" "world_ok w" "names_fit w (pr_tracker st)"
    and "\<forall>c \<in> set nested. same_kind r (request_of c)" "r \<noteq> Dlopen" "r \<noteq> Dlclose"
  shows "guarded r (\<lambda>st. and_then (lift_tracker (jm_tracker_update_mappings w) st)
      (jm_backtrace_unwind w is_alloc ptr usable trace (run_calls init w nested))) st =
    Ok (st\<lparr>pr_tracker := log_all w (unwind_lines is_alloc ptr usable trace) (updated w (pr_tracker st))\<rparr>)"
proof -
  let ?u = "(set_key r (Key True) st)\<lparr>pr_tracker := updated w (pr_tracker st)\<rparr>"
  let ?i = "?u\<lparr>pr_unwind_mutex := True,
      pr_tracker := log_all w [alloc_line is_alloc ptr usable] (pr_tracker ?u)\<rparr>"
  have key: "key_of r st = Key False" "pr_tracker (set_key r (Key True) st) = pr_tracker st"
    using assms(1,5,6) by (cases r; simp add: running_def)+
  have u: "jm_tracker_update_mappings w (pr_tracker st) = Ok (updated w (pr_tracker st))"
    "tracker_ok (pr_tracker ?u)"
    using updated_Ok assms(1-3) by (simp_all add: running_def)
  have mutex: "\<not> pr_unwind_mutex ?u" using assms(1) by (cases r) (simp_all add: running_def)
  have "key_of (request_of c) ?i = Key True" if "c \<in> set nested" for c
    using assms(4) that by (cases r; cases "request_of c") (auto simp: same_kind_def)
  moreover have "resolved ?i"
    using assms(1) by (cases r) (simp_all add: running_def resolved_def)
  ultimately have inside: "run_calls init w nested ?i = Ok ?i" by (intro busy_calls) auto
  have "jm_backtrace_unwind w is_alloc ptr usable trace (run_calls init w nested) ?u =
      Ok (?u\<lparr>pr_tracker := log_all w (unwind_lines is_alloc ptr usable trace) (pr_tracker ?u)\<rparr>)"
    using unwind_log [where st = ?u and inside = "run_calls init w nested", OF assms(2) u(2) mutex inside] .
  then show ?thesis
    using assms(1) key u(1) by (cases r) (simp_all add: guarded_def lift_tracker_def running_def)
qed


lemma guarded_release:
  assumes "running st" "world_ok w" "\<forall>c \<in> set nested. same_kind (Free ptr) (request_of c)" "ptr \<noteq> 0"
  shows "guarded (Free ptr) (\<lambda>st. if ptr \<noteq> 0
      then jm_backtrace_unwind w False ptr usable trace (run_calls init w nested) st else Ok st) st =
    Ok (st\<lparr>pr_tracker := log_all w (unwind_lines False ptr usable trace) (pr_tracker st)\<rparr>)"
proof -
  let ?u = "st\<lparr>pr_free_key := Key True\<rparr>"
  let ?i = "?u\<lparr>pr_unwind_mutex := True,
      pr_tracker := log_all w [alloc_line False ptr usable] (pr_tracker ?u)\<rparr>"
  have u: "tracker_ok (pr_tracker ?u)" "\<not> pr_unwind_mutex ?u" "pr_free_key st = Key False"
    using assms(1) by (simp_all add: running_def)
  have "key_of (request_of c) ?i = Key True" if "c \<in> set nested" for c
    using assms(3) that by (cases "request_of c") (auto simp: same_kind_def)
  moreover have "resolved ?i"
    using assms(1) by (simp add: running_def resolved_def)
  ultimately have inside: "run_calls init w nested ?i = Ok ?i" by (intro busy_calls) auto
  have "jm_backtrace_unwind w False ptr usable trace (run_calls init w nested) ?u =
      Ok (?u\<lparr>pr_tracker := log_all w (unwind_lines False ptr usable trace) (pr_tracker ?u)\<rparr>)"
    using unwind_log [where st = ?u and inside = "run_calls init w nested", OF assms(2) u(1,2) inside] .
  then show ?thesis
    using assms(1,4) u(3) by (simp add: guarded_def running_def)
qed

text \<open>Calls of the allocator whose unwinding makes no call of another kind.\<close>

definition plain_call :: "call \<Rightarrow> bool" where
  "plain_call c \<longleftrightarrow> (case c of Call r _ _ _ nested \<Rightarrow>
     r \<noteq> Dlopen \<and> r \<noteq> Dlclose \<and> list_all (\<lambda>c'. same_kind r (request_of c')) nested)"

lemma run_call_running:
  assumes "running st" "world_ok w" "names_fit w (pr_tracker st)" "plain_call c"
  shows "run_call init w c st = Ok (result_of c, st\<lparr>pr_tracker := call_tracker w c (pr_tracker st)\<rparr>)"
proof -
  obtain r result usable trace nested where c: "c = Call r result usable trace nested"
    by (cases c)
  have nested: "\<forall>c' \<in> set nested. same_kind r (request_of c')" "r \<noteq> Dlopen" "r \<noteq> Dlclose"
    using assms(4) by (simp_all add: plain_call_def c list_all_iff)
  have res: "resolved st" using assms(1) by (simp add: running_iff)
  have idle: "pr_is_initialized st" "pr_free_key st = Key False"
    using assms(1) by (simp_all add: running_def)
  note alloc = guarded_record [OF assms(1-3) nested]
  show ?thesis
  proof (cases r)
    case (Calloc a b)
    then show ?thesis using alloc [of True result usable trace init] res
      by (simp add: c preload_calloc_def call_tracker_def recorded_def is_free_def result_of_def)
  next
    case (Malloc a)
    then show ?thesis using alloc [of True result usable trace init] res
      by (simp add: c preload_malloc_def call_tracker_def recorded_def is_free_def result_of_def)
  next
    case (Realloc a b)
    then show ?thesis using alloc [of "\<not> (a \<noteq> 0 \<and> b = 0)" result usable trace init] res
      by (simp add: c preload_realloc_def call_tracker_def recorded_def is_free_def result_of_def
          Let_def)
  next
    case (Free a)
    show ?thesis
    proof (cases "a = 0")
      case True
      have "st\<lparr>pr_free_key := Key False\<rparr> = st" using idle by simp
      then show ?thesis using Free True res idle
        by (simp add: c preload_free_def call_tracker_def recorded_def is_free_def result_of_def
            guarded_def)
    next
      case False
      then show ?thesis
        using Free guarded_release [OF assms(1,2), of nested a usable trace init] nested res
        by (simp add: c preload_free_def call_tracker_def recorded_def is_free_def result_of_def)
    qed
  qed (use nested in simp_all)
qed

section \<open>Unwinding that allocates\<close>

lemma updated_not_stale:
  assumes "jm_tracker_update_mappings w tk = Ok tk'"
  shows "mappings_of tk' \<noteq> Stale"
  using update_mappings_mappings [OF assms] by (cases "mappings_of tk") auto

lemma update_not_stale: "mappings_of tk \<noteq> Stale \<Longrightarrow> \<exists>tk'. jm_tracker_update_mappings w tk = Ok tk'"
  by (auto simp: mappings_of_def jm_tracker_update_mappings_def Let_def split: if_splits)

definition records :: "request \<Rightarrow> bool" where
  "records r \<longleftrightarrow> (case r of Free ptr \<Rightarrow> ptr \<noteq> 0 | Dlopen \<Rightarrow> False | Dlclose \<Rightarrow> False | _ \<Rightarrow> True)"

lemma mappings_log_all [simp]: "mappings_of (log_all w ss tk) = mappings_of tk"
  by (simp add: mappings_of_def)

lemma locked_call:
  assumes "resolved st" "pr_is_initialized st" "pr_unwind_mutex st" "mappings_of (pr_tracker st) \<noteq> Stale"
    and "key_of r st = Key False" "records r"
  shows "run_call init w (Call r result usable trace nested) st = Fail Deadlock"
proof -
  obtain tk where tk: "jm_tracker_update_mappings w (pr_tracker st) = Ok tk"
    using update_not_stale assms(4) by blast
  have set: "pr_tracker (set_key r k st) = pr_tracker st" "pr_unwind_mutex (set_key r k st)" for k
    using assms(3) by (cases r; simp)+
  have "guarded r (\<lambda>st. and_then (lift_tracker (jm_tracker_update_mappings w) st)
      (jm_backtrace_unwind w b ptr u trace inside)) st = Fail Deadlock" for b ptr u trace inside
    using assms set tk by (simp add: guarded_def lift_tracker_def unwind_locked)
  moreover have "guarded r (\<lambda>st. if True then jm_backtrace_unwind w b ptr u trace inside st else Ok st) st = Fail Deadlock"
    for b ptr u trace inside
    using assms set by (simp add: guarded_def unwind_locked)
  ultimately show ?thesis
    using assms(1,6) by (cases r) (simp_all add: records_def preload_calloc_def preload_malloc_def
        preload_realloc_def preload_free_def Let_def)
qed

lemma nested_deadlock:
  assumes "running st" "world_ok w" "names_fit w (pr_tracker st)"
    and "records r" "\<not> is_free r" "records (request_of c)" "\<not> same_kind r (request_of c)"
  shows "run_call init w (Call r result usable trace (c # cs)) st = Fail Deadlock"
proof -
  let ?u = "(set_key r (Key True) st)\<lparr>pr_tracker := updated w (pr_tracker st)\<rparr>"
  have u: "jm_tracker_update_mappings w (pr_tracker st) = Ok (updated w (pr_tracker st))"
    "tracker_ok (pr_tracker ?u)"
    using updated_Ok assms(1-3) by (simp_all add: running_def)
  have key: "key_of r st = Key False" "pr_tracker (set_key r (Key True) st) = pr_tracker st"
    using assms(1,4) by (cases r; simp add: running_def records_def)+
  have mutex: "\<not> pr_unwind_mutex ?u" using assms(1) by (cases r) (simp_all add: running_def)
  have unwind: "jm_backtrace_unwind w b ptr usable trace (run_calls init w (c # cs)) ?u = Fail Deadlock"
    for b ptr
  proof -
    let ?i = "?u\<lparr>pr_unwind_mutex := True,
        pr_tracker := log_all w [alloc_line b ptr usable] (pr_tracker ?u)\<rparr>"
    obtain r' v' u' t' n' where c: "c = Call r' v' u' t' n'" by (cases c)
    have i: "resolved ?i" "pr_is_initialized ?i" "pr_unwind_mutex ?i" "key_of r' ?i = Key False"
      using assms(1,6,7)
      by (cases r; cases r'; simp add: running_def resolved_def c request_of_def same_kind_def records_def)+
    have "mappings_of (pr_tracker ?i) \<noteq> Stale"
      using updated_not_stale [OF u(1)] by (simp del: log_all.simps)
    then have "run_call init w c ?i = Fail Deadlock"
      unfolding c using i assms(6) by (intro locked_call) (auto simp: c request_of_def)
    moreover have "jm_tracker_fprintf w alloc_format
      [Gp_char (opcode_char (if b then JM_OPCODE_ALLOC else JM_OPCODE_FREE)), Gp ptr, Gp usable]
        (pr_tracker ?u) = Ok (log_all w [alloc_line b ptr usable] (pr_tracker ?u))"
      using fprintf_log [OF assms(2) u(2) render_alloc length_alloc_line] .
    ultimately show ?thesis
      using mutex by (simp add: jm_backtrace_unwind_def lift_tracker_def)
  qed
  have "guarded r (\<lambda>st. and_then (lift_tracker (jm_tracker_update_mappings w) st)
      (jm_backtrace_unwind w b ptr usable trace (run_calls init w (c # cs)))) st = Fail Deadlock" for b ptr
    using assms(1) key u(1) unwind by (simp add: guarded_def lift_tracker_def running_def del: run_call.simps run_calls.simps)
  then show ?thesis
    using assms(1,4,5) by (cases r) (simp_all add: running_iff records_def is_free_def preload_calloc_def
        preload_malloc_def preload_realloc_def Let_def del: run_calls.simps)
qed

section \<open>Initialisation and the end\<close>

definition initial_process :: process where
  "initial_process =
     \<lparr>pr_tracker = initial_tracker \<lparr>stm_initialized = 0, stm_start = 0\<rparr>, pr_unwind_mutex = False,
      pr_libc_calloc = False, pr_libc_malloc = False, pr_libc_realloc = False, pr_libc_free = False,
      pr_libc_dlopen = False, pr_libc_dlclose = False, pr_init_once = False, pr_deinit_once = False,
      pr_calloc_key = No_Key, pr_malloc_key = No_Key, pr_realloc_key = No_Key, pr_free_key = No_Key,
      pr_is_initialized = True\<rparr>"

text \<open>A system on which the initialisation has no obstacle.\<close>

definition plain_system :: "system \<Rightarrow> bool" where
  "plain_system sy \<longleftrightarrow> world_ok (sy_world sy) \<and> sy_atfork sy = 0 \<and> sy_atexit sy = 0 \<and>
     list_all (\<lambda>name. sy_dlsym sy name = (True, [])) [''malloc'', ''realloc'', ''free'', ''dlopen'', ''dlclose'']"

lemma preload_setup_plain:
  assumes "plain_system sy" "\<not> pr_init_once st" "\<not> tk_fd_mutex (pr_tracker st)" "\<not> pr_unwind_mutex st"
  shows "preload_setup sy st = Ok st' \<Longrightarrow> running st'"
    and "\<exists>st'. preload_setup sy st = Ok st'"
  using assms
  by (auto simp: preload_setup_def plain_system_def jm_preload_calloc_init_def jm_preload_malloc_init_def
      jm_preload_realloc_init_def jm_preload_free_init_def jm_preload_dlopen_init_def
      jm_preload_dlclose_init_def resolve_def running_def tracker_ok_def stm_setup_def)

lemma exec_path_read:
  assumes "length target \<le> 2000" "NUL \<notin> set target"
  shows "read_exec_path (Some target) (replicate (PATH_MAX + 1) NUL) =
      Ok (target @ replicate (PATH_MAX + 1 - length target) NUL)"
    and "c_string (target @ replicate (PATH_MAX + 1 - length target) NUL) = target"
proof -
  have "takeWhile (\<lambda>c. c \<noteq> NUL) (replicate n NUL) = []" for n by (cases n) auto
  then show "c_string (target @ replicate (PATH_MAX + 1 - length target) NUL) = target"
    using assms by (simp add: c_string_def takeWhile_append)
  show "read_exec_path (Some target) (replicate (PATH_MAX + 1) NUL) =
      Ok (target @ replicate (PATH_MAX + 1 - length target) NUL)"
    using assms(1) by (simp add: read_exec_path_def PATH_MAX_def)
qed

definition setup_tracker :: "system \<Rightarrow> tracker" where
  "setup_tracker sy = initial_tracker (stm_setup (w_clock (sy_world sy) 0))"

lemma init_running:
  assumes "plain_system sy" "w_readlink (sy_world sy) = Some target" "length target \<le> 2000"
    and "NUL \<notin> set target"
  shows "\<exists>st. jm_preload_init sy initial_process = Ok st \<and> running st \<and>
    tk_writes (pr_tracker st) =
      [(w_open (sy_world sy), stamp (setup_tracker sy) (sy_world sy) @ module_line CHR ''x'' 0 target)]"
proof -
  let ?w = "sy_world sy"
  let ?st = "initial_process\<lparr>pr_init_once := True\<rparr>"
  let ?init = "setup_tracker sy"
  obtain st where st: "preload_setup sy ?st = Ok st" "running st" "pr_tracker st = ?init"
    using assms(1)
    by (auto simp: preload_setup_def plain_system_def jm_preload_calloc_init_def jm_preload_malloc_init_def
      jm_preload_realloc_init_def jm_preload_free_init_def jm_preload_dlopen_init_def
      jm_preload_dlclose_init_def resolve_def running_def tracker_ok_def stm_setup_def
      initial_process_def initial_tracker_def setup_tracker_def)
  let ?path = "target @ replicate (PATH_MAX + 1 - length target) NUL"
  let ?tk = "?init\<lparr>tk_init_once := True, tk_exec_path := ?path, tk_fd := w_open ?w\<rparr>"
  have ok: "tracker_ok ?tk" by (simp add: tracker_ok_def setup_tracker_def initial_tracker_def stm_setup_def)
  have "length (module_line CHR ''x'' 0 target) \<le> 2025"
    using length_module_line [of "CHR ''x''" 0 target] assms(3) by simp
  then have line: "jm_tracker_fprintf ?w exec_path_format
      [Gp_char CHR ''x'', Gp 0, Gp_str target] ?tk = Ok (log_all ?w [module_line CHR ''x'' 0 target] ?tk)"
    unfolding exec_path_format_def
    using assms(1,3) ok by (intro fprintf_log [OF _ _ render_module]) (auto simp: plain_system_def)
  have "jm_tracker_init ?w ?init = Ok (log_all ?w [module_line CHR ''x'' 0 target] ?tk)"
  proof -
    have path: "read_exec_path (w_readlink ?w) (tk_exec_path (?init\<lparr>tk_init_once := True\<rparr>)) = Ok ?path"
      using exec_path_read(1) [OF assms(3,4)] assms(2)
      by (simp add: setup_tracker_def initial_tracker_def del: replicate.simps add_Suc_right One_nat_def Nat.add_0_right)
    have "tracker_open ?w (?init\<lparr>tk_init_once := True\<rparr>) = Ok (log_all ?w [module_line CHR ''x'' 0 target] ?tk)"
      using line unfolding tracker_open_def path and_then.simps exec_path_read(2) [OF assms(3,4)]
        opcode_char.simps .
    moreover have "\<not> tk_init_once ?init" by (simp add: setup_tracker_def initial_tracker_def)
    ultimately show ?thesis by (simp only: jm_tracker_init_def if_False)
  qed
  moreover have "\<not> pr_init_once initial_process" by (simp add: initial_process_def)
  ultimately have "jm_preload_init sy initial_process =
      Ok (st\<lparr>pr_tracker := log_all ?w [module_line CHR ''x'' 0 target] ?tk\<rparr>)"
    using st by (simp add: jm_preload_init_def lift_tracker_def)
  moreover have "running (st\<lparr>pr_tracker := log_all ?w [module_line CHR ''x'' 0 target] ?tk\<rparr>)"
    using st(2) ok by (simp add: running_def del: log_all.simps)
  moreover have "stamp ?tk ?w = stamp ?init ?w" by (simp add: stamp_def)
  moreover have "tk_writes ?init = []" by (simp add: setup_tracker_def initial_tracker_def)
  ultimately show ?thesis by (simp add: logged_def)
qed

text \<open>After the end, or while a fork is prepared, the allocator is not recorded.\<close>

lemma uninitialized_call:
  assumes "resolved st" "\<not> pr_is_initialized st" "request_of c \<noteq> Dlopen" "request_of c \<noteq> Dlclose"
  shows "run_call init w c st = Ok (result_of c, st)"
proof -
  obtain r result usable trace nested where c: "c = Call r result usable trace nested" by (cases c)
  have "guarded r body st = Ok st" for body using assms(2) by (simp add: guarded_def)
  then show ?thesis
    using assms by (cases r) (simp_all add: c request_of_def result_of_def preload_calloc_def
        preload_malloc_def preload_realloc_def preload_free_def)
qed

lemma teardown_running:
  assumes "running st"
  shows "preload_teardown st = Ok (st\<lparr>pr_calloc_key := No_Key, pr_malloc_key := No_Key,
    pr_realloc_key := No_Key, pr_free_key := No_Key, pr_is_initialized := False\<rparr>)"
  using assms by (simp add: preload_teardown_def delete_key_def running_def)

lemma deinit_then_call:
  assumes "running st" "\<not> pr_deinit_once st" "jm_preload_deinit sy st = Ok st'"
    and "request_of c \<noteq> Dlopen" "request_of c \<noteq> Dlclose"
  shows "api_call sy c st' = Ok (result_of c, st')"
proof -
  obtain s tk where s: "preload_teardown (st\<lparr>pr_deinit_once := True\<rparr>) = Ok s" "st' = s\<lparr>pr_tracker := tk\<rparr>"
    using assms(2,3) by (auto simp: jm_preload_deinit_def lift_tracker_def and_then_Ok_iff)
  have "running (st\<lparr>pr_deinit_once := True\<rparr>)" using assms(1) by (simp add: running_def)
  then have "resolved st'" "\<not> pr_is_initialized st'"
    using s teardown_running assms(1) by (auto simp: running_def resolved_def)
  then show ?thesis unfolding api_call_def using uninitialized_call assms(4,5) by blast
qed

text \<open>A fork after the end: the parent records again, with keys that are deleted.\<close>

lemma fork_after_deinit:
  assumes "running st" "\<not> pr_deinit_once st" "jm_preload_deinit sy st = Ok st'"
    and "request_of c \<noteq> Dlopen" "request_of c \<noteq> Dlclose"
  shows "api_call sy c (jm_preload_atfork_parent (jm_preload_atfork_prepare st')) = Fail Undefined_Behaviour"
proof -
  obtain s tk where s: "preload_teardown (st\<lparr>pr_deinit_once := True\<rparr>) = Ok s" "st' = s\<lparr>pr_tracker := tk\<rparr>"
    using assms(2,3) by (auto simp: jm_preload_deinit_def lift_tracker_def and_then_Ok_iff)
  let ?s = "jm_preload_atfork_parent (jm_preload_atfork_prepare st')"
  obtain r result usable trace nested where c: "c = Call r result usable trace nested" by (cases c)
  have "running (st\<lparr>pr_deinit_once := True\<rparr>)" using assms(1) by (simp add: running_def)
  then have "resolved ?s" "pr_is_initialized ?s" "key_of r ?s = No_Key"
    using s teardown_running assms(1)
    by (cases r; auto simp: running_def resolved_def jm_preload_atfork_parent_def jm_preload_atfork_prepare_def)+
  then have "resolved ?s" "guarded r body ?s = Fail Undefined_Behaviour" for body
    by (auto simp: guarded_def)
  then show ?thesis
    using assms(4,5) by (cases r) (simp_all add: api_call_def c request_of_def preload_calloc_def
        preload_malloc_def preload_realloc_def preload_free_def)
qed

section \<open>Properties\<close>

lemma ready_running: "running ready_process"
  using ready_process_ok by (simp add: running_def) (simp add: ready_process_def)

lemma quiet_names: "names_fit quiet_world tk"
  by (simp add: names_fit_def quiet_world_def)

lemma ready_call:
  "plain_call c \<Longrightarrow> run_call init quiet_world c ready_process =
     Ok (result_of c, ready_process\<lparr>pr_tracker := call_tracker quiet_world c (pr_tracker ready_process)\<rparr>)"
  by (rule run_call_running [OF ready_running quiet_world_ok quiet_names])

definition quiet_system :: system where
  "quiet_system = \<lparr>sy_world = quiet_world, sy_atfork = 0, sy_atexit = 0, sy_dlsym = \<lambda>_. (True, [])\<rparr>"

lemma quiet_plain: "plain_system quiet_system"
  using quiet_world_ok by (simp add: plain_system_def quiet_system_def)

lemma ready_deinit: "\<exists>st. jm_preload_deinit quiet_system ready_process = Ok st"
proof -
  have "scan_rows n [] hs = Ok hs" for n hs by (simp add: scan_rows_nil)
  then show ?thesis
    by (auto simp: jm_preload_deinit_def preload_teardown_def delete_key_def ready_process_def
        lift_tracker_def jm_tracker_deinit_def tracker_close_def find_heap_regions_def
        initial_tracker_def quiet_system_def quiet_world_def)
qed



text \<open>Between two calls no guard is set and no lock is held: whatever calls come back into the
  library while one runs, a call that returns leaves the four keys, both locks, the resolved functions and the
  descriptor of the log as it found them.\<close>

theorem guards_released:
  assumes "running st" "api_call sy c st = Ok (v, st')"
  shows "running st' \<and> tk_fd (pr_tracker st') = tk_fd (pr_tracker st)"
proof -
  have "shape st' = shape st"
    using assms run_call_shape(1) unfolding api_call_def running_iff by blast
  moreover from this have "running st' \<longleftrightarrow> running st" by (rule shape_running)
  ultimately show ?thesis using assms(1) by (simp add: shape_def)
qed

theorem guards_released_witness:
  "\<exists>st'. api_call quiet_system (Call (Realloc 64 20) 96 24 [1, 2] [Call (Realloc 0 8) 32 8 [] []]) ready_process =
     Ok (96, st') \<and> running st' \<and> tk_fd (pr_tracker st') = 3"
proof -
  let ?c = "Call (Realloc 64 20) 96 24 [1, 2] [Call (Realloc 0 8) 32 8 [] []]"
  obtain st' where run: "api_call quiet_system ?c ready_process = Ok (96, st')"
    using ready_call [of ?c]
    by (auto simp: plain_call_def same_kind_def request_of_def result_of_def api_call_def quiet_system_def
        simp del: run_call.simps)
  have "tk_fd (pr_tracker ready_process) = 3" by (simp add: ready_process_def)
  then show ?thesis using guards_released [OF ready_running run] run by auto
qed

text \<open>C26: a call of the allocator logs exactly its record, after the modules when they are stale,
  and succeeds: also when its unwinding comes back into the same function, which is then neither
  recorded nor blocked.\<close>

theorem call_writes_record:
  assumes "running st" "world_ok (sy_world sy)" "names_fit (sy_world sy) (pr_tracker st)" "plain_call c"
  shows "api_call sy c st =
    Ok (result_of c, st\<lparr>pr_tracker := call_tracker (sy_world sy) c (pr_tracker st)\<rparr>)"
  unfolding api_call_def by (rule run_call_running [OF assms])

theorem call_writes_record_witness:
  "\<exists>tk. api_call quiet_system (Call (Calloc 2 4) 64 24 [1, 2] [Call (Calloc 1 1) 128 24 [] []]) ready_process =
     Ok (64, ready_process\<lparr>pr_tracker := log_all quiet_world [alloc_line True 64 24, frame_line 2] tk\<rparr>)"
proof -
  let ?c = "Call (Calloc 2 4) 64 24 [1, 2] [Call (Calloc 1 1) 128 24 [] []]"
  have "api_call quiet_system ?c ready_process = Ok (result_of ?c,
      ready_process\<lparr>pr_tracker := call_tracker quiet_world ?c (pr_tracker ready_process)\<rparr>)"
    using call_writes_record [OF ready_running, of quiet_system ?c] quiet_world_ok quiet_names
    by (simp add: quiet_system_def plain_call_def same_kind_def request_of_def)
  then show ?thesis
    by (auto simp: result_of_def call_tracker_def recorded_def is_free_def unwind_lines_def
        MAX_BACKTRACE_COUNT_def Let_def simp del: log_all.simps)
qed

text \<open>The keys are one for each function but the lock of the unwinder is shared: when the
  unwinding of an allocation calls an allocator function of another kind, that call waits for the lock its own
  thread holds, and the program hangs.\<close>

theorem unwinding_another_kind_hangs:
  assumes "running st" "world_ok (sy_world sy)" "names_fit (sy_world sy) (pr_tracker st)"
    and "records r" "\<not> is_free r" "records (request_of c)" "\<not> same_kind r (request_of c)"
  shows "api_call sy (Call r result usable trace (c # cs)) st = Fail Deadlock"
  unfolding api_call_def by (rule nested_deadlock [OF assms])

theorem unwinding_another_kind_hangs_witness:
  "api_call quiet_system (Call (Malloc 8) 64 24 [1] [Call (Calloc 1 8) 128 24 [] []]) ready_process = Fail Deadlock"
  by (rule unwinding_another_kind_hangs)
    (simp_all add: ready_running quiet_system_def quiet_world_ok quiet_names records_def is_free_def
      request_of_def same_kind_def)

text \<open>Loading the library resolves the functions, creates the keys, opens the log and writes
  the path of the program as its first line; from then on calls are recorded.\<close>

theorem init_opens_log:
  assumes "plain_system sy" "w_readlink (sy_world sy) = Some target" "length target \<le> 2000"
    and "NUL \<notin> set target"
  shows "\<exists>st. jm_preload_init sy initial_process = Ok st \<and> running st \<and>
    tk_writes (pr_tracker st) =
      [(w_open (sy_world sy), stamp (setup_tracker sy) (sy_world sy) @ module_line CHR ''x'' 0 target)]"
  by (rule init_running [OF assms])

theorem init_opens_log_witness:
  "\<exists>st. jm_preload_init quiet_system initial_process = Ok st \<and> running st \<and>
    tk_writes (pr_tracker st) = [(3, stamp (setup_tracker quiet_system) quiet_world @ module_line CHR ''x'' 0 ''/bin/app'')]"
  using init_opens_log [OF quiet_plain, of "''/bin/app''"] by (simp add: quiet_system_def quiet_world_def)

text \<open>After the library is unloaded the allocator still serves the program, unrecorded.\<close>

theorem deinit_stops_recording:
  assumes "running st" "\<not> pr_deinit_once st" "jm_preload_deinit sy st = Ok st'"
    and "request_of c \<noteq> Dlopen" "request_of c \<noteq> Dlclose"
  shows "api_call sy c st' = Ok (result_of c, st')"
  by (rule deinit_then_call [OF assms])

theorem deinit_stops_recording_witness:
  "\<exists>st'. jm_preload_deinit quiet_system ready_process = Ok st' \<and>
     api_call quiet_system (Call (Free 64) 0 0 [] []) st' = Ok (0, st')"
proof -
  obtain st' where d: "jm_preload_deinit quiet_system ready_process = Ok st'" using ready_deinit by blast
  have "api_call quiet_system (Call (Free 64) 0 0 [] []) st' = Ok (result_of (Call (Free 64) 0 0 [] []), st')"
    by (rule deinit_stops_recording [OF ready_running _ d]) (simp_all add: ready_process_def request_of_def)
  then show ?thesis using d by (simp add: result_of_def)
qed

text \<open>The handler of \<open>fork\<close> in the parent turns recording on without asking whether it was
  on: a fork after the library is unloaded makes the next call of the allocator use a deleted key.\<close>

theorem fork_after_deinit_undefined:
  assumes "running st" "\<not> pr_deinit_once st" "jm_preload_deinit sy st = Ok st'"
    and "request_of c \<noteq> Dlopen" "request_of c \<noteq> Dlclose"
  shows "api_call sy c (jm_preload_atfork_parent (jm_preload_atfork_prepare st')) = Fail Undefined_Behaviour"
  by (rule fork_after_deinit [OF assms])

theorem fork_after_deinit_undefined_witness:
  "\<exists>st'. jm_preload_deinit quiet_system ready_process = Ok st' \<and>
     api_call quiet_system (Call (Malloc 8) 64 24 [] []) (jm_preload_atfork_parent (jm_preload_atfork_prepare st')) =
       Fail Undefined_Behaviour"
proof -
  obtain st' where d: "jm_preload_deinit quiet_system ready_process = Ok st'" using ready_deinit by blast
  have "api_call quiet_system (Call (Malloc 8) 64 24 [] []) (jm_preload_atfork_parent (jm_preload_atfork_prepare st')) =
      Fail Undefined_Behaviour"
    by (rule fork_after_deinit_undefined [OF ready_running _ d]) (simp_all add: ready_process_def request_of_def)
  then show ?thesis using d by blast
qed

end
