(* ===== verification/Uthash.thy ===== *)
theory Uthash
  imports Prelude "HOL-Library.Multiset"
begin

text \<open>
  The hash table of \<open>src/external/uthash.h\<close>, as \<open>src/interpret.c\<close> instantiates it: eight-byte
  keys, Jenkins' hash function, no Bloom filter, \<open>HASH_DEBUG\<close> on, out of memory fatal. The chains
  of the buckets and the application order are lists of items; an item is the hash handle of an
  entry, with the entry's number in place of its address.
\<close>

section \<open>Hashing\<close>

definition HASH_JEN_MIX :: "u32 \<times> u32 \<times> u32 \<Rightarrow> u32 \<times> u32 \<times> u32" where
  "HASH_JEN_MIX = (\<lambda>(a, b, c).
     let a = a - b; a = a - c; a = a XOR drop_bit 13 c;
         b = b - c; b = b - a; b = b XOR push_bit 8 a;
         c = c - a; c = c - b; c = c XOR drop_bit 13 b;
         a = a - b; a = a - c; a = a XOR drop_bit 12 c;
         b = b - c; b = b - a; b = b XOR push_bit 16 a;
         c = c - a; c = c - b; c = c XOR drop_bit 5 b;
         a = a - b; a = a - c; a = a XOR drop_bit 3 c;
         b = b - c; b = b - a; b = b XOR push_bit 10 a;
         c = c - a; c = c - b; c = c XOR drop_bit 15 b
     in (a, b, c))"

text \<open>Byte \<open>i\<close> of the key, shifted into place.\<close>

definition key_byte :: "u8 list \<Rightarrow> nat \<Rightarrow> nat \<Rightarrow> u32" where
  "key_byte key i s = push_bit s (ucast (key ! i))"

fun jen_blocks :: "u8 list \<Rightarrow> u32 \<times> u32 \<times> u32 \<Rightarrow> u8 list \<times> u32 \<times> u32 \<times> u32" where
  "jen_blocks key (i, j, hashv) =
     (if length key < 12 then (key, i, j, hashv)
      else
        jen_blocks (drop 12 key) (HASH_JEN_MIX
          (i + (key_byte key 0 0 + key_byte key 1 8 + key_byte key 2 16 + key_byte key 3 24),
           j + (key_byte key 4 0 + key_byte key 5 8 + key_byte key 6 16 + key_byte key 7 24),
           hashv + (key_byte key 8 0 + key_byte key 9 8 + key_byte key 10 16 + key_byte key 11 24))))"

declare jen_blocks.simps [simp del]

text \<open>The \<open>switch\<close> on the bytes that are left, each case falling through to the next.\<close>

definition left_byte :: "u8 list \<Rightarrow> nat \<Rightarrow> nat \<Rightarrow> u32" where
  "left_byte key i s = (if i < length key then key_byte key i s else 0)"

definition HASH_JEN :: "u8 list \<Rightarrow> u32" where
  "HASH_JEN key =
     (case jen_blocks key (0x9e3779b9, 0x9e3779b9, 0xfeedbeef) of (rest, i, j, hashv) \<Rightarrow>
        let hashv = hashv + of_nat (length key) + left_byte rest 10 24 + left_byte rest 9 16 +
                      left_byte rest 8 8;
            j = j + left_byte rest 7 24 + left_byte rest 6 16 + left_byte rest 5 8 + left_byte rest 4 0;
            i = i + left_byte rest 3 24 + left_byte rest 2 16 + left_byte rest 1 8 + left_byte rest 0 0
        in snd (snd (HASH_JEN_MIX (i, j, hashv))))"

text \<open>The bytes of a pointer in memory.\<close>

definition ptr_bytes :: "u64 \<Rightarrow> u8 list" where
  "ptr_bytes p = map (\<lambda>i. ucast (drop_bit (8 * i) p)) [0..<8]"

definition HASH_VALUE :: "u64 \<Rightarrow> u32" where
  "HASH_VALUE p = HASH_JEN (ptr_bytes p)"

section \<open>Tables\<close>

record item =
  it_id :: nat
  it_key :: u64
  it_hashv :: u32

record bucket =
  bk_chain :: "item list"
  bk_count :: u32
  bk_expand_mult :: u32

record hash_table =
  ht_buckets :: "bucket list"
  ht_num_buckets :: u32
  ht_log2_num_buckets :: u32
  ht_num_items :: u32
  ht_ideal_chain_maxlen :: u32
  ht_nonideal_items :: u32
  ht_ineff_expands :: u32
  ht_noexpand :: bool

text \<open>A hash is the items in application order with their table; the empty one has no table.\<close>

record hash =
  h_items :: "item list"
  h_tbl :: hash_table

definition HASH_INITIAL_NUM_BUCKETS :: u32 where "HASH_INITIAL_NUM_BUCKETS = 32"
definition HASH_INITIAL_NUM_BUCKETS_LOG2 :: u32 where "HASH_INITIAL_NUM_BUCKETS_LOG2 = 5"
definition HASH_BKT_CAPACITY_THRESH :: u32 where "HASH_BKT_CAPACITY_THRESH = 10"

definition empty_bucket :: bucket where
  "empty_bucket = \<lparr>bk_chain = [], bk_count = 0, bk_expand_mult = 0\<rparr>"

text \<open>\<open>mem\<close> tells whether \<open>malloc\<close> grants so many bytes.\<close>

type_synonym memory = "nat \<Rightarrow> bool"

definition uthash_malloc :: "memory \<Rightarrow> nat \<Rightarrow> unit outcome" where
  "uthash_malloc mem n = (if mem n then Ok () else Fail Exit_Called)"

definition sizeof_table :: nat where "sizeof_table = 64"
definition sizeof_bucket :: nat where "sizeof_bucket = 16"

definition HASH_MAKE_TABLE :: "memory \<Rightarrow> hash_table outcome" where
  "HASH_MAKE_TABLE mem =
     and_then (uthash_malloc mem sizeof_table) (\<lambda>_.
     and_then (uthash_malloc mem (unat HASH_INITIAL_NUM_BUCKETS * sizeof_bucket)) (\<lambda>_.
     Ok \<lparr>ht_buckets = replicate (unat HASH_INITIAL_NUM_BUCKETS) empty_bucket,
         ht_num_buckets = HASH_INITIAL_NUM_BUCKETS,
         ht_log2_num_buckets = HASH_INITIAL_NUM_BUCKETS_LOG2,
         ht_num_items = 0, ht_ideal_chain_maxlen = 0, ht_nonideal_items = 0, ht_ineff_expands = 0,
         ht_noexpand = False\<rparr>))"

definition HASH_TO_BKT :: "u32 \<Rightarrow> u32 \<Rightarrow> nat" where
  "HASH_TO_BKT hashv num_bkts = unat (hashv AND (num_bkts - 1))"

section \<open>Expansion\<close>

record expansion =
  ex_buckets :: "bucket list"
  ex_nonideal :: u32

text \<open>One round of the \<open>while (_he_thh != NULL)\<close> loop.\<close>

definition expand_item :: "u32 \<Rightarrow> u32 \<Rightarrow> item \<Rightarrow> expansion \<Rightarrow> expansion outcome" where
  "expand_item ideal num_bkts it ex =
     (let b = HASH_TO_BKT (it_hashv it) num_bkts
      in if length (ex_buckets ex) \<le> b then Fail Undefined_Behaviour
         else
           (let bk = ex_buckets ex ! b;
                count = bk_count bk + 1;
                over = ideal < count;
                mult = (if over \<and> bk_expand_mult bk * ideal < count then bk_expand_mult bk + 1
                        else bk_expand_mult bk)
            in Ok \<lparr>ex_buckets = (ex_buckets ex)
                      [b := \<lparr>bk_chain = it # bk_chain bk, bk_count = count, bk_expand_mult = mult\<rparr>],
                   ex_nonideal = (if over then ex_nonideal ex + 1 else ex_nonideal ex)\<rparr>))"

fun expand_items :: "u32 \<Rightarrow> u32 \<Rightarrow> item list \<Rightarrow> expansion \<Rightarrow> expansion outcome" where
  "expand_items ideal num_bkts [] ex = Ok ex"
| "expand_items ideal num_bkts (it # its) ex =
     and_then (expand_item ideal num_bkts it ex) (expand_items ideal num_bkts its)"

text \<open>The outer loop visits the chains of the old buckets in order.\<close>

definition HASH_EXPAND_BUCKETS :: "memory \<Rightarrow> hash_table \<Rightarrow> hash_table outcome" where
  "HASH_EXPAND_BUCKETS mem t =
     and_then (uthash_malloc mem (sizeof_bucket * unat (ht_num_buckets t) * 2)) (\<lambda>_.
     let new_num = ht_num_buckets t * 2;
         ideal = drop_bit (unat (ht_log2_num_buckets t + 1)) (ht_num_items t) +
                   (if ht_num_items t AND (new_num - 1) \<noteq> 0 then 1 else 0)
     in and_then (expand_items ideal new_num
            (concat (map bk_chain (take (unat (ht_num_buckets t)) (ht_buckets t))))
            \<lparr>ex_buckets = replicate (unat (ht_num_buckets t) * 2) empty_bucket, ex_nonideal = 0\<rparr>) (\<lambda>ex.
        let ineff = (if drop_bit 1 (ht_num_items t) < ex_nonideal ex then ht_ineff_expands t + 1 else 0)
        in Ok (t\<lparr>ht_buckets := ex_buckets ex, ht_num_buckets := new_num,
                 ht_log2_num_buckets := ht_log2_num_buckets t + 1,
                 ht_ideal_chain_maxlen := ideal, ht_nonideal_items := ex_nonideal ex,
                 ht_ineff_expands := ineff, ht_noexpand := ht_noexpand t \<or> 1 < ineff\<rparr>)))"

section \<open>Adding, finding, deleting\<close>

definition HASH_ADD_TO_BKT :: "memory \<Rightarrow> nat \<Rightarrow> item \<Rightarrow> hash_table \<Rightarrow> hash_table outcome" where
  "HASH_ADD_TO_BKT mem b it t =
     (if length (ht_buckets t) \<le> b then Fail Undefined_Behaviour
      else
        (let bk = ht_buckets t ! b;
             bk = bk\<lparr>bk_chain := it # bk_chain bk, bk_count := bk_count bk + 1\<rparr>;
             t = t\<lparr>ht_buckets := (ht_buckets t)[b := bk]\<rparr>
         in if (bk_expand_mult bk + 1) * HASH_BKT_CAPACITY_THRESH \<le> bk_count bk \<and> \<not> ht_noexpand t
            then HASH_EXPAND_BUCKETS mem t else Ok t))"

definition HASH_ADD_TO_TABLE :: "memory \<Rightarrow> item \<Rightarrow> hash_table \<Rightarrow> hash_table outcome" where
  "HASH_ADD_TO_TABLE mem it t =
     (let t = t\<lparr>ht_num_items := ht_num_items t + 1\<rparr>
      in HASH_ADD_TO_BKT mem (HASH_TO_BKT (it_hashv it) (ht_num_buckets t)) it t)"

text \<open>\<open>HASH_FSCK\<close> counts the items of the chains and of the application order.\<close>

definition HASH_FSCK :: "hash option \<Rightarrow> hash option outcome" where
  "HASH_FSCK h =
     (case h of
        None \<Rightarrow> Ok None
      | Some h' \<Rightarrow>
          (let t = h_tbl h'; bks = take (unat (ht_num_buckets t)) (ht_buckets t)
           in if length bks < unat (ht_num_buckets t) then Fail Undefined_Behaviour
              else if list_all (\<lambda>bk. bk_count bk = of_nat (length (bk_chain bk))) bks \<and>
                ht_num_items t = of_nat (length (concat (map bk_chain bks))) \<and>
                ht_num_items t = of_nat (length (h_items h'))
              then Ok h else Fail Exit_Called))"

definition HASH_ADD_PTR :: "memory \<Rightarrow> nat \<Rightarrow> u64 \<Rightarrow> hash option \<Rightarrow> hash option outcome" where
  "HASH_ADD_PTR mem i key head =
     (let it = \<lparr>it_id = i, it_key = key, it_hashv = HASH_VALUE key\<rparr>
      in and_then (case head of
             None \<Rightarrow> and_then (HASH_MAKE_TABLE mem) (\<lambda>t. Ok \<lparr>h_items = [it], h_tbl = t\<rparr>)
           | Some h \<Rightarrow> Ok (h\<lparr>h_items := h_items h @ [it]\<rparr>)) (\<lambda>h.
         and_then (HASH_ADD_TO_TABLE mem it (h_tbl h)) (\<lambda>t.
         HASH_FSCK (Some (h\<lparr>h_tbl := t\<rparr>)))))"

fun HASH_FIND_IN_BKT :: "item list \<Rightarrow> u64 \<Rightarrow> u32 \<Rightarrow> nat option" where
  "HASH_FIND_IN_BKT [] key hashv = None"
| "HASH_FIND_IN_BKT (it # its) key hashv =
     (if it_hashv it = hashv \<and> it_key it = key then Some (it_id it)
      else HASH_FIND_IN_BKT its key hashv)"

definition HASH_FIND_PTR :: "hash option \<Rightarrow> u64 \<Rightarrow> nat option outcome" where
  "HASH_FIND_PTR head key =
     (case head of
        None \<Rightarrow> Ok None
      | Some h \<Rightarrow>
          (let hashv = HASH_VALUE key; b = HASH_TO_BKT hashv (ht_num_buckets (h_tbl h))
           in if length (ht_buckets (h_tbl h)) \<le> b then Fail Undefined_Behaviour
              else Ok (HASH_FIND_IN_BKT (bk_chain (ht_buckets (h_tbl h) ! b)) key hashv)))"

definition HASH_DEL_IN_BKT :: "nat \<Rightarrow> item \<Rightarrow> hash_table \<Rightarrow> hash_table outcome" where
  "HASH_DEL_IN_BKT b it t =
     (if length (ht_buckets t) \<le> b then Fail Undefined_Behaviour
      else
        (let bk = ht_buckets t ! b
         in Ok (t\<lparr>ht_buckets := (ht_buckets t)
                   [b := bk\<lparr>bk_chain := remove1 it (bk_chain bk), bk_count := bk_count bk - 1\<rparr>]\<rparr>)))"

text \<open>The table is freed with its last item.\<close>

definition HASH_DELETE :: "item \<Rightarrow> hash \<Rightarrow> hash option outcome" where
  "HASH_DELETE it h =
     (if h_items h = [it] then HASH_FSCK None
      else
        and_then (HASH_DEL_IN_BKT (HASH_TO_BKT (it_hashv it) (ht_num_buckets (h_tbl h))) it (h_tbl h))
          (\<lambda>t. HASH_FSCK (Some \<lparr>h_items = remove1 it (h_items h),
                               h_tbl = t\<lparr>ht_num_items := ht_num_items t - 1\<rparr>\<rparr>)))"

text \<open>\<open>HASH_ITER\<close> with a deletion of each entry: the successor is read before the deletion.\<close>

fun HASH_CLEAR_LOOP :: "item list \<Rightarrow> hash option \<Rightarrow> hash option outcome" where
  "HASH_CLEAR_LOOP [] head = Ok head"
| "HASH_CLEAR_LOOP (it # its) head =
     (case head of None \<Rightarrow> Fail Undefined_Behaviour
      | Some h \<Rightarrow> and_then (HASH_DELETE it h) (HASH_CLEAR_LOOP its))"

definition HASH_CLEAR_ALL :: "hash option \<Rightarrow> hash option outcome" where
  "HASH_CLEAR_ALL head = HASH_CLEAR_LOOP (case head of None \<Rightarrow> [] | Some h \<Rightarrow> h_items h) head"

section \<open>The invariant\<close>

lemma unat_two_power:
  assumes "k < 32"
  shows "unat ((2 :: u32) ^ k) = 2 ^ k"
proof -
  have "(2 :: nat) ^ k < 2 ^ 32" using assms by (rule power_strict_increasing) simp
  then show ?thesis using unat_of_nat_u32 [of "2 ^ k"] by simp
qed

lemma HASH_TO_BKT_mod:
  assumes "k < 32"
  shows "HASH_TO_BKT hashv (2 ^ k) = unat hashv mod 2 ^ k"
proof -
  have "(2 :: u32) ^ k - 1 = mask k" by (simp add: mask_eq_exp_minus_1)
  then have "hashv AND (2 ^ k - 1) = take_bit k hashv" by (simp add: take_bit_eq_mask)
  moreover have "unat (take_bit k hashv) = take_bit k (unat hashv)"
    by (simp only: unsigned_take_bit_eq)
  ultimately show ?thesis by (simp only: HASH_TO_BKT_def take_bit_eq_mod [of k "unat hashv"])
qed

text \<open>A chain is counted, and holds items that hash to its bucket.\<close>

definition chain_ok :: "u32 \<Rightarrow> nat \<Rightarrow> bucket \<Rightarrow> bool" where
  "chain_ok num b bk \<longleftrightarrow> bk_count bk = of_nat (length (bk_chain bk)) \<and>
     (\<forall>it \<in> set (bk_chain bk). HASH_TO_BKT (it_hashv it) num = b)"

definition chains_ok :: "u32 \<Rightarrow> bucket list \<Rightarrow> bool" where
  "chains_ok num bks \<longleftrightarrow> length bks = unat num \<and> (\<forall>b < length bks. chain_ok num b (bks ! b))"

definition items_of :: "bucket list \<Rightarrow> item list" where
  "items_of bks = concat (map bk_chain bks)"

text \<open>The shape of a table, and that its items are counted.\<close>

definition shape_ok :: "hash_table \<Rightarrow> bool" where
  "shape_ok t \<longleftrightarrow> ht_num_buckets t = 2 ^ unat (ht_log2_num_buckets t) \<and>
     unat (ht_log2_num_buckets t) < 32 \<and> chains_ok (ht_num_buckets t) (ht_buckets t)"

definition table_ok :: "hash_table \<Rightarrow> bool" where
  "table_ok t \<longleftrightarrow> ht_num_buckets t = 2 ^ unat (ht_log2_num_buckets t) \<and>
     unat (ht_log2_num_buckets t) < 32 \<and> chains_ok (ht_num_buckets t) (ht_buckets t) \<and>
     ht_num_items t = of_nat (length (items_of (ht_buckets t)))"

definition hash_ok :: "hash option \<Rightarrow> bool" where
  "hash_ok head \<longleftrightarrow> (case head of None \<Rightarrow> True
     | Some h \<Rightarrow> h_items h \<noteq> [] \<and> table_ok (h_tbl h) \<and>
         mset (items_of (ht_buckets (h_tbl h))) = mset (h_items h) \<and>
         (\<forall>it \<in> set (h_items h). it_hashv it = HASH_VALUE (it_key it)))"

definition items :: "hash option \<Rightarrow> item list" where
  "items head = (case head of None \<Rightarrow> [] | Some h \<Rightarrow> h_items h)"

lemma table_ok_iff: "table_ok t \<longleftrightarrow> shape_ok t \<and> ht_num_items t = of_nat (length (items_of (ht_buckets t)))"
  by (auto simp: table_ok_def shape_ok_def)

lemma shape_ok_counted [simp]: "shape_ok (t\<lparr>ht_num_items := n\<rparr>) \<longleftrightarrow> shape_ok t"
  by (simp add: shape_ok_def)

lemma mset_concat_update:
  "b < length xs \<Longrightarrow> mset (concat (map f (xs[b := y]))) + mset (f (xs ! b)) =
     mset (concat (map f xs)) + mset (f y)"
proof (induction xs arbitrary: b)
  case (Cons x xs)
  show ?case
  proof (cases b)
    case (Suc n)
    have "mset (concat (map f (xs[n := y]))) + mset (f (xs ! n)) = mset (concat (map f xs)) + mset (f y)"
      by (rule Cons.IH) (use Cons.prems Suc in simp)
    then show ?thesis using Suc by (simp add: add.assoc add.left_commute)
  qed simp
qed simp

lemma items_of_push:
  assumes "b < length bks" "bk_chain bk = it # bk_chain (bks ! b)"
  shows "mset (items_of (bks[b := bk])) = add_mset it (mset (items_of bks))"
  using mset_concat_update [OF assms(1), of bk_chain bk] assms(2)
  by (simp add: items_of_def union_mset_add_mset_right)

lemma chains_ok_push:
  assumes "chains_ok num bks" "HASH_TO_BKT (it_hashv it) num = b" "b < length bks"
    and "bk_chain bk = it # bk_chain (bks ! b)" "bk_count bk = bk_count (bks ! b) + 1"
  shows "chains_ok num (bks[b := bk])"
  using assms by (auto simp: chains_ok_def chain_ok_def nth_list_update)

lemma bucket_in_range:
  assumes "k < 32" "chains_ok (2 ^ k) bks"
  shows "HASH_TO_BKT hashv (2 ^ k) < length bks"
  using assms by (simp add: HASH_TO_BKT_mod chains_ok_def unat_two_power)

lemma expand_item_ok:
  assumes "k < 32" "chains_ok (2 ^ k) (ex_buckets ex)"
  shows "\<exists>ex'. expand_item ideal (2 ^ k) it ex = Ok ex' \<and> chains_ok (2 ^ k) (ex_buckets ex') \<and>
    mset (items_of (ex_buckets ex')) = add_mset it (mset (items_of (ex_buckets ex)))"
proof -
  let ?b = "HASH_TO_BKT (it_hashv it) (2 ^ k)"
  let ?bk = "ex_buckets ex ! ?b"
  have b: "?b < length (ex_buckets ex)" using bucket_in_range assms by simp
  define mult where "mult = (if ideal < bk_count ?bk + 1 \<and> bk_expand_mult ?bk * ideal < bk_count ?bk + 1
      then bk_expand_mult ?bk + 1 else bk_expand_mult ?bk)"
  define bk where "bk = \<lparr>bk_chain = it # bk_chain ?bk, bk_count = bk_count ?bk + 1, bk_expand_mult = mult\<rparr>"
  have "\<exists>n. expand_item ideal (2 ^ k) it ex = Ok \<lparr>ex_buckets = (ex_buckets ex)[?b := bk], ex_nonideal = n\<rparr>"
    using b by (auto simp: expand_item_def Let_def bk_def mult_def)
  moreover have "chains_ok (2 ^ k) ((ex_buckets ex)[?b := bk])"
    using assms(2) b by (intro chains_ok_push) (auto simp: bk_def)
  moreover have "mset (items_of ((ex_buckets ex)[?b := bk])) = add_mset it (mset (items_of (ex_buckets ex)))"
    using b by (intro items_of_push) (auto simp: bk_def)
  ultimately show ?thesis by auto
qed

lemma expand_items_ok:
  assumes "k < 32" "chains_ok (2 ^ k) (ex_buckets ex)"
  shows "\<exists>ex'. expand_items ideal (2 ^ k) its ex = Ok ex' \<and> chains_ok (2 ^ k) (ex_buckets ex') \<and>
    mset (items_of (ex_buckets ex')) = mset its + mset (items_of (ex_buckets ex))"
  using assms(2)
proof (induction its arbitrary: ex)
  case (Cons it its)
  obtain ex1 where 1: "expand_item ideal (2 ^ k) it ex = Ok ex1" "chains_ok (2 ^ k) (ex_buckets ex1)"
    "mset (items_of (ex_buckets ex1)) = add_mset it (mset (items_of (ex_buckets ex)))"
    using expand_item_ok [OF assms(1) Cons.prems] by blast
  with Cons.IH [OF 1(2)] show ?case by auto
qed simp

lemma chains_ok_empty: "chains_ok num (replicate (unat num) empty_bucket)"
  by (simp add: chains_ok_def chain_ok_def empty_bucket_def)

lemma items_of_empty [simp]: "items_of (replicate n empty_bucket) = []"
  by (simp add: items_of_def empty_bucket_def)

lemma HASH_EXPAND_BUCKETS_ok:
  assumes "shape_ok t" "unat (ht_log2_num_buckets t) < 31"
    and "mem (sizeof_bucket * unat (ht_num_buckets t) * 2)"
  shows "\<exists>t'. HASH_EXPAND_BUCKETS mem t = Ok t' \<and> shape_ok t' \<and> ht_num_items t' = ht_num_items t \<and>
    ht_log2_num_buckets t' = ht_log2_num_buckets t + 1 \<and>
    mset (items_of (ht_buckets t')) = mset (items_of (ht_buckets t))"
proof -
  let ?l = "unat (ht_log2_num_buckets t)"
  have num: "ht_num_buckets t = 2 ^ ?l" "length (ht_buckets t) = 2 ^ ?l"
    using assms(1) by (auto simp: shape_ok_def chains_ok_def unat_two_power)
  have num2: "ht_num_buckets t * 2 = 2 ^ Suc ?l" "unat (ht_num_buckets t) * 2 = unat ((2 :: u32) ^ Suc ?l)"
    using assms(2) num by (simp_all add: unat_two_power del: power_Suc) simp_all
  have log: "unat (ht_log2_num_buckets t + 1) = Suc ?l"
    using assms(2) by (intro unat_Suc_less [of _ 31]) (simp add: word_less_nat_alt)
  define ideal where "ideal = drop_bit (unat (ht_log2_num_buckets t + 1)) (ht_num_items t) +
      (if ht_num_items t AND (ht_num_buckets t * 2 - 1) \<noteq> 0 then 1 else 0)"
  let ?ex = "\<lparr>ex_buckets = replicate (unat (ht_num_buckets t) * 2) empty_bucket, ex_nonideal = 0\<rparr>"
  have "\<exists>ex. expand_items ideal (2 ^ Suc ?l) (items_of (ht_buckets t)) ?ex = Ok ex \<and>
      chains_ok (2 ^ Suc ?l) (ex_buckets ex) \<and>
      mset (items_of (ex_buckets ex)) = mset (items_of (ht_buckets t)) + mset (items_of (ex_buckets ?ex))"
    using assms(2) chains_ok_empty by (intro expand_items_ok) (auto simp only: num2 expansion.simps)
  then obtain ex where ex0: "expand_items ideal (2 ^ Suc ?l) (items_of (ht_buckets t)) ?ex = Ok ex"
      "chains_ok (2 ^ Suc ?l) (ex_buckets ex)" "mset (items_of (ex_buckets ex)) = mset (items_of (ht_buckets t))"
    by auto
  have chains: "concat (map bk_chain (take (unat (ht_num_buckets t)) (ht_buckets t))) = items_of (ht_buckets t)"
    using num assms(2) by (simp add: items_of_def unat_two_power)
  note ex = ex0(1) [folded num2(1) chains] ex0(2,3)
  have "\<exists>ineff noexp. HASH_EXPAND_BUCKETS mem t = Ok (t\<lparr>ht_buckets := ex_buckets ex,
      ht_num_buckets := ht_num_buckets t * 2, ht_log2_num_buckets := ht_log2_num_buckets t + 1,
      ht_ideal_chain_maxlen := ideal, ht_nonideal_items := ex_nonideal ex,
      ht_ineff_expands := ineff, ht_noexpand := noexp\<rparr>)"
    unfolding HASH_EXPAND_BUCKETS_def Let_def ideal_def [symmetric]
    by (simp only: uthash_malloc_def assms(3) if_True and_then.simps ex(1)) blast
  then show ?thesis
    using assms(1,2) ex(2,3) num2(1) log by (auto simp: shape_ok_def)
qed


text \<open>A machine that cannot give a table of 64 gigabytes.\<close>

definition limited :: "memory \<Rightarrow> bool" where
  "limited mem \<longleftrightarrow> (\<forall>n. mem n \<longrightarrow> n < 2 ^ 36)"

definition growth_granted :: "memory \<Rightarrow> hash_table \<Rightarrow> bool" where
  "growth_granted mem t \<longleftrightarrow> mem (sizeof_bucket * unat (ht_num_buckets t) * 2)"

lemma growth_log2:
  assumes "shape_ok t" "limited mem" "growth_granted mem t"
  shows "unat (ht_log2_num_buckets t) < 31"
proof (rule ccontr)
  assume "\<not> unat (ht_log2_num_buckets t) < 31"
  then have "unat (ht_num_buckets t) = 2 ^ 31"
    using assms(1) unat_two_power [of 31]
    by (auto simp: shape_ok_def not_less dest: le_antisym)
  moreover have "sizeof_bucket * unat (ht_num_buckets t) * 2 < 2 ^ 36"
    using assms(2,3) by (simp only: limited_def growth_granted_def)
  ultimately show False by (simp add: sizeof_bucket_def)
qed

lemma HASH_ADD_TO_BKT_cases:
  fixes it :: item
  assumes "shape_ok t" "limited mem"
  defines "b \<equiv> HASH_TO_BKT (it_hashv it) (ht_num_buckets t)"
  shows "HASH_ADD_TO_BKT mem b it t = Fail Exit_Called \<and> \<not> growth_granted mem t \<or>
    (\<exists>t'. HASH_ADD_TO_BKT mem b it t = Ok t' \<and> shape_ok t' \<and> ht_num_items t' = ht_num_items t \<and>
       mset (items_of (ht_buckets t')) = add_mset it (mset (items_of (ht_buckets t))))"
proof -
  let ?l = "unat (ht_log2_num_buckets t)"
  have num: "ht_num_buckets t = 2 ^ ?l" "chains_ok (2 ^ ?l) (ht_buckets t)" "?l < 32"
    using assms(1) by (auto simp: shape_ok_def)
  have b: "b < length (ht_buckets t)" using bucket_in_range [OF num(3,2)] num(1) by (simp add: b_def)
  define bk where "bk = (ht_buckets t ! b)\<lparr>bk_chain := it # bk_chain (ht_buckets t ! b),
      bk_count := bk_count (ht_buckets t ! b) + 1\<rparr>"
  define t1 where "t1 = t\<lparr>ht_buckets := (ht_buckets t)[b := bk]\<rparr>"
  have items1: "mset (items_of (ht_buckets t1)) = add_mset it (mset (items_of (ht_buckets t)))"
    unfolding t1_def using b by (simp add: items_of_push bk_def)
  have "chains_ok (ht_num_buckets t) ((ht_buckets t)[b := bk])"
    using num b by (intro chains_ok_push [where it = it]) (auto simp: bk_def b_def)
  then have ok1: "shape_ok t1"
    using assms(1) by (simp add: shape_ok_def t1_def)
  have step: "HASH_ADD_TO_BKT mem b it t =
      (if (bk_expand_mult bk + 1) * HASH_BKT_CAPACITY_THRESH \<le> bk_count bk \<and> \<not> ht_noexpand t1
       then HASH_EXPAND_BUCKETS mem t1 else Ok t1)"
    using b by (simp add: HASH_ADD_TO_BKT_def Let_def bk_def t1_def)
  show ?thesis
  proof (cases "growth_granted mem t")
    case True
    then have "growth_granted mem t1" by (simp add: growth_granted_def t1_def)
    then obtain t2 where "HASH_EXPAND_BUCKETS mem t1 = Ok t2" "shape_ok t2" "ht_num_items t2 = ht_num_items t1"
      "mset (items_of (ht_buckets t2)) = mset (items_of (ht_buckets t1))"
      using HASH_EXPAND_BUCKETS_ok [OF ok1 growth_log2 [OF ok1 assms(2)]]
      by (auto simp: growth_granted_def)
    then show ?thesis using step ok1 items1 by (auto simp: t1_def)
  next
    case False
    then have "HASH_EXPAND_BUCKETS mem t1 = Fail Exit_Called"
      by (simp add: HASH_EXPAND_BUCKETS_def uthash_malloc_def growth_granted_def t1_def)
    then show ?thesis using False step ok1 items1 by (auto simp: t1_def)
  qed
qed

lemma HASH_ADD_TO_TABLE_cases:
  assumes "table_ok t" "limited mem"
  shows "HASH_ADD_TO_TABLE mem it t = Fail Exit_Called \<and> \<not> growth_granted mem t \<or>
    (\<exists>t'. HASH_ADD_TO_TABLE mem it t = Ok t' \<and> table_ok t' \<and>
       mset (items_of (ht_buckets t')) = add_mset it (mset (items_of (ht_buckets t))))"
proof -
  let ?t = "t\<lparr>ht_num_items := ht_num_items t + 1\<rparr>"
  have "shape_ok ?t" using assms(1) by (simp add: table_ok_iff)
  moreover have "table_ok t'" if "shape_ok t'" "ht_num_items t' = ht_num_items t + 1"
    "mset (items_of (ht_buckets t')) = add_mset it (mset (items_of (ht_buckets t)))" for t'
  proof -
    have "length (items_of (ht_buckets t')) = Suc (length (items_of (ht_buckets t)))"
      using arg_cong [OF that(3), of size] by simp
    then show ?thesis using that(1,2) assms(1) by (simp add: table_ok_iff)
  qed
  ultimately show ?thesis
    using HASH_ADD_TO_BKT_cases [of ?t mem it] assms
    by (fastforce simp: HASH_ADD_TO_TABLE_def growth_granted_def)
qed

lemma HASH_FSCK_ok:
  assumes "hash_ok head"
  shows "HASH_FSCK head = Ok head"
proof (cases head)
  case (Some h)
  let ?t = "h_tbl h"
  have ok: "table_ok ?t" "mset (items_of (ht_buckets ?t)) = mset (h_items h)"
    using assms Some by (auto simp: hash_ok_def)
  have "length (ht_buckets ?t) = unat (ht_num_buckets ?t)" "ht_num_items ?t = of_nat (length (items_of (ht_buckets ?t)))"
    "\<forall>bk \<in> set (ht_buckets ?t). bk_count bk = of_nat (length (bk_chain bk))"
    using ok(1) by (auto simp: table_ok_def chains_ok_def chain_ok_def in_set_conv_nth)
  moreover have "length (items_of (ht_buckets ?t)) = length (h_items h)"
    using ok(2) by (metis size_mset)
  ultimately show ?thesis
    using Some by (simp add: HASH_FSCK_def Let_def list_all_iff items_of_def)
qed (simp add: HASH_FSCK_def)

lemma HASH_MAKE_TABLE_cases:
  "HASH_MAKE_TABLE mem = Fail Exit_Called \<and> \<not> (mem sizeof_table \<and> mem (32 * sizeof_bucket)) \<or>
   (\<exists>t. HASH_MAKE_TABLE mem = Ok t \<and> table_ok t \<and> ht_num_buckets t = 32 \<and> items_of (ht_buckets t) = [])"
  using chains_ok_empty [of 32]
  by (auto simp: HASH_MAKE_TABLE_def uthash_malloc_def and_then_def
      HASH_INITIAL_NUM_BUCKETS_def HASH_INITIAL_NUM_BUCKETS_LOG2_def table_ok_def)

text \<open>Memory for the table, and for twice as many buckets.\<close>

definition granted :: "memory \<Rightarrow> hash option \<Rightarrow> bool" where
  "granted mem head \<longleftrightarrow> (case head of
     None \<Rightarrow> mem sizeof_table \<and> mem (32 * sizeof_bucket) \<and> mem (64 * sizeof_bucket)
   | Some h \<Rightarrow> growth_granted mem (h_tbl h))"

lemma HASH_ADD_PTR_cases:
  assumes "hash_ok head" "limited mem"
  shows "HASH_ADD_PTR mem i key head = Fail Exit_Called \<and> \<not> granted mem head \<or>
    (\<exists>head'. HASH_ADD_PTR mem i key head = Ok head' \<and> hash_ok head' \<and>
       items head' = items head @ [\<lparr>it_id = i, it_key = key, it_hashv = HASH_VALUE key\<rparr>])"
proof -
  let ?it = "\<lparr>it_id = i, it_key = key, it_hashv = HASH_VALUE key\<rparr>"
  define linked where "linked = (case head of
             None \<Rightarrow> and_then (HASH_MAKE_TABLE mem) (\<lambda>t. Ok \<lparr>h_items = [?it], h_tbl = t\<rparr>)
           | Some h \<Rightarrow> Ok (h\<lparr>h_items := h_items h @ [?it]\<rparr>))"
  have add: "HASH_ADD_PTR mem i key head = and_then linked (\<lambda>h.
         and_then (HASH_ADD_TO_TABLE mem ?it (h_tbl h)) (\<lambda>t. HASH_FSCK (Some (h\<lparr>h_tbl := t\<rparr>))))"
    by (simp add: HASH_ADD_PTR_def linked_def Let_def)
  consider "linked = Fail Exit_Called" "\<not> granted mem head"
    | t where "linked = Ok \<lparr>h_items = items head @ [?it], h_tbl = t\<rparr>" "table_ok t"
        "granted mem head \<Longrightarrow> growth_granted mem t" "mset (items_of (ht_buckets t)) = mset (items head)"
  proof (cases head)
    case None
    have "growth_granted mem t \<longleftrightarrow> mem (64 * sizeof_bucket)" if "ht_num_buckets t = 32" for t
      using that by (simp add: growth_granted_def mult.commute)
    then show ?thesis
      using HASH_MAKE_TABLE_cases [of mem] that None
      by (auto simp: linked_def granted_def items_def)
  next
    case (Some h)
    then show ?thesis
      using assms(1) that(2) [of "h_tbl h"]
      by (cases h) (simp add: items_def hash_ok_def linked_def granted_def)
  qed
  then show ?thesis
  proof cases
    case 1
    then show ?thesis by (simp add: add)
  next
    case (2 t)
    note linked = 2
    consider "HASH_ADD_TO_TABLE mem ?it t = Fail Exit_Called" "\<not> growth_granted mem t"
      | t' where "HASH_ADD_TO_TABLE mem ?it t = Ok t'" "table_ok t'"
          "mset (items_of (ht_buckets t')) = add_mset ?it (mset (items head))"
      using HASH_ADD_TO_TABLE_cases [OF 2(2) assms(2), of ?it] 2(4) by auto
    then show ?thesis
    proof cases
      case 1
      then show ?thesis using linked(1,3) by (auto simp: add)
    next
      case (2 t')
      let ?h = "Some \<lparr>h_items = items head @ [?it], h_tbl = t'\<rparr>"
      have "it_hashv it = HASH_VALUE (it_key it)" if "it \<in> set (items head)" for it
        using assms(1) that by (auto simp: hash_ok_def items_def split: option.splits)
      then have "hash_ok ?h" using 2(2,3) by (auto simp: hash_ok_def)
      then show ?thesis
        using linked(1) 2(1) HASH_FSCK_ok [of ?h] by (simp add: add items_def)
    qed
  qed
qed

section \<open>Finding\<close>

lemma HASH_FIND_IN_BKT_find:
  "HASH_FIND_IN_BKT its key hashv =
     map_option it_id (find (\<lambda>it. it_hashv it = hashv \<and> it_key it = key) its)"
  by (induction its) auto

lemma chain_items:
  assumes "table_ok t"
  shows "it \<in> set (bk_chain (ht_buckets t ! HASH_TO_BKT (it_hashv it) (ht_num_buckets t))) \<longleftrightarrow>
    it \<in> set (items_of (ht_buckets t))"
proof -
  let ?b = "HASH_TO_BKT (it_hashv it) (ht_num_buckets t)"
  have b: "?b < length (ht_buckets t)" using assms bucket_in_range by (auto simp: table_ok_def)
  have "b = ?b" if "b < length (ht_buckets t)" "it \<in> set (bk_chain (ht_buckets t ! b))" for b
    using assms that by (auto simp: table_ok_def chains_ok_def chain_ok_def)
  moreover have "it \<in> set (items_of (ht_buckets t)) \<longleftrightarrow>
      (\<exists>b < length (ht_buckets t). it \<in> set (bk_chain (ht_buckets t ! b)))"
    by (simp add: items_of_def) (metis in_set_conv_nth)
  ultimately show ?thesis using b by metis
qed

lemma HASH_FIND_PTR_ok:
  assumes "hash_ok head"
  shows "\<exists>r. HASH_FIND_PTR head key = Ok r \<and>
    (case r of None \<Rightarrow> \<forall>it \<in> set (items head). it_key it \<noteq> key
     | Some i \<Rightarrow> \<exists>it \<in> set (items head). it_key it = key \<and> it_id it = i)"
proof (cases head)
  case (Some h)
  let ?t = "h_tbl h"
  let ?b = "HASH_TO_BKT (HASH_VALUE key) (ht_num_buckets ?t)"
  let ?chain = "bk_chain (ht_buckets ?t ! ?b)"
  let ?P = "\<lambda>it. it_hashv it = HASH_VALUE key \<and> it_key it = key"
  have ok: "table_ok ?t" "set (items_of (ht_buckets ?t)) = set (h_items h)"
    "\<forall>it \<in> set (h_items h). it_hashv it = HASH_VALUE (it_key it)"
    using assms Some by (auto simp: hash_ok_def dest: mset_eq_setD)
  have b: "?b < length (ht_buckets ?t)" using ok(1) bucket_in_range by (auto simp: table_ok_def)
  have chain: "it \<in> set ?chain \<longleftrightarrow> it \<in> set (h_items h)" if "?P it" for it
    using chain_items [OF ok(1), of it] ok(2) that by simp
  show ?thesis
  proof (cases "find ?P ?chain")
    case None
    then have "\<forall>it \<in> set (h_items h). it_key it \<noteq> key"
      using chain ok(3) by (fastforce simp: find_None_iff)
    then show ?thesis
      using None b Some by (simp add: HASH_FIND_PTR_def HASH_FIND_IN_BKT_find items_def Let_def)
  next
    case (Some it)
    then have "it \<in> set ?chain" "?P it" by (auto simp: find_Some_iff)
    then show ?thesis
      using Some b \<open>head = Some h\<close> chain
      by (auto simp: HASH_FIND_PTR_def HASH_FIND_IN_BKT_find items_def Let_def)
  qed
qed (simp add: HASH_FIND_PTR_def items_def)

section \<open>Deleting\<close>

lemma chains_ok_remove:
  assumes "chains_ok num bks" "b < length bks" "it \<in> set (bk_chain (bks ! b))"
    and "bk_chain bk = remove1 it (bk_chain (bks ! b))" "bk_count bk = bk_count (bks ! b) - 1"
  shows "chains_ok num (bks[b := bk])"
proof -
  have "length (bk_chain (bks ! b)) = Suc (length (remove1 it (bk_chain (bks ! b))))"
    using assms(3) length_pos_if_in_set [OF assms(3)] by (simp add: length_remove1)
  then have "chain_ok num b bk"
    using assms by (auto simp: chains_ok_def chain_ok_def dest: set_remove1_subset [THEN subsetD])
  then show ?thesis using assms(1,2) by (auto simp: chains_ok_def nth_list_update)
qed

lemma add_remove_cancel:
  assumes "mset xs + mset c = mset ys + mset (remove1 x c)" "x \<in> set c"
  shows "add_mset x (mset xs) = mset ys"
proof -
  have c: "mset c = add_mset x (mset (remove1 x c))" using assms(2) by simp
  have "add_mset x (mset xs) + mset (remove1 x c) = mset ys + mset (remove1 x c)"
    using assms(1) unfolding c by simp
  then show ?thesis by (simp only: add_right_cancel)
qed

lemma HASH_DELETE_ok:
  assumes "hash_ok (Some h)" "it \<in> set (h_items h)"
  shows "\<exists>head. HASH_DELETE it h = Ok head \<and> hash_ok head \<and> items head = remove1 it (h_items h)"
proof (cases "h_items h = [it]")
  case True
  then show ?thesis by (auto simp: HASH_DELETE_def HASH_FSCK_def hash_ok_def items_def)
next
  case False
  let ?t = "h_tbl h" and ?b = "HASH_TO_BKT (it_hashv it) (ht_num_buckets (h_tbl h))"
  have ok: "table_ok ?t" "mset (items_of (ht_buckets ?t)) = mset (h_items h)"
    using assms(1) by (auto simp: hash_ok_def)
  have b: "?b < length (ht_buckets ?t)" using ok(1) bucket_in_range by (auto simp: table_ok_def)
  have mem: "it \<in> set (bk_chain (ht_buckets ?t ! ?b))"
    using chain_items [OF ok(1)] ok(2) assms(2) by (metis mset_eq_setD)
  let ?bk = "(ht_buckets ?t ! ?b)\<lparr>bk_chain := remove1 it (bk_chain (ht_buckets ?t ! ?b)),
      bk_count := bk_count (ht_buckets ?t ! ?b) - 1\<rparr>"
  let ?bks = "(ht_buckets ?t)[?b := ?bk]"
  let ?h = "\<lparr>h_items = remove1 it (h_items h),
      h_tbl = ?t\<lparr>ht_buckets := ?bks, ht_num_items := ht_num_items ?t - 1\<rparr>\<rparr>"
  have "mset (items_of ?bks) + mset (bk_chain (ht_buckets ?t ! ?b)) =
      mset (items_of (ht_buckets ?t)) + mset (bk_chain ?bk)"
    unfolding items_of_def by (rule mset_concat_update [OF b])
  then have "add_mset it (mset (items_of ?bks)) = mset (items_of (ht_buckets ?t))"
    using add_remove_cancel [OF _ mem, of "items_of ?bks"] by simp
  then have bag: "mset (items_of ?bks) = mset (remove1 it (h_items h))"
    using ok(2) by (metis add_mset_remove_trivial mset_remove1)
  have len: "length (items_of (ht_buckets ?t)) = Suc (length (items_of ?bks))"
    using mset_eq_length [OF ok(2)] mset_eq_length [OF bag] assms(2) length_pos_if_in_set [OF assms(2)]
    by (simp add: length_remove1)
  have "chains_ok (ht_num_buckets ?t) ?bks"
    using ok(1) b mem by (intro chains_ok_remove) (auto simp: table_ok_def)
  then have "table_ok (?t\<lparr>ht_buckets := ?bks, ht_num_items := ht_num_items ?t - 1\<rparr>)"
    using ok(1) len by (simp add: table_ok_def)
  moreover have "remove1 it (h_items h) \<noteq> []"
    using False assms(2) by (cases "h_items h") (auto split: if_splits)
  ultimately have "hash_ok (Some ?h)"
    using bag assms(1) by (auto simp: hash_ok_def dest: set_remove1_subset [THEN subsetD])
  then show ?thesis
    using False b HASH_FSCK_ok [of "Some ?h"] by (auto simp: HASH_DELETE_def HASH_DEL_IN_BKT_def items_def Let_def)
qed

text \<open>The loop at the end of the interpreter frees every entry.\<close>

lemma HASH_CLEAR_LOOP_ok:
  "hash_ok head \<Longrightarrow> items head = its \<Longrightarrow> HASH_CLEAR_LOOP its head = Ok None"
proof (induction its arbitrary: head)
  case Nil
  then show ?case by (cases head) (auto simp: hash_ok_def items_def)
next
  case (Cons it its)
  then obtain h where h: "head = Some h" "h_items h = it # its"
    by (cases head) (auto simp: items_def)
  then obtain head' where "HASH_DELETE it h = Ok head'" "hash_ok head'" "items head' = its"
    using HASH_DELETE_ok [of h it] Cons.prems(1) by auto
  then show ?case using Cons.IH h by simp
qed

lemma HASH_CLEAR_ALL_ok: "hash_ok head \<Longrightarrow> HASH_CLEAR_ALL head = Ok None"
  by (simp add: HASH_CLEAR_ALL_def HASH_CLEAR_LOOP_ok items_def [symmetric])

section \<open>The interface of an entry store\<close>

text \<open>What the interpreter relies on: entries are numbered, and found by key.\<close>

definition find_fits :: "(nat \<times> u64) list \<Rightarrow> u64 \<Rightarrow> nat option \<Rightarrow> bool" where
  "find_fits entries key r = (case r of None \<Rightarrow> key \<notin> snd ` set entries
     | Some i \<Rightarrow> (i, key) \<in> set entries)"

locale entry_store =
  fixes ok :: "'t \<Rightarrow> bool"
    and room :: "'t \<Rightarrow> bool"
    and entries :: "'t \<Rightarrow> (nat \<times> u64) list"
    and add :: "nat \<Rightarrow> u64 \<Rightarrow> 't \<Rightarrow> 't outcome"
    and lookup :: "'t \<Rightarrow> u64 \<Rightarrow> nat option outcome"
    and clear :: "'t \<Rightarrow> 't outcome"
    and nothing :: 't
  assumes add_cases: "ok t \<Longrightarrow> add i k t = Fail Exit_Called \<and> \<not> room t \<or>
      (\<exists>t'. add i k t = Ok t' \<and> ok t' \<and> entries t' = entries t @ [(i, k)])"
    and lookup_ok: "ok t \<Longrightarrow> \<exists>r. lookup t k = Ok r \<and> find_fits (entries t) k r"
    and clear_ok: "ok t \<Longrightarrow> clear t = Ok nothing"
    and nothing_empty: "entries nothing = []"
begin

lemma added: "ok t \<Longrightarrow> add i k t = Ok t' \<Longrightarrow> ok t' \<and> entries t' = entries t @ [(i, k)]"
  using add_cases [of t i k] by auto

lemma room_adds: "ok t \<Longrightarrow> room t \<Longrightarrow> \<exists>t'. add i k t = Ok t'"
  using add_cases [of t i k] by auto

lemma lookup_missing:
  assumes "ok t" "k \<notin> snd ` set (entries t)"
  shows "lookup t k = Ok None"
proof -
  obtain r where r: "lookup t k = Ok r" "find_fits (entries t) k r" using lookup_ok assms(1) by blast
  have "r = None"
  proof (rule ccontr)
    assume "r \<noteq> None"
    then obtain j where "(j, k) \<in> set (entries t)" using r(2) by (auto simp: find_fits_def)
    then show False using assms(2) by force
  qed
  then show ?thesis using r(1) by simp
qed

lemma lookup_unique:
  assumes "ok t" "distinct (map snd (entries t))" "(i, k) \<in> set (entries t)"
  shows "lookup t k = Ok (Some i)"
proof -
  obtain r where r: "lookup t k = Ok r" "find_fits (entries t) k r" using lookup_ok assms(1) by blast
  have inj: "inj_on snd (set (entries t))" using assms(2) by (simp add: distinct_map)
  have unique: "j = i" if "(j, k) \<in> set (entries t)" for j
    using inj_onD [OF inj _ that assms(3)] by simp
  have "k \<in> snd ` set (entries t)" using assms(3) by force
  then obtain j where "r = Some j" "(j, k) \<in> set (entries t)"
    using r(2) by (cases r) (auto simp: find_fits_def)
  then show ?thesis using r(1) unique by simp
qed

lemma lookup_total: "ok t \<Longrightarrow> \<exists>r. lookup t k = Ok r"
  using lookup_ok by blast

text \<open>An allocation whose address is new is found again, and hides no other.\<close>

lemma lookup_added:
  assumes "ok t" "distinct (map snd (entries t))" "k \<notin> snd ` set (entries t)" "add i k t = Ok t'"
  shows "lookup t' k = Ok (Some i)" "k' \<noteq> k \<Longrightarrow> lookup t' k' = lookup t k'"
proof -
  have t': "ok t'" "entries t' = entries t @ [(i, k)]" using added [OF assms(1,4)] by auto
  have dist: "distinct (map snd (entries t'))" using t'(2) assms(2,3) by simp
  show "lookup t' k = Ok (Some i)" using lookup_unique [OF t'(1) dist] t'(2) by simp
  show "lookup t' k' = lookup t k'" if "k' \<noteq> k"
  proof (cases "k' \<in> snd ` set (entries t)")
    case True
    then obtain j where "(j, k') \<in> set (entries t)" by auto
    then show ?thesis
      using lookup_unique [OF assms(1,2)] lookup_unique [OF t'(1) dist] t'(2) by simp
  next
    case False
    then show ?thesis
      using that lookup_missing [OF assms(1)] lookup_missing [OF t'(1)] t'(2) by simp
  qed
qed

end

definition entries_of :: "hash option \<Rightarrow> (nat \<times> u64) list" where
  "entries_of head = map (\<lambda>it. (it_id it, it_key it)) (items head)"

interpretation uthash: entry_store "\<lambda>head. limited mem \<and> hash_ok head" "granted mem" entries_of
    "HASH_ADD_PTR mem" HASH_FIND_PTR HASH_CLEAR_ALL None for mem
proof unfold_locales
  fix t :: "hash option" and i :: nat and k :: u64
  show "limited mem \<and> hash_ok t \<Longrightarrow> HASH_ADD_PTR mem i k t = Fail Exit_Called \<and> \<not> granted mem t \<or>
      (\<exists>t'. HASH_ADD_PTR mem i k t = Ok t' \<and> (limited mem \<and> hash_ok t') \<and>
        entries_of t' = entries_of t @ [(i, k)])"
    using HASH_ADD_PTR_cases [of t mem i k] by (auto simp: entries_of_def)
  show "limited mem \<and> hash_ok t \<Longrightarrow> \<exists>r. HASH_FIND_PTR t k = Ok r \<and> find_fits (entries_of t) k r"
    using HASH_FIND_PTR_ok [of t k] by (force simp: find_fits_def entries_of_def split: option.splits)
  show "limited mem \<and> hash_ok t \<Longrightarrow> HASH_CLEAR_ALL t = Ok None"
    by (simp add: HASH_CLEAR_ALL_ok)
qed (simp_all add: entries_of_def items_def)

text \<open>Looking up and clearing need no memory.\<close>

lemma limited_none: "limited (\<lambda>_. False)"
  by (simp add: limited_def)

lemma hash_lookup: "hash_ok head \<Longrightarrow> \<exists>r. HASH_FIND_PTR head k = Ok r \<and> find_fits (entries_of head) k r"
  using uthash.lookup_ok [of "\<lambda>_. False"] limited_none by blast

lemma hash_clear: "hash_ok head \<Longrightarrow> HASH_CLEAR_ALL head = Ok None"
  using uthash.clear_ok [of "\<lambda>_. False"] limited_none by blast

lemma hash_lookup_unique:
  "hash_ok head \<Longrightarrow> distinct (map snd (entries_of head)) \<Longrightarrow> (i, k) \<in> set (entries_of head) \<Longrightarrow>
     HASH_FIND_PTR head k = Ok (Some i)"
  using uthash.lookup_unique [of "\<lambda>_. False"] limited_none by blast

lemma hash_lookup_missing:
  "hash_ok head \<Longrightarrow> k \<notin> snd ` set (entries_of head) \<Longrightarrow> HASH_FIND_PTR head k = Ok None"
  using uthash.lookup_missing [of "\<lambda>_. False"] limited_none by blast

section \<open>An address that is used again\<close>

text \<open>The hash after \<open>n\<close> entries with the same key, numbered from 0, before the first expansion.\<close>

definition same_item :: "u64 \<Rightarrow> nat \<Rightarrow> item" where
  "same_item k i = \<lparr>it_id = i, it_key = k, it_hashv = HASH_VALUE k\<rparr>"

definition same_bucket :: "u64 \<Rightarrow> nat \<Rightarrow> bucket" where
  "same_bucket k n = \<lparr>bk_chain = rev (map (same_item k) [0..<n]), bk_count = of_nat n, bk_expand_mult = 0\<rparr>"

definition same_table :: "u64 \<Rightarrow> nat \<Rightarrow> hash_table" where
  "same_table k n =
     \<lparr>ht_buckets = (replicate 32 empty_bucket)[HASH_TO_BKT (HASH_VALUE k) 32 := same_bucket k n],
      ht_num_buckets = 32, ht_log2_num_buckets = 5, ht_num_items = of_nat n, ht_ideal_chain_maxlen = 0,
      ht_nonideal_items = 0, ht_ineff_expands = 0, ht_noexpand = False\<rparr>"

definition same_hash :: "u64 \<Rightarrow> nat \<Rightarrow> hash option" where
  "same_hash k n =
     (if n = 0 then None else Some \<lparr>h_items = map (same_item k) [0..<n], h_tbl = same_table k n\<rparr>)"

lemma bucket_32: "HASH_TO_BKT hashv 32 < 32"
  using HASH_TO_BKT_mod [of 5 hashv] by simp

lemma same_find:
  assumes "0 < n"
  shows "HASH_FIND_PTR (same_hash k n) k = Ok (Some (n - 1))"
proof -
  obtain m where "n = Suc m" using assms by (cases n) auto
  then show ?thesis
    using bucket_32 [of "HASH_VALUE k"]
    by (simp add: HASH_FIND_PTR_def same_hash_def same_table_def same_bucket_def same_item_def)
qed

text \<open>With memory, adding an entry is adding it to the table: the check never fails.\<close>

lemma HASH_ADD_PTR_table:
  assumes "hash_ok head" "limited mem" "granted mem head"
    and "case head of None \<Rightarrow> HASH_MAKE_TABLE mem = Ok t | Some h \<Rightarrow> t = h_tbl h"
    and "HASH_ADD_TO_TABLE mem \<lparr>it_id = i, it_key = key, it_hashv = HASH_VALUE key\<rparr> t = Ok t'"
  shows "HASH_ADD_PTR mem i key head = Ok (Some
    \<lparr>h_items = items head @ [\<lparr>it_id = i, it_key = key, it_hashv = HASH_VALUE key\<rparr>], h_tbl = t'\<rparr>)"
proof -
  let ?h = "\<lparr>h_items = items head @ [\<lparr>it_id = i, it_key = key, it_hashv = HASH_VALUE key\<rparr>], h_tbl = t'\<rparr>"
  have "HASH_ADD_PTR mem i key head = HASH_FSCK (Some ?h)"
  proof (cases head)
    case None
    then show ?thesis using assms(4,5) by (simp add: HASH_ADD_PTR_def items_def Let_def)
  next
    case (Some h)
    then show ?thesis using assms(4,5) by (cases h) (simp add: HASH_ADD_PTR_def items_def Let_def)
  qed
  moreover have "HASH_FSCK (Some ?h) = Ok (Some ?h) \<or> (\<exists>f. HASH_FSCK (Some ?h) = Fail f)"
    by (simp add: HASH_FSCK_def Let_def)
  moreover have "\<exists>head'. HASH_ADD_PTR mem i key head = Ok head'"
    using HASH_ADD_PTR_cases [OF assms(1,2), of i key] assms(3) by blast
  ultimately show ?thesis by auto
qed

definition enough :: "memory \<Rightarrow> bool" where
  "enough mem \<longleftrightarrow> limited mem \<and> mem sizeof_table \<and> mem 512 \<and> mem 1024"

lemma same_granted: "enough mem \<Longrightarrow> granted mem (same_hash k n)"
  by (simp add: enough_def granted_def same_hash_def growth_granted_def same_table_def sizeof_bucket_def)

lemma same_buckets:
  "(ht_buckets (same_table k n)) ! HASH_TO_BKT (HASH_VALUE k) 32 = same_bucket k n"
  "(ht_buckets (same_table k n))[HASH_TO_BKT (HASH_VALUE k) 32 := same_bucket k m] = ht_buckets (same_table k m)"
  "length (ht_buckets (same_table k n)) = 32"
  using bucket_32 [of "HASH_VALUE k"] by (simp_all add: same_table_def)

lemma same_bucket_push:
  "(same_bucket k n)\<lparr>bk_chain := same_item k n # bk_chain (same_bucket k n),
      bk_count := bk_count (same_bucket k n) + 1\<rparr> = same_bucket k (Suc n)"
  by (simp add: same_bucket_def)

lemma HASH_MAKE_TABLE_same: "enough mem \<Longrightarrow> HASH_MAKE_TABLE mem = Ok (same_table k 0)"
proof -
  have "(replicate 32 empty_bucket)[b := same_bucket k 0] = replicate 32 empty_bucket" for b
    by (cases "b < 32") (simp_all add: same_bucket_def empty_bucket_def [symmetric] list_update_same_conv list_update_beyond)
  then show "enough mem \<Longrightarrow> HASH_MAKE_TABLE mem = Ok (same_table k 0)"
    by (simp add: HASH_MAKE_TABLE_def uthash_malloc_def enough_def HASH_INITIAL_NUM_BUCKETS_def
        HASH_INITIAL_NUM_BUCKETS_LOG2_def sizeof_bucket_def same_table_def)
qed

lemma same_table_push:
  "(same_table k n)\<lparr>ht_num_items := ht_num_items (same_table k n) + 1,
      ht_buckets := ht_buckets (same_table k (Suc n))\<rparr> = same_table k (Suc n)"
  by (simp add: same_table_def)

lemma same_add_table:
  "HASH_ADD_TO_TABLE mem (same_item k n) (same_table k n) =
     (if 10 \<le> (of_nat (Suc n) :: u32) then HASH_EXPAND_BUCKETS mem (same_table k (Suc n))
      else Ok (same_table k (Suc n)))"
proof -
  let ?b = "HASH_TO_BKT (HASH_VALUE k) 32"
  let ?t = "(same_table k n)\<lparr>ht_num_items := ht_num_items (same_table k n) + 1\<rparr>"
  have t: "ht_buckets ?t = ht_buckets (same_table k n)" "ht_num_buckets (same_table k n) = 32"
    by (simp_all add: same_table_def)
  have mult: "bk_expand_mult (same_bucket k (Suc n)) = 0" "bk_count (same_bucket k (Suc n)) = of_nat (Suc n)"
    by (simp_all add: same_bucket_def)
  have noexp: "\<not> ht_noexpand (same_table k m)" for m by (simp add: same_table_def)
  have item: "it_hashv (same_item k n) = HASH_VALUE k" by (simp add: same_item_def)
  have "HASH_ADD_TO_TABLE mem (same_item k n) (same_table k n) = HASH_ADD_TO_BKT mem ?b (same_item k n) ?t"
    by (simp add: HASH_ADD_TO_TABLE_def Let_def t item)
  also have "\<dots> = (if 10 \<le> bk_count (same_bucket k (Suc n)) then HASH_EXPAND_BUCKETS mem (same_table k (Suc n))
      else Ok (same_table k (Suc n)))"
    using bucket_32 [of "HASH_VALUE k"] mult(1) noexp
    unfolding HASH_ADD_TO_BKT_def Let_def t same_buckets same_bucket_push
    by (auto simp: HASH_BKT_CAPACITY_THRESH_def same_table_push)
  finally show ?thesis by (simp only: mult(2))
qed

lemma expand_same:
  assumes "\<forall>it \<in> set its. HASH_TO_BKT (it_hashv it) num = b" "b < length (ex_buckets ex)"
  shows "\<exists>ex'. expand_items ideal num its ex = Ok ex' \<and> length (ex_buckets ex') = length (ex_buckets ex) \<and>
    bk_chain (ex_buckets ex' ! b) = rev its @ bk_chain (ex_buckets ex ! b)"
  using assms
proof (induction its arbitrary: ex)
  case (Cons it its)
  obtain ex1 where 1: "expand_item ideal num it ex = Ok ex1"
    "length (ex_buckets ex1) = length (ex_buckets ex)"
    "bk_chain (ex_buckets ex1 ! b) = it # bk_chain (ex_buckets ex ! b)"
    using Cons.prems by (auto simp: expand_item_def Let_def)
  obtain ex' where "expand_items ideal num its ex1 = Ok ex'"
    "length (ex_buckets ex') = length (ex_buckets ex1)"
    "bk_chain (ex_buckets ex' ! b) = rev its @ bk_chain (ex_buckets ex1 ! b)"
    using Cons.IH [of ex1] Cons.prems 1(2) by auto
  then show ?case using 1 by auto
qed simp

lemma concat_one_chain:
  "b < length xs \<Longrightarrow> \<forall>x \<in> set xs. f x = [] \<Longrightarrow> concat (map f (xs[b := y])) = f y"
proof (induction xs arbitrary: b)
  case (Cons x xs)
  then show ?case by (cases b) auto
qed simp

lemma same_chains: "concat (map bk_chain (take 32 (ht_buckets (same_table k n)))) = rev (map (same_item k) [0..<n])"
  using concat_one_chain [of "HASH_TO_BKT (HASH_VALUE k) 32" "replicate 32 empty_bucket" bk_chain "same_bucket k n"]
    bucket_32 [of "HASH_VALUE k"]
  by (simp add: same_table_def same_bucket_def empty_bucket_def)

text \<open>The expansion turns the chain round.\<close>

lemma same_expand:
  assumes "enough mem"
  shows "\<exists>t. HASH_EXPAND_BUCKETS mem (same_table k n) = Ok t \<and> ht_num_buckets t = 64 \<and>
    length (ht_buckets t) = 64 \<and>
    bk_chain (ht_buckets t ! HASH_TO_BKT (HASH_VALUE k) 64) = map (same_item k) [0..<n]"
proof -
  let ?b = "HASH_TO_BKT (HASH_VALUE k) 64"
  let ?ex = "\<lparr>ex_buckets = replicate 64 empty_bucket, ex_nonideal = 0\<rparr>"
  have b: "?b < 64" using HASH_TO_BKT_mod [of 6 "HASH_VALUE k"] by simp
  have "\<exists>ex. expand_items ideal 64 (rev (map (same_item k) [0..<n])) ?ex = Ok ex \<and> length (ex_buckets ex) = 64 \<and>
      bk_chain (ex_buckets ex ! ?b) = map (same_item k) [0..<n]" for ideal
    using expand_same [of "rev (map (same_item k) [0..<n])" 64 ?b ?ex ideal] b
    by (simp add: same_item_def empty_bucket_def)
  then obtain F where F: "expand_items ideal 64 (rev (map (same_item k) [0..<n])) ?ex = Ok (F ideal)"
    "length (ex_buckets (F ideal)) = 64" "bk_chain (ex_buckets (F ideal) ! ?b) = map (same_item k) [0..<n]" for ideal
    by metis
  have num: "ht_num_buckets (same_table k n) = 32" by (simp add: same_table_def)
  have "uthash_malloc mem (sizeof_bucket * unat (ht_num_buckets (same_table k n)) * 2) = Ok ()"
    using assms by (simp add: uthash_malloc_def enough_def sizeof_bucket_def num)
  then show ?thesis
    by (simp add: HASH_EXPAND_BUCKETS_def Let_def same_chains num F)
qed

lemma same_add:
  assumes "enough mem" "hash_ok (same_hash k n)" "n < 9"
  shows "HASH_ADD_PTR mem n k (same_hash k n) = Ok (same_hash k (Suc n))" "hash_ok (same_hash k (Suc n))"
proof -
  have lim: "limited mem" using assms(1) by (simp add: enough_def)
  have "(10 \<le> (of_nat (Suc n) :: u32)) = False"
    using assms(3) unat_of_nat_u32 [of "Suc n"] by (simp add: word_le_nat_alt del: of_nat_Suc)
  then have add: "HASH_ADD_TO_TABLE mem (same_item k n) (same_table k n) = Ok (same_table k (Suc n))"
    unfolding same_add_table by simp
  have tbl: "case same_hash k n of None \<Rightarrow> HASH_MAKE_TABLE mem = Ok (same_table k n) | Some h \<Rightarrow> same_table k n = h_tbl h"
    using HASH_MAKE_TABLE_same [OF assms(1)] by (simp add: same_hash_def)
  show "HASH_ADD_PTR mem n k (same_hash k n) = Ok (same_hash k (Suc n))"
    using HASH_ADD_PTR_table [OF assms(2) lim same_granted [OF assms(1)] tbl add [unfolded same_item_def]]
    by (simp add: same_hash_def items_def same_item_def)
  then show "hash_ok (same_hash k (Suc n))"
    using HASH_ADD_PTR_cases [OF assms(2) lim, of n k] by auto
qed

lemma same_hash_ok: "enough mem \<Longrightarrow> n \<le> 9 \<Longrightarrow> hash_ok (same_hash k n)"
proof (induction n)
  case 0
  then show ?case by (simp add: same_hash_def hash_ok_def)
next
  case (Suc n)
  then show ?case using same_add(2) [of mem k n] by simp
qed

text \<open>The tenth entry of the same key makes the table grow, and hides the later ones.\<close>

lemma same_add_tenth:
  assumes "enough mem"
  shows "\<exists>h. HASH_ADD_PTR mem 9 k (same_hash k 9) = Ok h \<and> hash_ok h \<and>
    items h = map (same_item k) [0..<10] \<and> HASH_FIND_PTR h k = Ok (Some 0)"
proof -
  have lim: "limited mem" using assms(1) by (simp add: enough_def)
  note ok = same_hash_ok [OF assms, of 9 k, simplified]
  obtain t where t: "HASH_EXPAND_BUCKETS mem (same_table k (Suc 9)) = Ok t" "ht_num_buckets t = 64"
    "length (ht_buckets t) = 64" "bk_chain (ht_buckets t ! HASH_TO_BKT (HASH_VALUE k) 64) = map (same_item k) [0..<Suc 9]"
    using same_expand [OF assms, of k "Suc 9"] by blast
  have add: "HASH_ADD_TO_TABLE mem (same_item k 9) (same_table k 9) = Ok t"
    unfolding same_add_table t(1) by simp
  have tbl: "case same_hash k 9 of None \<Rightarrow> HASH_MAKE_TABLE mem = Ok (same_table k 9) | Some h \<Rightarrow> same_table k 9 = h_tbl h"
    by (simp add: same_hash_def)
  let ?h = "Some \<lparr>h_items = items (same_hash k 9) @ [same_item k 9], h_tbl = t\<rparr>"
  have h: "HASH_ADD_PTR mem 9 k (same_hash k 9) = Ok ?h"
    using HASH_ADD_PTR_table [OF ok lim same_granted [OF assms(1)] tbl add [unfolded same_item_def]]
    by (simp add: same_item_def)
  have "[0..<Suc 9] = 0 # [Suc 0..<Suc 9]" by (rule upt_conv_Cons) simp
  then have "HASH_FIND_PTR ?h k = Ok (Some 0)"
    using HASH_TO_BKT_mod [of 6 "HASH_VALUE k"] t(2-4)
    by (simp add: HASH_FIND_PTR_def same_item_def Let_def del: upt_Suc)
  moreover have "items ?h = map (same_item k) [0..<10]"
    using upt_Suc_append [of 0 9] by (simp add: items_def same_hash_def del: upt_Suc)
  moreover have "hash_ok ?h"
    using HASH_ADD_PTR_cases [OF ok lim, of 9 k] h by auto
  ultimately show ?thesis using h by blast
qed

fun add_copies :: "memory \<Rightarrow> u64 \<Rightarrow> nat \<Rightarrow> hash option outcome" where
  "add_copies mem k 0 = Ok None"
| "add_copies mem k (Suc n) = and_then (add_copies mem k n) (HASH_ADD_PTR mem n k)"

lemma add_copies_same: "enough mem \<Longrightarrow> n \<le> 9 \<Longrightarrow> add_copies mem k n = Ok (same_hash k n)"
proof (induction n)
  case 0
  then show ?case by (simp add: same_hash_def)
next
  case (Suc n)
  then show ?case using same_add(1) [of mem k n] same_hash_ok [of mem n k] by simp
qed

definition megabyte :: memory where
  "megabyte n = (n \<le> 1048576)"

lemma megabyte_enough: "enough megabyte" "limited megabyte"
  by (simp_all add: enough_def limited_def megabyte_def sizeof_table_def)

section \<open>Properties\<close>

text \<open>C16: adding an entry either ends the program for want of memory, or appends it to the
  application order and keeps the table consistent: every chain counted and in its bucket, the chains together the entries,
  each with the hash of its key, through every expansion; so that \<open>HASH_FSCK\<close> never finds a fault.\<close>

theorem hash_add_invariant:
  assumes "hash_ok head" "limited mem"
  shows "HASH_ADD_PTR mem i key head = Fail Exit_Called \<and> \<not> granted mem head \<or>
    (\<exists>head'. HASH_ADD_PTR mem i key head = Ok head' \<and> hash_ok head' \<and>
       items head' = items head @ [\<lparr>it_id = i, it_key = key, it_hashv = HASH_VALUE key\<rparr>])"
  by (rule HASH_ADD_PTR_cases [OF assms])

theorem hash_add_invariant_witness:
  "\<exists>head. HASH_ADD_PTR megabyte 0 64 None = Ok head \<and> hash_ok head \<and>
     items head = [\<lparr>it_id = 0, it_key = 64, it_hashv = HASH_VALUE 64\<rparr>]"
proof -
  have "hash_ok None" "granted megabyte None"
    by (simp_all add: hash_ok_def granted_def megabyte_def sizeof_table_def sizeof_bucket_def)
  then show ?thesis
    using hash_add_invariant [OF _ megabyte_enough(2), of None 0 64] by (auto simp: items_def)
qed

text \<open>A lookup is sound and complete: it gives an entry with the key it was asked for, and
  gives none only if no entry has that key.\<close>

theorem hash_find_correct:
  assumes "hash_ok head"
  shows "\<exists>r. HASH_FIND_PTR head key = Ok r \<and>
    (case r of None \<Rightarrow> \<forall>it \<in> set (items head). it_key it \<noteq> key
     | Some i \<Rightarrow> \<exists>it \<in> set (items head). it_key it = key \<and> it_id it = i)"
  by (rule HASH_FIND_PTR_ok [OF assms])

theorem hash_find_correct_witness:
  "\<exists>r. HASH_FIND_PTR (same_hash 7 3) 7 = Ok r \<and> r \<noteq> None"
proof -
  have "\<exists>it \<in> set (items (same_hash 7 3)). it_key it = 7"
    by (auto simp: items_def same_hash_def same_item_def intro: exI [of _ 0])
  then show ?thesis
    using hash_find_correct [OF same_hash_ok [OF megabyte_enough(1), of 3 7], of 7] by (auto split: option.splits)
qed

text \<open>An entry with a new key is found right after it was added, and every other key is
  found as before.\<close>

theorem hash_find_added:
  assumes "hash_ok head" "limited mem" "distinct (map snd (entries_of head))" "k \<notin> snd ` set (entries_of head)"
    and "HASH_ADD_PTR mem i k head = Ok head'"
  shows "HASH_FIND_PTR head' k' = (if k' = k then Ok (Some i) else HASH_FIND_PTR head k')"
  using uthash.lookup_added [OF conjI [OF assms(2,1)] assms(3-5)] by auto

theorem hash_find_added_witness:
  "\<exists>h. HASH_ADD_PTR megabyte 1 9 (same_hash 7 1) = Ok h \<and> HASH_FIND_PTR h 9 = Ok (Some 1) \<and>
     HASH_FIND_PTR h 7 = Ok (Some 0)"
proof -
  have ok: "hash_ok (same_hash 7 1)" using same_hash_ok [OF megabyte_enough(1), of 1 7] by simp
  have e: "entries_of (same_hash 7 1) = [(0, 7)]"
    by (simp add: entries_of_def items_def same_hash_def same_item_def)
  have "granted megabyte (same_hash 7 1)" by (rule same_granted [OF megabyte_enough(1)])
  then obtain h where h: "HASH_ADD_PTR megabyte 1 9 (same_hash 7 1) = Ok h"
    using HASH_ADD_PTR_cases [OF ok megabyte_enough(2), of 1 9] by auto
  have "HASH_FIND_PTR h k' = (if k' = 9 then Ok (Some 1) else HASH_FIND_PTR (same_hash 7 1) k')" for k'
    by (rule hash_find_added [OF ok megabyte_enough(2) _ _ h]) (simp_all only: e, simp_all)
  then show ?thesis using h same_find [of 1 7] by simp
qed

text \<open>Deleting an entry takes exactly it out of the application order and of its chain, keeps
  the table consistent, and frees the table with the last entry; deleting all of them in order,
  as the interpreter does at its end, leaves nothing.\<close>

theorem hash_delete_correct:
  assumes "hash_ok (Some h)" "it \<in> set (h_items h)"
  shows "(\<exists>head. HASH_DELETE it h = Ok head \<and> hash_ok head \<and> items head = remove1 it (h_items h)) \<and>
    HASH_CLEAR_ALL (Some h) = Ok None"
  using HASH_DELETE_ok [OF assms] HASH_CLEAR_ALL_ok [OF assms(1)] by blast

theorem hash_delete_correct_witness:
  "\<exists>h head. same_hash 7 3 = Some h \<and> HASH_DELETE (same_item 7 1) h = Ok head \<and>
     items head = [same_item 7 0, same_item 7 2] \<and> HASH_CLEAR_ALL (Some h) = Ok None"
proof -
  obtain h where h: "same_hash 7 3 = Some h" "h_items h = [same_item 7 0, same_item 7 1, same_item 7 2]"
    by (simp add: same_hash_def numeral_3_eq_3 numeral_2_eq_2)
  have "hash_ok (Some h)" using same_hash_ok [OF megabyte_enough(1), of 3 7] h(1) by simp
  from hash_delete_correct [OF this, of "same_item 7 1"] h show ?thesis
    by (auto simp: same_item_def)
qed

text \<open>Of several entries with one key the newest is found, but only until the table grows: the
  tenth entry of a key triggers an expansion, which turns the chain round, and then the oldest one is
  found.\<close>

theorem reused_key_hidden:
  assumes "enough mem"
  shows "and_then (add_copies mem k 9) (\<lambda>h. HASH_FIND_PTR h k) = Ok (Some 8) \<and>
    and_then (add_copies mem k 10) (\<lambda>h. HASH_FIND_PTR h k) = Ok (Some 0)"
proof -
  have "add_copies mem k 10 = and_then (add_copies mem k 9) (HASH_ADD_PTR mem 9 k)"
    using add_copies.simps(2) [of mem k 9] by simp
  then show ?thesis
    using add_copies_same [OF assms, of 9 k] same_find [of 9 k] same_add_tenth [OF assms, of k] by auto
qed

theorem reused_key_hidden_witness:
  "and_then (add_copies megabyte 4096 9) (\<lambda>h. HASH_FIND_PTR h 4096) = Ok (Some 8) \<and>
   and_then (add_copies megabyte 4096 10) (\<lambda>h. HASH_FIND_PTR h 4096) = Ok (Some 0)"
  by (rule reused_key_hidden [OF megabyte_enough(1)])

end
