(* ===== verification/Interpret.thy ===== *)
theory Interpret
  imports Tracker Uthash
begin

text \<open>
  The log interpreter, \<open>src/interpret.c\<close>: the parser of one log line, the entries of the
  allocations in their hash table, the summary built from a log, and the report. The library
  \<open>libdwfl\<close> is the record \<open>dwarf\<close>.
\<close>

section \<open>Data\<close>

record jmInst =
  in_opcode :: char
  in_ctx :: string
  in_timestamp :: u64
  in_alloc_size :: u64
  in_addr :: u64

record jmBacktrace =
  bt_addr :: u64
  bt_sym_name :: string
  bt_mod_name :: string
  bt_mod_offset :: u64
  bt_src_name :: string
  bt_src_line :: int
  bt_src_column :: int

record jmAllocEntry =
  en_key :: u64
  en_is_leaking :: bool
  en_alloc_size :: u64
  en_timestamp :: u64
  en_traces :: "jmBacktrace list"    \<comment> \<open>the first \<open>traces.count\<close> elements of the buffer\<close>

text \<open>
  The summary, with the variable \<open>alloc_ctx\<close> of the parser, the modules reported to \<open>libdwfl\<close>,
  and the entries in the order of their \<open>calloc\<close>: an entry's place here is its address there.
\<close>

record jmSummary =
  sm_path :: string
  sm_alloc_count :: u64
  sm_free_count :: u64
  sm_total :: u64
  sm_regions :: "jmRegion list"
  sm_region_count :: nat
  sm_heap :: "jmAllocEntry list"
  sm_entries :: "hash option"
  sm_modules :: "(string \<times> u64) list"
  sm_alloc_ctx :: u64

definition initial_summary :: jmSummary where
  "initial_summary =
     \<lparr>sm_path = [], sm_alloc_count = 0, sm_free_count = 0, sm_total = 0,
      sm_regions = replicate MAX_REGION_COUNT \<lparr>start = 0, end_addr = 0\<rparr>, sm_region_count = 0,
      sm_heap = [], sm_entries = None, sm_modules = [], sm_alloc_ctx = 0\<rparr>"

text \<open>
  What \<open>libdwfl\<close> answers about an address, given the modules reported so far: the name and start
  of its module; its symbol; and, when it has a debugging entry, its source line if there is one.
\<close>

record dwarf =
  dw_module :: "(string \<times> u64) list \<Rightarrow> u64 \<Rightarrow> string option \<times> u64"
  dw_symbol :: "(string \<times> u64) list \<Rightarrow> u64 \<Rightarrow> string option"
  dw_source :: "(string \<times> u64) list \<Rightarrow> u64 \<Rightarrow> (string option \<times> int option \<times> int option) option option"

section \<open>Parsing a line\<close>

definition inst_directives :: "directive list" where
  "inst_directives =
     [Scan_Ulong, Scan_Space, Scan_Char, Scan_Space, Scan_Ptr, Scan_Space, Scan_Str]"

definition scanned_num :: "scanned list \<Rightarrow> nat \<Rightarrow> u64 \<Rightarrow> u64" where
  "scanned_num vs i old = (if i < length vs then (case vs ! i of Num n \<Rightarrow> n | _ \<Rightarrow> old) else old)"

definition scanned_char :: "scanned list \<Rightarrow> nat \<Rightarrow> char \<Rightarrow> char" where
  "scanned_char vs i old = (if i < length vs then (case vs ! i of Chr c \<Rightarrow> c | _ \<Rightarrow> old) else old)"

definition jm_symbols_build_inst :: "string \<Rightarrow> jmInst" where
  "jm_symbols_build_inst buffer =
     (let vs = sscanf inst_directives (c_string buffer);
          opcode = scanned_char vs 1 (opcode_char JM_OPCODE_UNKNOWN);
          ctx = (case scanned_str vs 3 None of None \<Rightarrow> [] | Some t \<Rightarrow> t)
      in \<lparr>in_opcode = opcode,
          in_ctx = takeWhile (\<lambda>c. c \<noteq> CHR 0x0D \<and> c \<noteq> CHR ''\<newline>'') ctx,
          in_timestamp = scanned_num vs 0 0,
          in_alloc_size = (if opcode = opcode_char JM_OPCODE_ALLOC then strtol10 ctx else 0),
          in_addr = scanned_num vs 2 0\<rparr>)"

section \<open>Symbols\<close>

definition strcpy_name :: "string \<Rightarrow> string outcome" where
  "strcpy_name name = (if length name < MAX_BUFFER_SIZE then Ok name else Fail Undefined_Behaviour)"

definition name_or_unknown :: "string option \<Rightarrow> string" where
  "name_or_unknown name = (case name of None \<Rightarrow> ''??'' | Some n \<Rightarrow> n)"

definition jm_symbols_build_backtrace ::
    "dwarf \<Rightarrow> (string \<times> u64) list \<Rightarrow> u64 \<Rightarrow> jmBacktrace outcome" where
  "jm_symbols_build_backtrace dw modules ptr =
     (case dw_module dw modules ptr of (mod_name, mod_addr_start) \<Rightarrow>
        and_then (strcpy_name (name_or_unknown mod_name)) (\<lambda>mod_name.
        and_then (strcpy_name (name_or_unknown (dw_symbol dw modules ptr))) (\<lambda>sym_name.
        and_then (case dw_source dw modules ptr of
                    None \<Rightarrow> Ok ([], 0, 0)
                  | Some None \<Rightarrow> Ok ([], 0, 0)
                  | Some (Some (src_name, line, column)) \<Rightarrow>
                      and_then (strcpy_name (name_or_unknown src_name)) (\<lambda>src_name.
                      Ok (src_name, case line of None \<Rightarrow> 0 | Some l \<Rightarrow> l,
                          case column of None \<Rightarrow> 0 | Some c \<Rightarrow> c))) (\<lambda>(src_name, line, column).
        Ok \<lparr>bt_addr = ptr, bt_sym_name = sym_name, bt_mod_name = mod_name,
            bt_mod_offset = mod_addr_start, bt_src_name = src_name, bt_src_line = line,
            bt_src_column = column\<rparr>))))"

section \<open>Entries\<close>

definition sizeof_entry :: nat where "sizeof_entry = 197472"

text \<open>The result of \<open>calloc\<close> is used without a test.\<close>

definition jm_symbols_alloc_add_entry :: "memory \<Rightarrow> jmInst \<Rightarrow> jmSummary \<Rightarrow> jmSummary outcome" where
  "jm_symbols_alloc_add_entry mem inst sm =
     (if \<not> mem sizeof_entry then Fail Undefined_Behaviour
      else
        (let entry = \<lparr>en_key = in_addr inst, en_is_leaking = True, en_alloc_size = in_alloc_size inst,
                      en_timestamp = in_timestamp inst, en_traces = []\<rparr>
         in and_then (HASH_ADD_PTR mem (length (sm_heap sm)) (in_addr inst) (sm_entries sm)) (\<lambda>h.
            Ok (sm\<lparr>sm_heap := sm_heap sm @ [entry], sm_entries := h\<rparr>))))"

definition jm_symbols_alloc_find_entry :: "u64 \<Rightarrow> jmSummary \<Rightarrow> nat option outcome" where
  "jm_symbols_alloc_find_entry key sm = (if key = 0 then Ok None else HASH_FIND_PTR (sm_entries sm) key)"

text \<open>An access through the pointer to an entry, which is \<open>NULL\<close> when it is \<open>None\<close>.\<close>

definition update_entry ::
    "nat option \<Rightarrow> (jmAllocEntry \<Rightarrow> jmAllocEntry outcome) \<Rightarrow> jmSummary \<Rightarrow> jmSummary outcome" where
  "update_entry entry f sm =
     (case entry of
        None \<Rightarrow> Fail Undefined_Behaviour
      | Some i \<Rightarrow>
          if i < length (sm_heap sm)
          then and_then (f (sm_heap sm ! i)) (\<lambda>e. Ok (sm\<lparr>sm_heap := (sm_heap sm)[i := e]\<rparr>))
          else Fail Undefined_Behaviour)"

definition jm_symbols_alloc_push_backtrace ::
    "nat option \<Rightarrow> jmBacktrace \<Rightarrow> jmSummary \<Rightarrow> jmSummary outcome" where
  "jm_symbols_alloc_push_backtrace entry bt =
     update_entry entry (\<lambda>e. if length (en_traces e) < MAX_BACKTRACE_COUNT
       then Ok (e\<lparr>en_traces := en_traces e @ [bt]\<rparr>) else Fail Undefined_Behaviour)"

section \<open>Parsing a log\<close>

definition parse_alloc :: "memory \<Rightarrow> jmInst \<Rightarrow> jmSummary \<Rightarrow> jmSummary outcome" where
  "parse_alloc mem inst sm =
     jm_symbols_alloc_add_entry mem inst
       (sm\<lparr>sm_alloc_count := sm_alloc_count sm + 1, sm_total := sm_total sm + in_alloc_size inst,
           sm_alloc_ctx := in_addr inst\<rparr>)"

definition parse_backtrace :: "dwarf \<Rightarrow> jmInst \<Rightarrow> jmSummary \<Rightarrow> jmSummary outcome" where
  "parse_backtrace dw inst sm =
     (if sm_alloc_ctx sm = 0 then Fail Assertion_Failed
      else
        and_then (jm_symbols_alloc_find_entry (sm_alloc_ctx sm) sm) (\<lambda>entry.
        and_then (jm_symbols_build_backtrace dw (sm_modules sm) (in_addr inst)) (\<lambda>bt.
        jm_symbols_alloc_push_backtrace entry bt sm)))"

definition parse_free :: "jmInst \<Rightarrow> jmSummary \<Rightarrow> jmSummary outcome" where
  "parse_free inst sm =
     (let sm = sm\<lparr>sm_free_count := sm_free_count sm + 1, sm_total := sm_total sm - in_alloc_size inst,
                  sm_alloc_ctx := in_addr inst\<rparr>
      in and_then (jm_symbols_alloc_find_entry (in_addr inst) sm) (\<lambda>entry.
         update_entry entry (\<lambda>e. Ok (e\<lparr>en_is_leaking := False\<rparr>)) sm))"

definition parse_module :: "jmInst \<Rightarrow> jmSummary \<Rightarrow> jmSummary" where
  "parse_module inst sm =
     (if take 13 (in_ctx inst) = ''linux-vdso.so'' then sm
      else sm\<lparr>sm_modules := sm_modules sm @ [(in_ctx inst, in_addr inst)]\<rparr>)"

definition parse_region :: "jmInst \<Rightarrow> jmSummary \<Rightarrow> jmSummary outcome" where
  "parse_region inst sm =
     (if length (sm_regions sm) \<le> sm_region_count sm then Fail Undefined_Behaviour
      else
        (let r = sm_regions sm ! sm_region_count sm;
             r = r\<lparr>start := in_addr inst,
                   end_addr := scanned_num (sscanf [Scan_Ptr] (in_ctx inst)) 0 (end_addr r)\<rparr>
         in Ok (sm\<lparr>sm_regions := (sm_regions sm)[sm_region_count sm := r],
                   sm_region_count := Suc (sm_region_count sm)\<rparr>)))"

definition parse_inst :: "memory \<Rightarrow> dwarf \<Rightarrow> jmInst \<Rightarrow> jmSummary \<Rightarrow> jmSummary outcome" where
  "parse_inst mem dw inst sm =
     (if in_opcode inst = opcode_char JM_OPCODE_ALLOC then parse_alloc mem inst sm
      else if in_opcode inst = opcode_char JM_OPCODE_BACKTRACE then parse_backtrace dw inst sm
      else if in_opcode inst = opcode_char JM_OPCODE_EXEC_PATH then Ok (sm\<lparr>sm_path := in_ctx inst\<rparr>)
      else if in_opcode inst = opcode_char JM_OPCODE_FREE then parse_free inst sm
      else if in_opcode inst = opcode_char JM_OPCODE_MODULE then Ok (parse_module inst sm)
      else if in_opcode inst = opcode_char JM_OPCODE_REGION then parse_region inst sm
      else Ok sm)"

function parse_lines :: "memory \<Rightarrow> dwarf \<Rightarrow> string \<Rightarrow> jmSummary \<Rightarrow> jmSummary outcome" where
  "parse_lines mem dw stream sm =
     (case fgets MAX_BUFFER_SIZE stream of
        None \<Rightarrow> Ok sm
      | Some (buffer, rest) \<Rightarrow>
          and_then (parse_inst mem dw (jm_symbols_build_inst buffer) sm) (parse_lines mem dw rest))"
  by pat_completeness auto

termination
  by (relation "measure (\<lambda>(_, _, stream, _). length stream)")
    (auto dest: fgets_Some(4) simp: MAX_BUFFER_SIZE_def)

declare parse_lines.simps [simp del]

definition jm_symbols_parse_log :: "memory \<Rightarrow> dwarf \<Rightarrow> string \<Rightarrow> jmSummary outcome" where
  "jm_symbols_parse_log mem dw stream = parse_lines mem dw stream initial_summary"

section \<open>The report\<close>

definition int_string :: "int \<Rightarrow> string" where
  "int_string i = (if i < 0 then CHR ''-'' # dec_string (nat (- i)) else dec_string (nat i))"

definition libc_ld :: "u64 \<Rightarrow> string" where "libc_ld v = int_string (sint v)"
definition libc_d :: "u64 \<Rightarrow> string" where "libc_d v = int_string (sint (ucast v :: u32))"

definition libc_p :: "u64 \<Rightarrow> string" where
  "libc_p v = (if v = 0 then ''(nil)'' else ''0x'' @ hex_string (unat v))"

definition newline :: string where "newline = [CHR ''\<newline>'']"

definition report_frame :: "jmBacktrace \<Rightarrow> string" where
  "report_frame bt =
     ''    @ 0x'' @ hex_string (unat (bt_addr bt)) @ '': '' @ bt_sym_name bt @ '' ('' @ bt_src_name bt @
     '':'' @ int_string (bt_src_line bt) @ '':'' @ int_string (bt_src_column bt) @ '')'' @ newline @
     ''      (in '' @ bt_mod_name bt @ '')'' @ newline"

definition report_entry :: "nat \<Rightarrow> jmAllocEntry \<Rightarrow> string" where
  "report_entry counter e =
     (if en_is_leaking e then
        ''  ~ alloc #'' @ dec_string counter @ '' (! '' @ dec_string (unat (en_timestamp e)) @
        '' ms) -> ['' @ libc_ld (en_alloc_size e) @ '' bytes @ '' @ libc_p (en_key e) @ '']: '' @ newline @
        concat (map report_frame (en_traces e)) @ newline
      else [])"

text \<open>The loop over the application order, from \<open>summary.entries\<close> along \<open>hh.next\<close>.\<close>

fun report_entries :: "nat \<Rightarrow> item list \<Rightarrow> jmSummary \<Rightarrow> string outcome" where
  "report_entries counter [] sm = Ok []"
| "report_entries counter (it # its) sm =
     (if it_id it < length (sm_heap sm) then
        and_then (report_entries (Suc counter) its sm)
          (\<lambda>out. Ok (report_entry counter (sm_heap sm ! it_id it) @ out))
      else Fail Undefined_Behaviour)"

definition report_banner :: "jmSummary \<Rightarrow> string" where
  "report_banner sm =
     newline @ ''jmprof v0.0.7 by Jaedeok Kim (jdeokkim@protonmail.com)'' @ newline @ newline @
     ''> '' @ sm_path sm @ newline @ newline @
     ''SUMMARY: '' @ newline @
     ''  '' @ libc_d (sm_alloc_count sm) @ '' allocs, '' @ libc_d (sm_free_count sm) @ '' frees ('' @
     libc_ld (sm_total sm) @ '' bytes alloc-ed)'' @ newline @ newline"

definition report :: "jmSummary \<Rightarrow> string outcome" where
  "report sm =
     and_then (report_entries 1 (items (sm_entries sm)) sm) (\<lambda>out.
     and_then (HASH_CLEAR_ALL (sm_entries sm)) (\<lambda>_. Ok (report_banner sm @ out)))"

text \<open>
  \<open>main\<close>: the exit status, the standard output and the standard error, given the arguments and
  the file system.
\<close>

definition interpret_main ::
    "memory \<Rightarrow> dwarf \<Rightarrow> (string \<Rightarrow> string option) \<Rightarrow> string list \<Rightarrow> (int \<times> string \<times> string) outcome" where
  "interpret_main mem dw fopen argv =
     (if argv = [] then Fail Undefined_Behaviour
      else if length argv < 2 then
        Ok (1, [], argv ! 0 @ '': usage: '' @ argv ! 0 @ '' <path>'' @ newline)
      else
        (case fopen (argv ! 1) of
           None \<Rightarrow> Ok (1, [], argv ! 0 @ '': error: unable to open file '' @ [CHR 0x27] @ argv ! 1 @
                              [CHR 0x27] @ newline)
         | Some stream \<Rightarrow>
             and_then (jm_symbols_parse_log mem dw stream) (\<lambda>sm.
             and_then (report sm) (\<lambda>out.
             Ok (0, (if 2 < length argv then newline @ argv ! 2 @ newline else []) @ out, [])))))"

section \<open>The invariant of the summary\<close>

text \<open>The entry numbered \<open>i\<close> in the table is the one at place \<open>i\<close>, under its own key.\<close>

definition summary_ok :: "jmSummary \<Rightarrow> bool" where
  "summary_ok sm \<longleftrightarrow> hash_ok (sm_entries sm) \<and>
     entries_of (sm_entries sm) = enumerate 0 (map en_key (sm_heap sm)) \<and>
     length (sm_regions sm) = MAX_REGION_COUNT \<and> sm_region_count sm \<le> MAX_REGION_COUNT \<and>
     (\<forall>e \<in> set (sm_heap sm). length (en_traces e) \<le> MAX_BACKTRACE_COUNT)"

lemma initial_summary_ok: "summary_ok initial_summary"
  by (simp add: summary_ok_def initial_summary_def hash_ok_def entries_of_def items_def)

lemma in_entries:
  assumes "summary_ok sm"
  shows "(i, k) \<in> set (entries_of (sm_entries sm)) \<longleftrightarrow>
    i < length (sm_heap sm) \<and> en_key (sm_heap sm ! i) = k"
  using assms by (auto simp: summary_ok_def in_set_enumerate_eq)

lemma keys_of: "summary_ok sm \<Longrightarrow> snd ` set (entries_of (sm_entries sm)) = en_key ` set (sm_heap sm)"
  unfolding summary_ok_def by (metis list.set_map map_snd_enumerate)

lemma find_entry_total:
  assumes "summary_ok sm"
  obtains r where "jm_symbols_alloc_find_entry key sm = Ok r"
    "\<And>i. r = Some i \<Longrightarrow> i < length (sm_heap sm) \<and> en_key (sm_heap sm ! i) = key \<and> key \<noteq> 0"
proof (cases "key = 0")
  case True
  then show ?thesis using that [of None] by (simp add: jm_symbols_alloc_find_entry_def)
next
  case False
  obtain r where "HASH_FIND_PTR (sm_entries sm) key = Ok r" "find_fits (entries_of (sm_entries sm)) key r"
    using hash_lookup assms unfolding summary_ok_def by blast
  moreover from this have "i < length (sm_heap sm) \<and> en_key (sm_heap sm ! i) = key" if "r = Some i" for i
    using that in_entries [OF assms] by (simp add: find_fits_def)
  ultimately show ?thesis
    using that [of r] False by (simp add: jm_symbols_alloc_find_entry_def)
qed

lemma update_entry_ok:
  assumes "summary_ok sm" "update_entry r f sm = Ok sm'"
    and "\<And>e e'. f e = Ok e' \<Longrightarrow> en_key e' = en_key e \<and>
      (length (en_traces e) \<le> MAX_BACKTRACE_COUNT \<longrightarrow> length (en_traces e') \<le> MAX_BACKTRACE_COUNT)"
  shows "summary_ok sm'"
proof -
  obtain i e where i: "r = Some i" "i < length (sm_heap sm)" "f (sm_heap sm ! i) = Ok e"
    "sm' = sm\<lparr>sm_heap := (sm_heap sm)[i := e]\<rparr>"
    using assms(2) by (auto simp: update_entry_def and_then_Ok_iff split: option.splits if_splits)
  have "map en_key ((sm_heap sm)[i := e]) = map en_key (sm_heap sm)"
    using i assms(3) by (simp add: map_update list_update_same_conv)
  moreover have "\<forall>e' \<in> set ((sm_heap sm)[i := e]). length (en_traces e') \<le> MAX_BACKTRACE_COUNT"
    using i assms(1) assms(3) [OF i(3)] by (auto simp: summary_ok_def dest!: set_update_subset_insert [THEN subsetD])
  ultimately show ?thesis using i(4) assms(1) by (simp add: summary_ok_def)
qed

lemma entries_append: "enumerate 0 (xs @ [x]) = enumerate 0 xs @ [(length xs, x)]"
  by (simp add: enumerate_append_eq)

text \<open>A machine that gives every entry, but no table of 64 gigabytes.\<close>

definition sound_memory :: "memory \<Rightarrow> bool" where
  "sound_memory mem \<longleftrightarrow> limited mem \<and> mem sizeof_entry"

definition new_entry :: "jmInst \<Rightarrow> jmAllocEntry" where
  "new_entry inst = \<lparr>en_key = in_addr inst, en_is_leaking = True,
     en_alloc_size = in_alloc_size inst, en_timestamp = in_timestamp inst, en_traces = []\<rparr>"

lemma parse_alloc_cases:
  assumes "summary_ok sm" "sound_memory mem"
  shows "parse_alloc mem inst sm = Fail Exit_Called \<and> \<not> granted mem (sm_entries sm) \<or>
    (\<exists>h. parse_alloc mem inst sm = Ok (sm\<lparr>sm_alloc_count := sm_alloc_count sm + 1,
        sm_total := sm_total sm + in_alloc_size inst, sm_alloc_ctx := in_addr inst,
        sm_heap := sm_heap sm @ [new_entry inst], sm_entries := h\<rparr>) \<and> hash_ok h \<and>
      entries_of h = entries_of (sm_entries sm) @ [(length (sm_heap sm), in_addr inst)])"
  using uthash.add_cases [of mem "sm_entries sm" "length (sm_heap sm)" "in_addr inst"] assms
  by (auto simp: parse_alloc_def jm_symbols_alloc_add_entry_def sound_memory_def summary_ok_def
      new_entry_def Let_def)

lemma parse_alloc_ok:
  assumes "summary_ok sm" "sound_memory mem" "parse_alloc mem inst sm = Ok sm'"
  shows "summary_ok sm'"
  using parse_alloc_cases [OF assms(1,2), of inst] assms(1,3)
  by (auto simp: summary_ok_def entries_append new_entry_def simp del: enumerate_append_eq)

lemma parse_inst_invariant:
  assumes "summary_ok sm" "sound_memory mem" "parse_inst mem dw inst sm = Ok sm'"
  shows "summary_ok sm'"
proof -
  have alloc: "summary_ok s" if "parse_alloc mem inst sm = Ok s" for s
    using parse_alloc_ok [OF assms(1,2) that] .
  have trace: "summary_ok s" if "parse_backtrace dw inst sm = Ok s" for s
    using that update_entry_ok [OF assms(1)]
    by (fastforce simp: parse_backtrace_def and_then_Ok_iff jm_symbols_alloc_push_backtrace_def
        split: if_splits)
  have free: "summary_ok s" if f: "parse_free inst sm = Ok s" for s
  proof -
    define sm1 where "sm1 = sm\<lparr>sm_free_count := sm_free_count sm + 1,
        sm_total := sm_total sm - in_alloc_size inst, sm_alloc_ctx := in_addr inst\<rparr>"
    have "summary_ok sm1" using assms(1) by (simp add: summary_ok_def sm1_def)
    moreover obtain r where "update_entry r (\<lambda>e. Ok (e\<lparr>en_is_leaking := False\<rparr>)) sm1 = Ok s"
      using f by (auto simp: parse_free_def sm1_def Let_def and_then_Ok_iff)
    ultimately show ?thesis by (rule update_entry_ok) auto
  qed
  have region: "summary_ok s" if "parse_region inst sm = Ok s" for s
    using that assms(1) by (auto simp: parse_region_def Let_def summary_ok_def split: if_splits)
  show ?thesis
    using assms(1,3) alloc trace free region
    by (auto simp: parse_inst_def parse_module_def summary_ok_def split: if_splits)
qed

text \<open>The report reaches every entry, and the clean-up frees the table.\<close>

lemma report_entries_total:
  assumes "\<forall>it \<in> set its. it_id it < length (sm_heap sm)"
  shows "\<exists>out. report_entries n its sm = Ok out"
  using assms
proof (induction its arbitrary: n)
  case (Cons it its)
  then obtain out where "report_entries (Suc n) its sm = Ok out" by fastforce
  then show ?case using Cons.prems by simp
qed simp

lemma report_total:
  assumes "summary_ok sm"
  shows "\<exists>out. report sm = Ok out"
proof -
  have "\<forall>it \<in> set (items (sm_entries sm)). it_id it < length (sm_heap sm)"
    using in_entries [OF assms] by (force simp: entries_of_def)
  then obtain out where "report_entries 1 (items (sm_entries sm)) sm = Ok out"
    using report_entries_total by blast
  moreover have "HASH_CLEAR_ALL (sm_entries sm) = Ok None"
    using hash_clear assms by (simp add: summary_ok_def)
  ultimately show ?thesis by (simp add: report_def)
qed

end
