(* ===== verification/Log.thy ===== *)
theory Log
  imports Preload Interpret
begin

text \<open>
  The log as the protocol between the preloaded library and the interpreter: the events, the line
  that \<open>src/tracker.c\<close> and \<open>src/backtrace.c\<close> print for each, and the instruction that
  \<open>src/interpret.c\<close> reads back from it.
\<close>

section \<open>Events\<close>

datatype event =
    Allocated u64 u64
  | Released u64 u64
  | Framed u64
  | Executes string
  | Loaded u64 string
  | Heaped u64 u64

fun event_body :: "event \<Rightarrow> string" where
  "event_body (Allocated ptr usable) = alloc_line True ptr usable"
| "event_body (Released ptr usable) = alloc_line False ptr usable"
| "event_body (Framed pc) = frame_line pc"
| "event_body (Executes path) = module_line CHR ''x'' 0 path"
| "event_body (Loaded addr name) = module_line CHR ''m'' addr name"
| "event_body (Heaped s e) = region_line \<lparr>start = s, end_addr = e\<rparr>"

definition event_line :: "u64 \<times> event \<Rightarrow> string" where
  "event_line te = dec_string (unat (fst te)) @ '' '' @ event_body (snd te)"

text \<open>What the interpreter makes of it.\<close>

fun event_inst :: "u64 \<times> event \<Rightarrow> jmInst" where
  "event_inst (t, Allocated ptr usable) =
     \<lparr>in_opcode = CHR ''a'', in_ctx = dec_string (unat usable), in_timestamp = t,
      in_alloc_size = to_long False (unat usable), in_addr = ptr\<rparr>"
| "event_inst (t, Released ptr usable) =
     \<lparr>in_opcode = CHR ''f'', in_ctx = dec_string (unat usable), in_timestamp = t,
      in_alloc_size = 0, in_addr = ptr\<rparr>"
| "event_inst (t, Framed pc) =
     \<lparr>in_opcode = CHR ''b'', in_ctx = [], in_timestamp = t, in_alloc_size = 0, in_addr = pc\<rparr>"
| "event_inst (t, Executes path) =
     \<lparr>in_opcode = CHR ''x'', in_ctx = path, in_timestamp = t, in_alloc_size = 0, in_addr = 0\<rparr>"
| "event_inst (t, Loaded addr name) =
     \<lparr>in_opcode = CHR ''m'', in_ctx = name, in_timestamp = t, in_alloc_size = 0, in_addr = addr\<rparr>"
| "event_inst (t, Heaped s e) =
     \<lparr>in_opcode = CHR ''r'', in_ctx = ''0x'' @ hex_string (unat e), in_timestamp = t,
      in_alloc_size = 0, in_addr = s\<rparr>"

text \<open>A name of one word: no white space and no null character, and it fits a line.\<close>

definition one_word :: "string \<Rightarrow> bool" where
  "one_word name \<longleftrightarrow> name \<noteq> [] \<and> list_all (\<lambda>c. \<not> is_space c \<and> c \<noteq> NUL) name \<and> length name \<le> 2000"

fun event_ok :: "event \<Rightarrow> bool" where
  "event_ok (Executes path) = one_word path"
| "event_ok (Loaded addr name) = one_word name"
| "event_ok _ = True"

section \<open>Reading a line back\<close>

lemma digit_not_NUL: "digit_of_char c = Some d \<Longrightarrow> c \<noteq> NUL"
  by (auto simp: digit_of_char_def Let_def split: if_splits)

lemma num_string_word:
  assumes "2 \<le> b" "b \<le> 16" "c \<in> set (num_string False b n)"
  shows "\<not> is_space c" "c \<noteq> NUL" "c \<noteq> CHR ''\<newline>''"
proof -
  obtain d where d: "d < b" "c = digit_char False d"
    using num_string_digits assms by blast
  then have "digit_of_char c = Some d" using assms(2) by simp
  then show "\<not> is_space c" "c \<noteq> NUL" using digit_not_space digit_not_NUL by blast+
  then show "c \<noteq> CHR ''\<newline>''" by (auto simp: is_space_def)
qed

lemma one_word_num: 
  assumes "2 \<le> b" "b \<le> 16"
  shows "list_all (\<lambda>c. \<not> is_space c \<and> c \<noteq> NUL) (num_string False b n)" "num_string False b n \<noteq> []"
  using num_string_word [OF assms] num_string_not_Nil by (auto simp: list_all_iff)

lemma takeWhile_word:
  "list_all (\<lambda>c. \<not> is_space c \<and> c \<noteq> NUL) t \<Longrightarrow>
     takeWhile (\<lambda>c. \<not> is_space c) (t @ CHR ''\<newline>'' # r) = t"
  by (induction t) (auto simp: is_space_def)

lemma skip_word:
  "list_all (\<lambda>c. \<not> is_space c \<and> c \<noteq> NUL) t \<Longrightarrow> t \<noteq> [] \<Longrightarrow> skip_space (t @ r) = t @ r"
  by (cases t) (auto simp: skip_space_def)

lemma stops_space [simp]: "stops b (CHR '' '' # r)" "stops b (CHR ''\<newline>'' # r)"
  by (simp_all add: stops_def digit_of_char_def)

lemma skip_space_simps [simp]:
  "skip_space (CHR '' '' # r) = skip_space r" "skip_space (CHR ''\<newline>'' # r) = skip_space r"
  "skip_space [] = []"
  by (simp_all add: skip_space_def is_space_def)

lemma skip_not_space [simp]: "\<not> is_space c \<Longrightarrow> skip_space (c # r) = c # r"
  by (simp add: skip_space_def)

lemma skip_space_idem [simp]: "skip_space (skip_space s) = skip_space s"
  by (simp add: skip_space_def)

lemma scan_line:
  assumes "\<not> is_space c" "r = CHR '' '' # t @ [CHR ''\<newline>''] \<or> r = [CHR ''\<newline>''] \<and> t = []"
    and "list_all (\<lambda>c. \<not> is_space c \<and> c \<noteq> NUL) t"
  shows "sscanf inst_directives (dec_string (unat (ts :: u64)) @ '' '' @ [c] @ '' 0x'' @ hex_string (unat (a :: u64)) @ r) =
    [Num ts, Chr c, Num a] @ (if t = [] then [] else [Str t])"
proof -
  have stop: "stops 16 r" using assms(2) by auto
  have tail: "sscanf [Scan_Space, Scan_Str] r = (if t = [] then [] else [Str t])"
  proof (cases "t = []")
    case True
    then show ?thesis using assms(2) by auto
  next
    case False
    then show ?thesis
      using assms(2) skip_word [OF assms(3) False, of "[CHR ''\<newline>'']"]
        takeWhile_word [OF assms(3), of "[]"]
      by simp
  qed
  show ?thesis
    using assms(1) scan_number_dec [of "CHR '' '' # c # '' 0x'' @ hex_string (unat a) @ r" "unat ts"]
      scan_number_hex [OF stop, of "unat a"] tail
    by (simp add: inst_directives_def is_space_def)
qed


lemma c_string_id: "NUL \<notin> set s \<Longrightarrow> c_string s = s"
  unfolding c_string_def by (rule takeWhile_eq_all_conv [THEN iffD2]) auto

lemma NUL_word: "list_all (\<lambda>c. \<not> is_space c \<and> c \<noteq> NUL) t \<Longrightarrow> NUL \<notin> set t"
  by (auto simp: list_all_iff)

lemma NUL_num [simp]:
  "NUL \<notin> set (dec_string n)" "NUL \<notin> set (hex_string n)"
  using num_string_word(2) [of 10] num_string_word(2) [of 16] by auto

lemma newline_num [simp]:
  "CHR ''\<newline>'' \<notin> set (dec_string n)" "CHR ''\<newline>'' \<notin> set (hex_string n)"
  using num_string_word(3) [of 10] num_string_word(3) [of 16] by auto

lemma not_space_newlines: "\<not> is_space c \<Longrightarrow> c \<noteq> CHR 0x0D \<and> c \<noteq> CHR ''\<newline>''"
  by (auto simp: is_space_def)

lemma takeWhile_ctx:
  "list_all (\<lambda>c. \<not> is_space c \<and> c \<noteq> NUL) t \<Longrightarrow>
     takeWhile (\<lambda>c. c \<noteq> CHR 0x0D \<and> c \<noteq> CHR ''\<newline>'') t = t"
  using not_space_newlines by (auto simp: list_all_iff)

lemma build_inst_line:
  assumes "\<not> is_space c" "c \<noteq> NUL"
    and "r = CHR '' '' # t @ [CHR ''\<newline>''] \<or> r = [CHR ''\<newline>''] \<and> t = []"
    and "list_all (\<lambda>c. \<not> is_space c \<and> c \<noteq> NUL) t"
  shows "jm_symbols_build_inst (dec_string (unat (ts :: u64)) @ '' '' @ [c] @ '' 0x'' @ hex_string (unat (a :: u64)) @ r) =
    \<lparr>in_opcode = c, in_ctx = t, in_timestamp = ts,
     in_alloc_size = (if c = CHR ''a'' then strtol10 t else 0), in_addr = a\<rparr>"
proof -
  let ?s = "dec_string (unat ts) @ '' '' @ [c] @ '' 0x'' @ hex_string (unat a) @ r"
  have "NUL \<notin> set r" using assms(3) NUL_word [OF assms(4)] by auto
  then have "c_string ?s = ?s" using assms(2) by (intro c_string_id) auto
  then show ?thesis
    using scan_line [OF assms(1,3,4), of ts a] takeWhile_ctx [OF assms(4)]
    by (simp add: jm_symbols_build_inst_def scanned_char_def scanned_num_def scanned_str_def Let_def)
qed

lemma strtol10_dec: "strtol10 (dec_string n) = to_long False n"
  using scan_number_dec [of "[]" n] by (simp add: strtol10_def stops_def)

lemma to_long_small:
  assumes "unat (v :: u64) < 2 ^ 63"
  shows "to_long False (unat v) = v"
proof -
  have "max (- (2 ^ 63)) (min (2 ^ 63 - 1) (int n)) = int n" if "n < 2 ^ 63" for n :: nat
    using that by simp
  from this [OF assms] have "to_long False (unat v) = word_of_int (int (unat v))"
    unfolding to_long_def by (simp only: if_False)
  then show ?thesis by simp
qed

lemma build_inst_event:
  assumes "event_ok (snd te)"
  shows "jm_symbols_build_inst (event_line te) = event_inst te"
proof -
  obtain t e where te: "te = (t, e)" by (cases te)
  note word10 = one_word_num [of 10] and word16 = one_word_num [of 16]
  have hex: "list_all (\<lambda>c. \<not> is_space c \<and> c \<noteq> NUL) (''0x'' @ hex_string n)" for n
    using word16 by (simp add: is_space_def)
  show ?thesis
  proof (cases e)
    case (Allocated ptr usable)
    then show ?thesis
      using build_inst_line [of "CHR ''a''" _ "dec_string (unat usable)" t ptr, OF _ _ disjI1 [OF refl]] word10
      by (simp add: te event_line_def alloc_line_def is_space_def strtol10_dec)
  next
    case (Released ptr usable)
    then show ?thesis
      using build_inst_line [of "CHR ''f''" _ "dec_string (unat usable)" t ptr, OF _ _ disjI1 [OF refl]] word10
      by (simp add: te event_line_def alloc_line_def is_space_def)
  next
    case (Framed pc)
    then show ?thesis
      using build_inst_line [of "CHR ''b''" "[CHR ''\<newline>'']" "[]" t pc]
      by (simp add: te event_line_def frame_line_def is_space_def)
  next
    case (Executes path)
    then show ?thesis
      using build_inst_line [of "CHR ''x''" _ path t 0, OF _ _ disjI1 [OF refl]] assms
      by (simp add: te event_line_def module_line_def is_space_def one_word_def)
  next
    case (Loaded addr name)
    then show ?thesis
      using build_inst_line [of "CHR ''m''" _ name t addr, OF _ _ disjI1 [OF refl]] assms
      by (simp add: te event_line_def module_line_def is_space_def one_word_def)
  next
    case (Heaped s e)
    then show ?thesis
      using build_inst_line [of "CHR ''r''" _ "''0x'' @ hex_string (unat e)" t s, OF _ _ disjI1 [OF refl]] hex
      by (simp add: te event_line_def region_line_def is_space_def)
  qed
qed


section \<open>Reading a log\<close>

fun parse_events :: "memory \<Rightarrow> dwarf \<Rightarrow> (u64 \<times> event) list \<Rightarrow> jmSummary \<Rightarrow> jmSummary outcome" where
  "parse_events mem dw [] sm = Ok sm"
| "parse_events mem dw (te # tes) sm =
     and_then (parse_inst mem dw (event_inst te) sm) (parse_events mem dw tes)"

lemma event_line_framed:
  assumes "event_ok (snd te)"
  obtains l where "event_line te = l @ [CHR ''\<newline>'']" "CHR ''\<newline>'' \<notin> set l" "length l + 1 < MAX_BUFFER_SIZE"
proof -
  obtain t e where te: "te = (t, e)" by (cases te)
  have no_newline: "CHR ''\<newline>'' \<notin> set name" if "one_word name" for name
  proof -
    have "\<forall>c \<in> set name. \<not> is_space c" using that by (simp add: one_word_def list_all_iff)
    moreover have "is_space CHR ''\<newline>''" by (simp add: is_space_def)
    ultimately show ?thesis by blast
  qed
  have "\<exists>b. event_body e = b @ [CHR ''\<newline>''] \<and> CHR ''\<newline>'' \<notin> set b \<and> length b \<le> 2022"
  proof (cases e)
    case (Allocated ptr usable)
    then show ?thesis using length_hex_u64 [of ptr] length_dec_u64 [of usable]
      by (auto simp: alloc_line_def intro!: exI [of _ "''a 0x'' @ hex_string (unat ptr) @ '' '' @ dec_string (unat usable)"])
  next
    case (Released ptr usable)
    then show ?thesis using length_hex_u64 [of ptr] length_dec_u64 [of usable]
      by (auto simp: alloc_line_def intro!: exI [of _ "''f 0x'' @ hex_string (unat ptr) @ '' '' @ dec_string (unat usable)"])
  next
    case (Framed pc)
    then show ?thesis using length_hex_u64 [of pc]
      by (auto simp: frame_line_def intro!: exI [of _ "''b 0x'' @ hex_string (unat pc)"])
  next
    case (Executes path)
    then show ?thesis using length_hex_u64 [of 0] no_newline [of path] assms
      by (auto simp: module_line_def te one_word_def
          intro!: exI [of _ "''x 0x'' @ hex_string 0 @ '' '' @ path"])
  next
    case (Loaded addr name)
    then show ?thesis using length_hex_u64 [of addr] no_newline [of name] assms
      by (auto simp: module_line_def te one_word_def
          intro!: exI [of _ "''m 0x'' @ hex_string (unat addr) @ '' '' @ name"])
  next
    case (Heaped s e)
    then show ?thesis using length_hex_u64 [of s] length_hex_u64 [of e]
      by (auto simp: region_line_def
          intro!: exI [of _ "''r 0x'' @ hex_string (unat s) @ '' 0x'' @ hex_string (unat e)"])
  qed
  then obtain b where "event_body e = b @ [CHR ''\<newline>'']" "CHR ''\<newline>'' \<notin> set b" "length b \<le> 2022"
    by blast
  then show ?thesis
    using that [of "dec_string (unat t) @ '' '' @ b"] length_dec_u64 [of t]
    by (simp add: event_line_def te MAX_BUFFER_SIZE_def)
qed

lemma parse_lines_events:
  assumes "list_all (\<lambda>te. event_ok (snd te)) tes"
  shows "parse_lines mem dw (concat (map event_line tes)) sm = parse_events mem dw tes sm"
  using assms
proof (induction tes arbitrary: sm)
  case Nil
  then show ?case by (simp add: parse_lines.simps fgets_def)
next
  case (Cons te tes)
  then obtain l where l: "event_line te = l @ [CHR ''\<newline>'']" "CHR ''\<newline>'' \<notin> set l" "length l + 1 < MAX_BUFFER_SIZE"
    using event_line_framed [of te] by auto
  have "fgets MAX_BUFFER_SIZE (concat (map event_line (te # tes))) =
      Some (event_line te, concat (map event_line tes))"
    using fgets_line [OF l(2,3)] l(1) by simp
  moreover have "parse_lines mem dw (concat (map event_line tes)) = parse_events mem dw tes"
    using Cons by (simp add: fun_eq_iff)
  ultimately show ?case
    using Cons.prems build_inst_event [of te]
    by (subst parse_lines.simps) simp
qed

section \<open>Properties\<close>



text \<open>A whole log is read event by event: lines are neither merged nor split, so that the
  interpreter's loop over the bytes is the fold of its action on the events.\<close>

theorem log_read_by_events:
  assumes "list_all (\<lambda>te. event_ok (snd te)) tes"
  shows "jm_symbols_parse_log mem dw (concat (map event_line tes)) = parse_events mem dw tes initial_summary"
  unfolding jm_symbols_parse_log_def by (rule parse_lines_events [OF assms])

theorem log_read_by_events_witness:
  "jm_symbols_parse_log (\<lambda>_. True) undefined (concat (map event_line [(1, Executes ''/bin/app''), (2, Heaped 16 32)])) =
     parse_events (\<lambda>_. True) undefined [(1, Executes ''/bin/app''), (2, Heaped 16 32)] initial_summary"
  by (rule log_read_by_events) (simp add: one_word_def is_space_def)

end
