(* ===== verification/Ledger.thy ===== *)
theory Ledger
  imports Log
begin

text \<open>
  What the interpreter's summary means: a ledger from addresses to allocations, updated event by
  event, without hash table, entry heap or lines. The interpreter refines it as long as no address
  is allocated twice.
\<close>

section \<open>The ledger\<close>

record ledger =
  ld_entry :: "u64 \<Rightarrow> jmAllocEntry option"
  ld_ctx :: u64
  ld_modules :: "(string \<times> u64) list"
  ld_regions :: "jmRegion list"
  ld_path :: string
  ld_allocs :: u64
  ld_frees :: u64
  ld_total :: u64

definition empty_ledger :: ledger where
  "empty_ledger = \<lparr>ld_entry = (\<lambda>_. None), ld_ctx = 0, ld_modules = [], ld_regions = [], ld_path = [],
     ld_allocs = 0, ld_frees = 0, ld_total = 0\<rparr>"

definition ledger_release :: "u64 \<Rightarrow> ledger \<Rightarrow> ledger option" where
  "ledger_release p L =
     (if p = 0 then None
      else map_option (\<lambda>e. L\<lparr>ld_frees := ld_frees L + 1, ld_ctx := p,
             ld_entry := (ld_entry L)(p \<mapsto> e\<lparr>en_is_leaking := False\<rparr>)\<rparr>) (ld_entry L p))"

definition ledger_frame :: "dwarf \<Rightarrow> u64 \<Rightarrow> ledger \<Rightarrow> ledger option" where
  "ledger_frame dw pc L =
     (case ld_entry L (ld_ctx L) of
        None \<Rightarrow> None
      | Some e \<Rightarrow>
          (case jm_symbols_build_backtrace dw (ld_modules L) pc of
             Fail _ \<Rightarrow> None
           | Ok bt \<Rightarrow>
               if ld_ctx L = 0 \<or> MAX_BACKTRACE_COUNT \<le> length (en_traces e) then None
               else Some (L\<lparr>ld_entry := (ld_entry L)
                            (ld_ctx L \<mapsto> e\<lparr>en_traces := en_traces e @ [bt]\<rparr>)\<rparr>)))"

fun ledger_step :: "dwarf \<Rightarrow> u64 \<times> event \<Rightarrow> ledger \<Rightarrow> ledger option" where
  "ledger_step dw (t, Allocated p u) L =
     Some (L\<lparr>ld_entry := (ld_entry L)(p \<mapsto> new_entry (event_inst (t, Allocated p u))), ld_ctx := p,
             ld_allocs := ld_allocs L + 1, ld_total := ld_total L + to_long False (unat u)\<rparr>)"
| "ledger_step dw (t, Released p u) L = ledger_release p L"
| "ledger_step dw (t, Framed pc) L = ledger_frame dw pc L"
| "ledger_step dw (t, Executes path) L = Some (L\<lparr>ld_path := path\<rparr>)"
| "ledger_step dw (t, Loaded addr name) L =
     Some (if take 13 name = ''linux-vdso.so'' then L
           else L\<lparr>ld_modules := ld_modules L @ [(name, addr)]\<rparr>)"
| "ledger_step dw (t, Heaped s e) L =
     (if MAX_REGION_COUNT \<le> length (ld_regions L) then None
      else Some (L\<lparr>ld_regions := ld_regions L @ [\<lparr>start = s, end_addr = e\<rparr>]\<rparr>))"

fun ledger_run :: "dwarf \<Rightarrow> (u64 \<times> event) list \<Rightarrow> ledger \<Rightarrow> ledger option" where
  "ledger_run dw [] L = Some L"
| "ledger_run dw (te # tes) L = Option.bind (ledger_step dw te L) (ledger_run dw tes)"

section \<open>Refinement\<close>

definition keyed :: "jmAllocEntry list \<Rightarrow> (u64 \<times> jmAllocEntry) list" where
  "keyed es = map (\<lambda>e. (en_key e, e)) es"

definition ledger_of :: "jmSummary \<Rightarrow> ledger" where
  "ledger_of sm =
     \<lparr>ld_entry = map_of (keyed (sm_heap sm)), ld_ctx = sm_alloc_ctx sm, ld_modules = sm_modules sm,
      ld_regions = take (sm_region_count sm) (sm_regions sm), ld_path = sm_path sm,
      ld_allocs = sm_alloc_count sm, ld_frees = sm_free_count sm, ld_total = sm_total sm\<rparr>"

definition distinct_keys :: "jmSummary \<Rightarrow> bool" where
  "distinct_keys sm \<longleftrightarrow> distinct (map en_key (sm_heap sm))"

fun fresh :: "ledger \<Rightarrow> u64 \<times> event \<Rightarrow> bool" where
  "fresh L (t, Allocated p u) \<longleftrightarrow> ld_entry L p = None"
| "fresh L _ \<longleftrightarrow> True"

lemma keyed_update:
  assumes "i < length es" "distinct (map en_key es)" "en_key e = en_key (es ! i)"
  shows "map_of (keyed (es[i := e])) = (map_of (keyed es))(en_key e \<mapsto> e)"
  using assms
proof (induction es arbitrary: i)
  case (Cons a es)
  show ?case
  proof (cases i)
    case (Suc j)
    then have "en_key e \<in> en_key ` set es" using Cons.prems by simp
    then have "en_key e \<noteq> en_key a" using Cons.prems by auto
    moreover have "map_of (keyed (es[j := e])) = (map_of (keyed es))(en_key e \<mapsto> e)"
      by (rule Cons.IH) (use Cons.prems Suc in auto)
    ultimately show ?thesis using Suc by (auto simp: keyed_def fun_eq_iff)
  qed (use Cons.prems in \<open>auto simp: keyed_def fun_eq_iff\<close>)
qed simp

lemma keyed_dom: "map_of (keyed es) k = None \<longleftrightarrow> k \<notin> en_key ` set es"
  by (simp add: keyed_def map_of_eq_None_iff image_image)

lemma keyed_append:
  assumes "map_of (keyed es) (en_key e) = None"
  shows "map_of (keyed (es @ [e])) = (map_of (keyed es))(en_key e \<mapsto> e)"
  using assms by (auto simp: keyed_def map_add_def fun_eq_iff split: option.splits)

lemma find_entry_ledger:
  assumes "summary_ok sm" "distinct_keys sm" "key \<noteq> 0"
  shows "(case ld_entry (ledger_of sm) key of
      None \<Rightarrow> jm_symbols_alloc_find_entry key sm = Ok None
    | Some e \<Rightarrow> \<exists>i < length (sm_heap sm). jm_symbols_alloc_find_entry key sm = Ok (Some i) \<and>
        sm_heap sm ! i = e \<and> en_key e = key)"
proof (cases "ld_entry (ledger_of sm) key")
  case None
  then have "key \<notin> snd ` set (entries_of (sm_entries sm))"
    using keys_of [OF assms(1)] by (simp add: ledger_of_def keyed_dom)
  then show ?thesis
    using None hash_lookup_missing assms by (simp add: jm_symbols_alloc_find_entry_def summary_ok_def)
next
  case (Some e)
  then have "e \<in> set (sm_heap sm)" "en_key e = key"
    by (auto simp: ledger_of_def keyed_def dest: map_of_SomeD)
  then obtain i where i: "i < length (sm_heap sm)" "sm_heap sm ! i = e" by (auto simp: in_set_conv_nth)
  have "distinct (map snd (entries_of (sm_entries sm)))"
    using assms(1,2) by (simp add: summary_ok_def distinct_keys_def)
  moreover have "(i, key) \<in> set (entries_of (sm_entries sm))"
    using i in_entries [OF assms(1)] \<open>en_key e = key\<close> by simp
  ultimately have "HASH_FIND_PTR (sm_entries sm) key = Ok (Some i)"
    using hash_lookup_unique assms(1) by (simp add: summary_ok_def)
  then show ?thesis
    using i Some assms(3) \<open>en_key e = key\<close> by (auto simp: jm_symbols_alloc_find_entry_def)
qed

definition refines :: "jmSummary outcome \<Rightarrow> ledger option \<Rightarrow> bool" where
  "refines r L \<longleftrightarrow> (case L of
     None \<Rightarrow> \<exists>f. r = Fail f
   | Some l \<Rightarrow> r = Fail Exit_Called \<or> (\<exists>sm. r = Ok sm \<and> ledger_of sm = l \<and> distinct_keys sm))"

lemma update_entry_ledger:
  assumes "i < length (sm_heap sm)" "distinct_keys sm" "f (sm_heap sm ! i) = Ok e" "en_key e = en_key (sm_heap sm ! i)"
  shows "\<exists>sm'. update_entry (Some i) f sm = Ok sm' \<and> distinct_keys sm' \<and>
    ledger_of sm' = (ledger_of sm)\<lparr>ld_entry := (ld_entry (ledger_of sm))(en_key e \<mapsto> e)\<rparr>"
proof -
  have "map en_key ((sm_heap sm)[i := e]) = map en_key (sm_heap sm)"
    using assms by (simp add: map_update list_update_same_conv)
  then show ?thesis
    using assms keyed_update [OF assms(1) _ assms(4)]
    by (simp add: update_entry_def ledger_of_def distinct_keys_def)
qed

lemma parse_release_refines:
  assumes "summary_ok sm" "distinct_keys sm"
  shows "refines (parse_free (event_inst (t, Released p u)) sm) (ledger_release p (ledger_of sm))"
proof (cases "p = 0")
  case True
  then show ?thesis
    by (simp add: refines_def ledger_release_def parse_free_def jm_symbols_alloc_find_entry_def
        update_entry_def)
next
  case False
  let ?sm = "sm\<lparr>sm_free_count := sm_free_count sm + 1, sm_alloc_ctx := p\<rparr>"
  have free: "parse_free (event_inst (t, Released p u)) sm =
      and_then (jm_symbols_alloc_find_entry p sm)
        (\<lambda>entry. update_entry entry (\<lambda>e. Ok (e\<lparr>en_is_leaking := False\<rparr>)) ?sm)"
    by (simp add: parse_free_def jm_symbols_alloc_find_entry_def)
  have L: "ledger_of ?sm = (ledger_of sm)\<lparr>ld_frees := ld_frees (ledger_of sm) + 1, ld_ctx := p\<rparr>"
    by (simp add: ledger_of_def)
  show ?thesis
  proof (cases "ld_entry (ledger_of sm) p")
    case None
    then show ?thesis
      using find_entry_ledger [OF assms False] False unfolding refines_def free
      by (simp add: ledger_release_def update_entry_def)
  next
    case (Some e)
    then obtain i where i: "i < length (sm_heap sm)" "jm_symbols_alloc_find_entry p sm = Ok (Some i)"
      "sm_heap sm ! i = e" "en_key e = p"
      using find_entry_ledger [OF assms False] by auto
    have "distinct_keys ?sm" using assms(2) by (simp add: distinct_keys_def)
    then obtain sm' where "update_entry (Some i) (\<lambda>e. Ok (e\<lparr>en_is_leaking := False\<rparr>)) ?sm = Ok sm'"
      "distinct_keys sm'" "ledger_of sm' =
        (ledger_of ?sm)\<lparr>ld_entry := (ld_entry (ledger_of ?sm))(p \<mapsto> e\<lparr>en_is_leaking := False\<rparr>)\<rparr>"
      using update_entry_ledger [of i ?sm "\<lambda>e. Ok (e\<lparr>en_is_leaking := False\<rparr>)" "e\<lparr>en_is_leaking := False\<rparr>"] i
      by auto
    then show ?thesis
      using Some False i(2) L unfolding refines_def free by (simp add: ledger_release_def)
  qed
qed


lemma parse_frame_refines:
  assumes "summary_ok sm" "distinct_keys sm"
  shows "refines (parse_backtrace dw (event_inst (t, Framed pc)) sm) (ledger_frame dw pc (ledger_of sm))"
proof -
  let ?ctx = "sm_alloc_ctx sm"
  have L: "ld_ctx (ledger_of sm) = ?ctx" "ld_modules (ledger_of sm) = sm_modules sm"
    by (simp_all add: ledger_of_def)
  show ?thesis
  proof (cases "?ctx = 0")
    case True
    then show ?thesis
      using L by (auto simp: refines_def ledger_frame_def parse_backtrace_def split: option.split outcome.split)
  next
    case False
    note ctx = False
    show ?thesis
    proof (cases "ld_entry (ledger_of sm) ?ctx")
      case None
      then have "jm_symbols_alloc_find_entry ?ctx sm = Ok None"
        using find_entry_ledger [OF assms False] by simp
      then show ?thesis
        using None L False
        by (cases "jm_symbols_build_backtrace dw (sm_modules sm) pc")
          (simp_all add: refines_def ledger_frame_def parse_backtrace_def
            jm_symbols_alloc_push_backtrace_def update_entry_def)
    next
      case (Some e)
      then obtain i where i: "i < length (sm_heap sm)" "jm_symbols_alloc_find_entry ?ctx sm = Ok (Some i)"
        "sm_heap sm ! i = e" "en_key e = ?ctx"
        using find_entry_ledger [OF assms False] by auto
      show ?thesis
      proof (cases "jm_symbols_build_backtrace dw (sm_modules sm) pc")
        case (Ok bt)
        let ?f = "\<lambda>e. if length (en_traces e) < MAX_BACKTRACE_COUNT
            then outcome.Ok (e\<lparr>en_traces := en_traces e @ [bt]\<rparr>) else Fail Undefined_Behaviour"
        have frame: "parse_backtrace dw (event_inst (t, Framed pc)) sm = update_entry (Some i) ?f sm"
          using False Ok i by (simp add: parse_backtrace_def jm_symbols_alloc_push_backtrace_def)
        show ?thesis
        proof (cases "length (en_traces e) < MAX_BACKTRACE_COUNT")
          case True
          then obtain sm' where "update_entry (Some i) ?f sm = outcome.Ok sm'" "distinct_keys sm'"
            "ledger_of sm' = (ledger_of sm)\<lparr>ld_entry := (ld_entry (ledger_of sm))
              (?ctx \<mapsto> e\<lparr>en_traces := en_traces e @ [bt]\<rparr>)\<rparr>"
            using update_entry_ledger [of i sm ?f "e\<lparr>en_traces := en_traces e @ [bt]\<rparr>"] assms(2) i by auto
          then show ?thesis
            using True i Some Ok L ctx unfolding refines_def frame by (simp add: ledger_frame_def)
        next
          case False
          then show ?thesis
            using i Some Ok L unfolding refines_def frame by (simp add: ledger_frame_def update_entry_def)
        qed
      next
        case (Fail f)
        then show ?thesis
          using i Some L False by (simp add: refines_def ledger_frame_def parse_backtrace_def)
      qed
    qed
  qed
qed

lemma parse_alloc_refines:
  assumes "summary_ok sm" "distinct_keys sm" "sound_memory mem" "ld_entry (ledger_of sm) p = None"
  shows "refines (parse_alloc mem (event_inst (t, Allocated p u)) sm)
    (ledger_step dw (t, Allocated p u) (ledger_of sm))"
proof -
  let ?inst = "event_inst (t, Allocated p u)"
  have key: "en_key (new_entry ?inst) = p" "in_addr ?inst = p" "in_alloc_size ?inst = to_long False (unat u)"
    by (simp_all add: new_entry_def)
  have new: "map_of (keyed (sm_heap sm)) p = None" using assms(4) by (simp add: ledger_of_def)
  then have "distinct (map en_key (sm_heap sm @ [new_entry ?inst]))"
    using assms(2) key(1) by (simp add: distinct_keys_def keyed_dom)
  moreover have "map_of (keyed (sm_heap sm @ [new_entry ?inst])) =
      (map_of (keyed (sm_heap sm)))(p \<mapsto> new_entry ?inst)"
    using keyed_append [of "sm_heap sm" "new_entry ?inst"] new key(1) by simp
  ultimately show ?thesis
    using parse_alloc_cases [OF assms(1,3), of ?inst]
    unfolding key by (auto simp: refines_def ledger_of_def distinct_keys_def simp del: event_inst.simps map_append)
qed

lemma parse_region_refines:
  assumes "summary_ok sm" "distinct_keys sm"
  shows "refines (parse_region (event_inst (t, Heaped s e)) sm) (ledger_step dw (t, Heaped s e) (ledger_of sm))"
proof -
  have count: "length (sm_regions sm) = MAX_REGION_COUNT" "sm_region_count sm \<le> MAX_REGION_COUNT"
    using assms(1) by (auto simp: summary_ok_def)
  have "sscanf [Scan_Ptr] (''0x'' @ hex_string (unat e)) = [Num e]"
    using scan_number_hex [of "[]" "unat e"] by (simp add: stops_def)
  then have inst: "in_addr (event_inst (t, Heaped s e)) = s"
    "scanned_num (sscanf [Scan_Ptr] (in_ctx (event_inst (t, Heaped s e)))) 0 x = e" for x
    by (simp_all add: scanned_num_def)
  have rec: "r\<lparr>start := s, end_addr := e\<rparr> = \<lparr>start = s, end_addr = e\<rparr>" for r :: jmRegion
    by (cases r) simp
  have "take (Suc n) (xs[n := r]) = take n xs @ [r]" if "n < length xs" for n and xs :: "jmRegion list" and r
    using that by (simp add: take_Suc_conv_app_nth)
  then show ?thesis
    using assms(2) count
    by (auto simp: refines_def parse_region_def ledger_of_def distinct_keys_def Let_def inst rec
        simp del: event_inst.simps sscanf.simps)
qed

theorem parse_inst_refines:
  assumes "summary_ok sm" "distinct_keys sm" "sound_memory mem" "fresh (ledger_of sm) te"
  shows "refines (parse_inst mem dw (event_inst te) sm) (ledger_step dw te (ledger_of sm))"
proof -
  obtain t e where te: "te = (t, e)" by (cases te)
  show ?thesis
  proof (cases e)
    case (Allocated p u)
    then show ?thesis
      using parse_alloc_refines [OF assms(1-3), of p t u dw] assms(4)
      by (simp add: te parse_inst_def del: ledger_step.simps)
  next
    case (Released p u)
    then show ?thesis
      using parse_release_refines [OF assms(1,2), of t p u] by (simp add: te parse_inst_def)
  next
    case (Framed pc)
    then show ?thesis
      using parse_frame_refines [OF assms(1,2), of dw t pc] by (simp add: te parse_inst_def)
  next
    case (Executes path)
    then show ?thesis
      using assms(2) by (simp add: te parse_inst_def refines_def ledger_of_def distinct_keys_def)
  next
    case (Loaded addr name)
    then show ?thesis
      using assms(2) by (simp add: te parse_inst_def parse_module_def refines_def ledger_of_def distinct_keys_def)
  next
    case (Heaped s e')
    then show ?thesis
      using parse_region_refines [OF assms(1,2), of t s e' dw]
      by (simp add: te parse_inst_def del: ledger_step.simps)
  qed
qed

section \<open>Whole logs\<close>

fun allocated :: "(u64 \<times> event) list \<Rightarrow> u64 list" where
  "allocated [] = []"
| "allocated ((t, Allocated p u) # tes) = p # allocated tes"
| "allocated (te # tes) = allocated tes"

fun released :: "(u64 \<times> event) list \<Rightarrow> u64 list" where
  "released [] = []"
| "released ((t, Released p u) # tes) = p # released tes"
| "released (te # tes) = released tes"

fun sizes :: "(u64 \<times> event) list \<Rightarrow> u64 list" where
  "sizes [] = []"
| "sizes ((t, Allocated p u) # tes) = to_long False (unat u) # sizes tes"
| "sizes (te # tes) = sizes tes"

lemma ledger_step_dom:
  assumes "ledger_step dw te L = Some L'"
  shows "dom (ld_entry L') = dom (ld_entry L) \<union> set (allocated [te])"
proof -
  obtain t e where te: "te = (t, e)" by (cases te)
  show ?thesis
    using assms unfolding te
    by (cases e) (auto simp: ledger_release_def ledger_frame_def dom_def
        split: if_splits option.splits outcome.splits)
qed

lemma allocated_Cons: "allocated (te # tes) = allocated [te] @ allocated tes"
  by (cases te; cases "snd te") auto

lemma released_Cons: "released (te # tes) = released [te] @ released tes"
  by (cases te; cases "snd te") auto

lemma sizes_Cons: "sizes (te # tes) = sizes [te] @ sizes tes"
  by (cases te; cases "snd te") auto

lemma fresh_new: "set (allocated [te]) \<inter> dom (ld_entry L) = {} \<Longrightarrow> fresh L te"
  by (cases te; cases "snd te") auto

lemma parse_events_refines:
  assumes "summary_ok sm" "distinct_keys sm" "sound_memory mem"
    and "distinct (allocated tes)" "set (allocated tes) \<inter> dom (ld_entry (ledger_of sm)) = {}"
  shows "refines (parse_events mem dw tes sm) (ledger_run dw tes (ledger_of sm))"
  using assms(1,2,4,5)
proof (induction tes arbitrary: sm)
  case Nil
  then show ?case by (simp add: refines_def)
next
  case (Cons te tes)
  have dist: "distinct (allocated tes)" "set (allocated [te]) \<inter> set (allocated tes) = {}"
    using Cons.prems(3) by (simp_all add: allocated_Cons [of te tes])
  have "fresh (ledger_of sm) te"
    using Cons.prems(4) by (intro fresh_new) (auto simp: allocated_Cons [of te tes])
  note step = parse_inst_refines [OF Cons.prems(1,2) assms(3) this, of dw]
  show ?case
  proof (cases "ledger_step dw te (ledger_of sm)")
    case None
    then show ?thesis using step by (auto simp: refines_def)
  next
    case (Some L)
    then consider "parse_inst mem dw (event_inst te) sm = Fail Exit_Called"
      | sm' where "parse_inst mem dw (event_inst te) sm = Ok sm'" "ledger_of sm' = L" "distinct_keys sm'"
      using step by (auto simp: refines_def)
    then show ?thesis
    proof cases
      case 1
      then show ?thesis by (simp add: refines_def split: option.split)
    next
      case (2 sm')
      have "set (allocated tes) \<inter> dom (ld_entry (ledger_of sm')) = {}"
        using ledger_step_dom [OF Some] Cons.prems(4) dist(2) 2(2) by (auto simp: allocated_Cons [of te tes])
      then show ?thesis
        using Cons.IH [OF parse_inst_invariant [OF Cons.prems(1) assms(3) 2(1)] 2(3) dist(1)] 2 Some by simp
    qed
  qed
qed

lemma ledger_of_initial: "ledger_of initial_summary = empty_ledger"
  by (simp add: ledger_of_def initial_summary_def empty_ledger_def keyed_def)

theorem parse_log_refines:
  assumes "list_all (\<lambda>te. event_ok (snd te)) tes" "distinct (allocated tes)" "sound_memory mem"
  shows "refines (jm_symbols_parse_log mem dw (concat (map event_line tes)))
    (ledger_run dw tes empty_ledger)"
proof -
  have "distinct_keys initial_summary" by (simp add: distinct_keys_def initial_summary_def)
  moreover have "dom (ld_entry empty_ledger) = {}" by (simp add: empty_ledger_def)
  ultimately show ?thesis
    using parse_events_refines [OF initial_summary_ok _ assms(3,2), of dw] parse_lines_events [OF assms(1)]
    by (simp add: jm_symbols_parse_log_def ledger_of_initial)
qed

section \<open>Leaks\<close>

definition leaks_are :: "ledger \<Rightarrow> u64 set \<Rightarrow> bool" where
  "leaks_are L freed \<longleftrightarrow> (\<forall>p e. ld_entry L p = Some e \<longrightarrow>
     en_key e = p \<and> (en_is_leaking e \<longleftrightarrow> p \<notin> freed)) \<and> freed \<subseteq> dom (ld_entry L)"

lemma ledger_step_leaks:
  assumes "ledger_step dw te L = Some L'" "fresh L te" "leaks_are L freed"
  shows "leaks_are L' (freed \<union> set (released [te]))"
proof -
  obtain t e where te: "te = (t, e)" by (cases te)
  show ?thesis
  proof (cases e)
    case (Allocated p u)
    then have "p \<notin> freed" using assms(2,3) by (auto simp: te leaks_are_def)
    then show ?thesis using assms Allocated by (auto simp: te leaks_are_def new_entry_def split: if_splits)
  next
    case (Released p u)
    then show ?thesis
      using assms(1,3) by (auto simp: te leaks_are_def ledger_release_def split: if_splits)
  next
    case (Framed pc)
    then show ?thesis
      using assms(1,3) by (fastforce simp: te leaks_are_def ledger_frame_def split: if_splits option.splits outcome.splits)
  qed (use assms(1,3) in \<open>auto simp: te split: if_splits\<close>, auto simp: leaks_are_def)
qed

lemma ledger_run_leaks:
  assumes "ledger_run dw tes L = Some L'" "leaks_are L freed"
    and "distinct (allocated tes)" "set (allocated tes) \<inter> dom (ld_entry L) = {}"
  shows "leaks_are L' (freed \<union> set (released tes)) \<and> dom (ld_entry L') = dom (ld_entry L) \<union> set (allocated tes)"
  using assms
proof (induction tes arbitrary: L freed)
  case (Cons te tes)
  then obtain L1 where L1: "ledger_step dw te L = Some L1" "ledger_run dw tes L1 = Some L'"
    by (auto simp: bind_eq_Some_conv)
  have dist: "distinct (allocated tes)" "set (allocated [te]) \<inter> set (allocated tes) = {}"
    using Cons.prems(3) by (simp_all add: allocated_Cons [of te tes])
  have "fresh L te"
    using Cons.prems(4) by (intro fresh_new) (auto simp: allocated_Cons [of te tes])
  then have leaks: "leaks_are L1 (freed \<union> set (released [te]))"
    using ledger_step_leaks [OF L1(1)] Cons.prems(2) by blast
  have "set (allocated tes) \<inter> dom (ld_entry L1) = {}"
    using ledger_step_dom [OF L1(1)] Cons.prems(4) dist(2) by (auto simp: allocated_Cons [of te tes])
  then show ?case
    using Cons.IH [OF L1(2) leaks dist(1)] ledger_step_dom [OF L1(1)]
    by (simp add: released_Cons [of te tes] allocated_Cons [of te tes] Un_assoc)
qed simp

text \<open>What the interpreter reports as leaking, for a log in which no address is allocated twice.\<close>

definition leaking_keys :: "jmSummary \<Rightarrow> u64 set" where
  "leaking_keys sm = en_key ` {e \<in> set (sm_heap sm). en_is_leaking e}"

theorem leaks_reported:
  assumes "list_all (\<lambda>te. event_ok (snd te)) tes" "distinct (allocated tes)" "sound_memory mem"
    and "jm_symbols_parse_log mem dw (concat (map event_line tes)) = Ok sm"
  shows "leaking_keys sm = set (allocated tes) - set (released tes)"
proof -
  obtain L where L: "ledger_run dw tes empty_ledger = Some L" "ledger_of sm = L" "distinct_keys sm"
    using parse_log_refines [OF assms(1-3), of dw] assms(4) by (auto simp: refines_def split: option.splits)
  have "leaks_are empty_ledger {}" by (simp add: leaks_are_def empty_ledger_def)
  then have run: "leaks_are L (set (released tes))" "dom (ld_entry L) = set (allocated tes)"
    using ledger_run_leaks [OF L(1) _ assms(2), of "{}"] by (auto simp: empty_ledger_def)
  have heap: "e \<in> set (sm_heap sm) \<longleftrightarrow> ld_entry L (en_key e) = Some e" for e
    using L(2,3) by (auto simp: ledger_of_def keyed_def distinct_keys_def map_of_eq_Some_iff o_def image_iff)
  show ?thesis
  proof (intro equalityI subsetI)
    fix p assume "p \<in> leaking_keys sm"
    then obtain e where "e \<in> set (sm_heap sm)" "en_is_leaking e" "en_key e = p"
      by (auto simp: leaking_keys_def)
    then show "p \<in> set (allocated tes) - set (released tes)"
      using run heap by (auto simp: leaks_are_def)
  next
    fix p assume p: "p \<in> set (allocated tes) - set (released tes)"
    then obtain e where e: "ld_entry L p = Some e" using run(2) by blast
    then have "en_key e = p" "en_is_leaking e" using run(1) p by (auto simp: leaks_are_def)
    then show "p \<in> leaking_keys sm" using e heap by (auto simp: leaking_keys_def)
  qed
qed

section \<open>Totals\<close>

text \<open>These hold of every log, whatever addresses it uses.\<close>

lemma update_entry_counts:
  "update_entry r f sm = Ok sm' \<Longrightarrow> sm_alloc_count sm' = sm_alloc_count sm \<and>
     sm_free_count sm' = sm_free_count sm \<and> sm_total sm' = sm_total sm"
  by (auto simp: update_entry_def and_then_Ok_iff split: option.splits if_splits)

lemma parse_inst_counts:
  assumes "parse_inst mem dw (event_inst te) sm = Ok sm'"
  shows "sm_alloc_count sm' = sm_alloc_count sm + of_nat (length (allocated [te])) \<and>
    sm_free_count sm' = sm_free_count sm + of_nat (length (released [te])) \<and>
    sm_total sm' = sm_total sm + sum_list (sizes [te])"
proof -
  obtain t e where te: "te = (t, e)" by (cases te)
  show ?thesis
  proof (cases e)
    case (Allocated p u)
    then show ?thesis using assms
      by (auto simp: te parse_inst_def parse_alloc_def jm_symbols_alloc_add_entry_def and_then_Ok_iff Let_def
          split: if_splits)
  next
    case (Released p u)
    then show ?thesis using assms
      by (auto simp: te parse_inst_def parse_free_def and_then_Ok_iff Let_def dest!: update_entry_counts)
  next
    case (Framed pc)
    then show ?thesis using assms
      by (auto simp: te parse_inst_def parse_backtrace_def jm_symbols_alloc_push_backtrace_def
          and_then_Ok_iff split: if_splits dest!: update_entry_counts)
  qed (use assms in \<open>auto simp: te parse_inst_def parse_module_def parse_region_def Let_def split: if_splits\<close>)
qed

lemma parse_events_counts:
  "parse_events mem dw tes sm = Ok sm' \<Longrightarrow>
    sm_alloc_count sm' = sm_alloc_count sm + of_nat (length (allocated tes)) \<and>
    sm_free_count sm' = sm_free_count sm + of_nat (length (released tes)) \<and>
    sm_total sm' = sm_total sm + sum_list (sizes tes)"
proof (induction tes arbitrary: sm)
  case (Cons te tes)
  then obtain s where s: "parse_inst mem dw (event_inst te) sm = Ok s" "parse_events mem dw tes s = Ok sm'"
    by (auto simp: and_then_Ok_iff)
  show ?case
    using parse_inst_counts [OF s(1)] Cons.IH [OF s(2)]
    by (simp add: allocated_Cons [of te tes] released_Cons [of te tes] sizes_Cons [of te tes])
qed simp

section \<open>Properties\<close>

text \<open>C7: for a log in which no address is allocated twice, the interpreter with its lines, hash
  table and entry heap refines the ledger: it fails where the ledger is undefined, and otherwise, unless memory runs
  out, ends in a summary whose abstraction is the ledger's.\<close>

theorem interpreter_refines_ledger:
  assumes "list_all (\<lambda>te. event_ok (snd te)) tes" "distinct (allocated tes)" "sound_memory mem"
  shows "refines (jm_symbols_parse_log mem dw (concat (map event_line tes)))
    (ledger_run dw tes empty_ledger)"
  by (rule parse_log_refines [OF assms])

theorem interpreter_refines_ledger_witness:
  "refines (jm_symbols_parse_log megabyte undefined (concat (map event_line
      [(1, Allocated 64 8), (2, Allocated 128 8), (3, Released 64 8)])))
    (ledger_run undefined [(1, Allocated 64 8), (2, Allocated 128 8), (3, Released 64 8)] empty_ledger)"
  by (rule interpreter_refines_ledger)
    (use megabyte_enough in \<open>simp_all add: sound_memory_def sizeof_entry_def megabyte_def\<close>)

text \<open>The entries reported as leaking are exactly the addresses that the log allocates and
  does not release.\<close>

theorem leaks_are_unreleased:
  assumes "list_all (\<lambda>te. event_ok (snd te)) tes" "distinct (allocated tes)" "sound_memory mem"
    and "jm_symbols_parse_log mem dw (concat (map event_line tes)) = Ok sm"
  shows "leaking_keys sm = set (allocated tes) - set (released tes)"
  by (rule leaks_reported [OF assms])

theorem leaks_are_unreleased_witness:
  "\<exists>sm. jm_symbols_parse_log megabyte undefined (concat (map event_line [(1, Allocated 64 8)])) = Ok sm \<and>
     leaking_keys sm = {64}"
proof -
  have mem: "sound_memory megabyte"
    using megabyte_enough by (simp add: sound_memory_def sizeof_entry_def megabyte_def)
  let ?log = "concat (map event_line [(1, Allocated 64 8)])"
  have "granted megabyte (sm_entries initial_summary)"
    by (simp add: granted_def initial_summary_def megabyte_def sizeof_table_def sizeof_bucket_def)
  then obtain sm where "parse_alloc megabyte (event_inst (1, Allocated 64 8)) initial_summary = Ok sm"
    using parse_alloc_cases [OF initial_summary_ok mem, of "event_inst (1, Allocated 64 8)"] by blast
  then have sm: "jm_symbols_parse_log megabyte undefined ?log = Ok sm"
    using parse_lines_events [of "[(1, Allocated 64 8)]" megabyte undefined initial_summary]
    by (simp add: jm_symbols_parse_log_def parse_inst_def)
  have "leaking_keys sm = set (allocated [(1, Allocated 64 8)]) - set (released [(1, Allocated 64 8)])"
    by (rule leaks_are_unreleased [OF _ _ mem sm]) simp_all
  then show ?thesis using sm by auto
qed

text \<open>The summary counts every allocation and every release, and its total is the sum of the
  sizes allocated, modulo \<open>2 ^ 64\<close>: a release, whose line is not read for a size, takes nothing off.\<close>

theorem summary_counts:
  assumes "list_all (\<lambda>te. event_ok (snd te)) tes"
    and "jm_symbols_parse_log mem dw (concat (map event_line tes)) = Ok sm"
  shows "sm_alloc_count sm = of_nat (length (allocated tes)) \<and>
    sm_free_count sm = of_nat (length (released tes)) \<and> sm_total sm = sum_list (sizes tes)"
  using parse_events_counts [of mem dw tes initial_summary sm] assms(2) parse_lines_events [OF assms(1)]
  by (simp add: jm_symbols_parse_log_def initial_summary_def)

theorem summary_counts_witness:
  "\<exists>sm. jm_symbols_parse_log megabyte undefined (concat (map event_line [(1, Executes ''/bin/app'')])) = Ok sm \<and>
     sm_alloc_count sm = 0 \<and> sm_total sm = 0"
proof -
  have ok: "list_all (\<lambda>te. event_ok (snd te)) [(1, Executes ''/bin/app'')]"
    by (simp add: one_word_def is_space_def)
  obtain sm where sm: "jm_symbols_parse_log megabyte undefined (concat (map event_line [(1, Executes ''/bin/app'')])) = Ok sm"
    using parse_lines_events [OF ok, of megabyte undefined initial_summary]
    by (simp add: jm_symbols_parse_log_def parse_inst_def)
  from summary_counts [OF ok this] this show ?thesis by auto
qed

end
