(* ===== verification/Log_Reading.thy ===== *)
theory Log_Reading
  imports Ledger
begin

text \<open>
  Which logs the interpreter reads to their end. The functions of \<open>src/interpret.c\<close> use the
  entry they look up without a test, and store the frames of an allocation and of its release in
  one array: a log must name known addresses only and give none more than 32 frames. An address
  that is used again and again is a case of its own, followed here through the hash table.
\<close>

section \<open>Logs that are read to the end\<close>

lemma parse_lines_invariant:
  "parse_lines mem dw stream sm = Ok sm' \<Longrightarrow> summary_ok sm \<Longrightarrow> sound_memory mem \<Longrightarrow> summary_ok sm'"
proof (induction mem dw stream sm rule: parse_lines.induct)
  case (1 mem dw stream sm)
  show ?case
  proof (cases "fgets MAX_BUFFER_SIZE stream")
    case None
    then show ?thesis using 1(2,3) by (simp add: parse_lines.simps)
  next
    case (Some a)
    obtain buffer rest where a: "a = (buffer, rest)" by (cases a)
    obtain s where s: "parse_inst mem dw (jm_symbols_build_inst buffer) sm = Ok s" "parse_lines mem dw rest s = Ok sm'"
      using 1(2) Some a by (auto simp: parse_lines.simps [of mem dw stream] and_then_Ok_iff)
    show ?thesis
      using 1(1) [OF Some a [symmetric] s(2)] parse_inst_invariant [OF 1(3,4) s(1)] 1(4) by blast
  qed
qed

text \<open>
  The frames counted for each address: a log that names no unknown address, has the context of a
  frame set, and gives no address more frames than its entry can hold.
\<close>

fun log_fits :: "(u64 \<Rightarrow> nat option) \<Rightarrow> u64 \<Rightarrow> nat \<Rightarrow> (u64 \<times> event) list \<Rightarrow> bool" where
  "log_fits c ctx n [] \<longleftrightarrow> True"
| "log_fits c ctx n ((t, Allocated p u) # tes) \<longleftrightarrow> log_fits (c(p \<mapsto> 0)) p n tes"
| "log_fits c ctx n ((t, Released p u) # tes) \<longleftrightarrow> p \<noteq> 0 \<and> c p \<noteq> None \<and> log_fits c p n tes"
| "log_fits c ctx n ((t, Framed pc) # tes) \<longleftrightarrow> ctx \<noteq> 0 \<and>
     (case c ctx of None \<Rightarrow> False
      | Some k \<Rightarrow> k < MAX_BACKTRACE_COUNT \<and> log_fits (c(ctx \<mapsto> Suc k)) ctx n tes)"
| "log_fits c ctx n ((t, Heaped s e) # tes) \<longleftrightarrow> n < MAX_REGION_COUNT \<and> log_fits c ctx (Suc n) tes"
| "log_fits c ctx n (te # tes) \<longleftrightarrow> log_fits c ctx n tes"

text \<open>Names that fit the arrays of a backtrace.\<close>

definition short_names :: "dwarf \<Rightarrow> bool" where
  "short_names dw \<longleftrightarrow> (\<forall>modules pc. \<exists>bt. jm_symbols_build_backtrace dw modules pc = Ok bt)"

definition frame_counts :: "ledger \<Rightarrow> u64 \<Rightarrow> nat option" where
  "frame_counts L p = map_option (\<lambda>e. length (en_traces e)) (ld_entry L p)"

lemma ledger_run_defined:
  assumes "short_names dw" "log_fits (frame_counts L) (ld_ctx L) (length (ld_regions L)) tes"
  shows "ledger_run dw tes L \<noteq> None"
  using assms(2)
proof (induction tes arbitrary: L)
  case (Cons te tes)
  obtain t e where te: "te = (t, e)" by (cases te)
  have run: "ledger_run dw (te # tes) L \<noteq> None"
    if "ledger_step dw te L = Some L'" "log_fits (frame_counts L') (ld_ctx L') (length (ld_regions L')) tes" for L'
    using that Cons.IH by simp
  show ?case
  proof (cases e)
    case (Allocated p u)
    have "frame_counts (L\<lparr>ld_entry := (ld_entry L)(p \<mapsto> new_entry (event_inst (t, Allocated p u))),
        ld_ctx := p, ld_allocs := ld_allocs L + 1, ld_total := ld_total L + to_long False (unat u)\<rparr>) =
        (frame_counts L)(p \<mapsto> 0)"
      by (simp add: frame_counts_def fun_eq_iff new_entry_def)
    then show ?thesis using Cons.prems Allocated by (intro run) (auto simp: te simp del: event_inst.simps)
  next
    case (Released p u)
    then obtain x where "ld_entry L p = Some x" "p \<noteq> 0"
      using Cons.prems by (auto simp: te frame_counts_def)
    moreover from this have "frame_counts (L\<lparr>ld_frees := ld_frees L + 1, ld_ctx := p,
        ld_entry := (ld_entry L)(p \<mapsto> x\<lparr>en_is_leaking := False\<rparr>)\<rparr>) = frame_counts L"
      by (simp add: frame_counts_def fun_eq_iff)
    ultimately show ?thesis
      using Cons.prems Released by (intro run) (auto simp: te ledger_release_def)
  next
    case (Framed pc)
    then obtain x where x: "ld_entry L (ld_ctx L) = Some x" "ld_ctx L \<noteq> 0" "length (en_traces x) < MAX_BACKTRACE_COUNT"
      using Cons.prems by (auto simp: te frame_counts_def split: option.splits)
    obtain bt where bt: "jm_symbols_build_backtrace dw (ld_modules L) pc = Ok bt"
      using assms(1) by (auto simp: short_names_def)
    have "frame_counts (L\<lparr>ld_entry := (ld_entry L)(ld_ctx L \<mapsto> x\<lparr>en_traces := en_traces x @ [bt]\<rparr>)\<rparr>) =
        (frame_counts L)(ld_ctx L \<mapsto> Suc (length (en_traces x)))"
      by (simp add: frame_counts_def fun_eq_iff)
    moreover have "frame_counts L (ld_ctx L) = Some (length (en_traces x))"
      using x(1) by (simp add: frame_counts_def)
    ultimately show ?thesis
      using Cons.prems Framed x bt by (intro run) (auto simp: te ledger_frame_def)
  next
    case (Heaped s e')
    have "frame_counts (L\<lparr>ld_regions := r\<rparr>) = frame_counts L" for r
      by (simp add: frame_counts_def fun_eq_iff)
    then show ?thesis using Cons.prems Heaped by (intro run) (auto simp: te)
  next
    case (Loaded a name)
    let ?L = "if take 13 name = ''linux-vdso.so'' then L else L\<lparr>ld_modules := ld_modules L @ [(name, a)]\<rparr>"
    have "frame_counts ?L = frame_counts L" "ld_ctx ?L = ld_ctx L" "ld_regions ?L = ld_regions L"
      by (simp_all add: frame_counts_def fun_eq_iff)
    then show ?thesis using Cons.prems Loaded by (intro run [of ?L]) (simp_all add: te)
  next
    case (Executes path)
    have "frame_counts (L\<lparr>ld_path := path\<rparr>) = frame_counts L"
      by (simp add: frame_counts_def fun_eq_iff)
    then show ?thesis using Cons.prems Executes by (intro run [of "L\<lparr>ld_path := path\<rparr>"]) (simp_all add: te)
  qed
qed simp

lemma parse_log_finishes:
  assumes "list_all (\<lambda>te. event_ok (snd te)) tes" "distinct (allocated tes)" "sound_memory mem"
    and "short_names dw" "log_fits (\<lambda>_. None) 0 0 tes"
  shows "jm_symbols_parse_log mem dw (concat (map event_line tes)) = Fail Exit_Called \<or>
    (\<exists>sm. jm_symbols_parse_log mem dw (concat (map event_line tes)) = Ok sm)"
proof -
  have "frame_counts empty_ledger = (\<lambda>_. None)" "ld_ctx empty_ledger = 0" "ld_regions empty_ledger = []"
    by (simp_all add: frame_counts_def empty_ledger_def fun_eq_iff)
  then have "ledger_run dw tes empty_ledger \<noteq> None"
    using assms(4,5) by (intro ledger_run_defined) simp_all
  then show ?thesis
    using parse_log_refines [OF assms(1-3), of dw] by (auto simp: refines_def split: option.splits)
qed

lemma ledger_run_dom:
  "ledger_run dw tes L = Some L' \<Longrightarrow> dom (ld_entry L') = dom (ld_entry L) \<union> set (allocated tes)"
proof (induction tes arbitrary: L)
  case (Cons te tes)
  then obtain L1 where "ledger_step dw te L = Some L1" "ledger_run dw tes L1 = Some L'"
    by (auto simp: bind_eq_Some_conv)
  then show ?case
    using Cons.IH ledger_step_dom by (simp add: allocated_Cons [of te tes] Un_assoc)
qed simp

section \<open>More frames than an entry holds\<close>

lemma ledger_frames:
  assumes "ld_entry L p = Some e" "ld_ctx L = p" "p \<noteq> 0" "ledger_run dw (map (\<lambda>pc. (t, Framed pc)) pcs) L = Some L'"
  shows "\<exists>e'. ld_entry L' p = Some e' \<and> ld_ctx L' = p \<and> length (en_traces e') = length (en_traces e) + length pcs \<and>
    (pcs = [] \<or> length (en_traces e') \<le> MAX_BACKTRACE_COUNT)"
  using assms
proof (induction pcs arbitrary: L e)
  case (Cons pc pcs)
  then obtain bt where bt: "jm_symbols_build_backtrace dw (ld_modules L) pc = Ok bt"
    "length (en_traces e) < MAX_BACKTRACE_COUNT"
    "ledger_run dw (map (\<lambda>pc. (t, Framed pc)) pcs)
      (L\<lparr>ld_entry := (ld_entry L)(p \<mapsto> e\<lparr>en_traces := en_traces e @ [bt]\<rparr>)\<rparr>) = Some L'"
    by (auto simp: ledger_frame_def bind_eq_Some_conv split: outcome.splits if_splits)
  then show ?case
    using Cons.IH [OF _ _ Cons.prems(3) bt(3), of "e\<lparr>en_traces := en_traces e @ [bt]\<rparr>"] Cons.prems(2)
    by (cases pcs) auto
qed simp

lemma ledger_run_append:
  "ledger_run dw (xs @ ys) L = Option.bind (ledger_run dw xs L) (ledger_run dw ys)"
  by (induction xs arbitrary: L) (auto split: bind_split)

lemma ledger_overflow:
  assumes "MAX_BACKTRACE_COUNT < length pcs + length pcs'" "pcs' \<noteq> []" "p \<noteq> 0"
  shows "ledger_run dw ((t, Allocated p u) # map (\<lambda>pc. (t, Framed pc)) pcs @
    (t', Released p u') # map (\<lambda>pc. (t', Framed pc)) pcs') L = None"
proof (rule ccontr)
  assume "\<not> ?thesis"
  then obtain L1 L2 L3 L4 where
    L: "ledger_step dw (t, Allocated p u) L = Some L1"
      "ledger_run dw (map (\<lambda>pc. (t, Framed pc)) pcs) L1 = Some L2"
      "ledger_step dw (t', Released p u') L2 = Some L3"
      "ledger_run dw (map (\<lambda>pc. (t', Framed pc)) pcs') L3 = Some L4"
    by (auto simp: ledger_run_append bind_eq_Some_conv)
  have "ld_entry L1 p = Some (new_entry (event_inst (t, Allocated p u)))" "ld_ctx L1 = p"
    using L(1) by auto
  then obtain e where "ld_entry L2 p = Some e" "length (en_traces e) = length pcs"
    using ledger_frames [OF _ _ assms(3) L(2)] by (auto simp: new_entry_def)
  then have "ld_entry L3 p = Some (e\<lparr>en_is_leaking := False\<rparr>)" "ld_ctx L3 = p"
    "length (en_traces (e\<lparr>en_is_leaking := False\<rparr>)) = length pcs"
    using L(3) assms(3) by (auto simp: ledger_release_def)
  then show False using ledger_frames [OF _ _ assms(3) L(4)] assms(1,2) by fastforce
qed

section \<open>An address that is used ten times\<close>

text \<open>A block is allocated and released \<open>n\<close> times at one address.\<close>

definition reuse_log :: "u64 \<Rightarrow> u64 \<Rightarrow> nat \<Rightarrow> (u64 \<times> event) list" where
  "reuse_log p u n = concat (replicate n [(0, Allocated p u), (0, Released p u)])"

definition reuse_entry :: "u64 \<Rightarrow> u64 \<Rightarrow> jmAllocEntry" where
  "reuse_entry p u = new_entry (event_inst (0, Allocated p u))"

definition reused :: "u64 \<Rightarrow> u64 \<Rightarrow> nat \<Rightarrow> jmSummary \<Rightarrow> bool" where
  "reused p u n sm \<longleftrightarrow> sm_entries sm = same_hash p n \<and>
     sm_heap sm = replicate n ((reuse_entry p u)\<lparr>en_is_leaking := False\<rparr>)"

lemma reuse_log_Suc: "reuse_log p u (Suc n) = reuse_log p u n @ [(0, Allocated p u), (0, Released p u)]"
  unfolding reuse_log_def by (induction n) auto

lemma parse_events_append:
  "parse_events mem dw (xs @ ys) sm = and_then (parse_events mem dw xs sm) (parse_events mem dw ys)"
proof (induction xs arbitrary: sm)
  case (Cons x xs)
  then show ?case by (cases "parse_inst mem dw (event_inst x) sm") auto
qed simp

text \<open>One round, given what the table answers to it.\<close>

lemma reuse_round:
  assumes "mem sizeof_entry" "p \<noteq> 0" "reused p u n sm"
    and "HASH_ADD_PTR mem n p (same_hash p n) = Ok h" "HASH_FIND_PTR h p = Ok (Some i)" "i \<le> n"
  shows "\<exists>sm'. parse_events mem dw [(0, Allocated p u), (0, Released p u)] sm = Ok sm' \<and>
    sm_entries sm' = h \<and> sm_heap sm' =
      (sm_heap sm @ [reuse_entry p u])[i := ((sm_heap sm @ [reuse_entry p u]) ! i)\<lparr>en_is_leaking := False\<rparr>]"
proof -
  let ?sm = "sm\<lparr>sm_alloc_count := sm_alloc_count sm + 1, sm_total := sm_total sm + to_long False (unat u),
      sm_alloc_ctx := p, sm_heap := sm_heap sm @ [reuse_entry p u], sm_entries := h\<rparr>"
  have len: "length (sm_heap sm) = n" "sm_entries sm = same_hash p n"
    using assms(3) by (simp_all add: reused_def)
  have "parse_inst mem dw (event_inst (0, Allocated p u)) sm = Ok ?sm"
    using assms(1,4) len
    by (simp add: parse_inst_def parse_alloc_def jm_symbols_alloc_add_entry_def reuse_entry_def new_entry_def)
  moreover have "\<exists>sm'. parse_inst mem dw (event_inst (0, Released p u)) ?sm = Ok sm' \<and> sm_entries sm' = h \<and>
      sm_heap sm' = (sm_heap ?sm)[i := (sm_heap ?sm ! i)\<lparr>en_is_leaking := False\<rparr>]"
    using assms(2,5,6) len(1)
    by (simp add: parse_inst_def parse_free_def jm_symbols_alloc_find_entry_def update_entry_def)
  ultimately show ?thesis by auto
qed

lemma reuse_rounds:
  assumes "enough mem" "mem sizeof_entry" "p \<noteq> 0" "n \<le> 9"
  shows "\<exists>sm. parse_events mem dw (reuse_log p u n) initial_summary = Ok sm \<and> reused p u n sm"
  using assms(4)
proof (induction n)
  case 0
  then show ?case by (simp add: reuse_log_def reused_def initial_summary_def same_hash_def)
next
  case (Suc n)
  then obtain sm where sm: "parse_events mem dw (reuse_log p u n) initial_summary = Ok sm" "reused p u n sm"
    by auto
  have len: "length (sm_heap sm) = n" using sm(2) by (simp add: reused_def)
  obtain sm' where "parse_events mem dw [(0, Allocated p u), (0, Released p u)] sm = Ok sm'"
    "sm_entries sm' = same_hash p (Suc n)"
    "sm_heap sm' = (sm_heap sm @ [reuse_entry p u])[n := ((sm_heap sm @ [reuse_entry p u]) ! n)\<lparr>en_is_leaking := False\<rparr>]"
    using reuse_round [OF assms(2,3) sm(2) same_add(1) [OF assms(1) same_hash_ok [OF assms(1)]] same_find]
      Suc.prems by fastforce
  moreover have "(sm_heap sm @ [x])[n := y] = replicate (Suc n) y"
    if "y = (reuse_entry p u)\<lparr>en_is_leaking := False\<rparr>" for x y
    using sm(2) len that by (simp add: reused_def list_update_append replicate_append_same)
  ultimately show ?case
    using sm(1) len unfolding reuse_log_Suc parse_events_append
    by (simp add: reused_def nth_append del: parse_events.simps replicate.simps)
qed

lemma reuse_tenth:
  assumes "enough mem" "mem sizeof_entry" "p \<noteq> 0"
  shows "\<exists>sm. parse_events mem dw (reuse_log p u 10) initial_summary = Ok sm \<and> leaking_keys sm = {p}"
proof -
  obtain sm where sm: "parse_events mem dw (reuse_log p u 9) initial_summary = Ok sm" "reused p u 9 sm"
    using reuse_rounds [OF assms, of 9] by auto
  obtain h where h: "HASH_ADD_PTR mem 9 p (same_hash p 9) = Ok h" "HASH_FIND_PTR h p = Ok (Some 0)"
    using same_add_tenth [OF assms(1), of p] by blast
  let ?e = "(reuse_entry p u)\<lparr>en_is_leaking := False\<rparr>"
  obtain sm' where sm': "parse_events mem dw [(0, Allocated p u), (0, Released p u)] sm = Ok sm'"
    "sm_heap sm' = (sm_heap sm @ [reuse_entry p u])[0 := ((sm_heap sm @ [reuse_entry p u]) ! 0)\<lparr>en_is_leaking := False\<rparr>]"
    using reuse_round [OF assms(2,3) sm(2) h] by auto
  have "(replicate 9 ?e @ [reuse_entry p u])[0 := ((replicate 9 ?e @ [reuse_entry p u]) ! 0)\<lparr>en_is_leaking := False\<rparr>] =
      replicate 9 ?e @ [reuse_entry p u]"
    by (simp add: numeral_eq_Suc)
  then have "sm_heap sm' = replicate 9 ?e @ [reuse_entry p u]"
    using sm'(2) sm(2) by (simp add: reused_def)
  then have "{e \<in> set (sm_heap sm'). en_is_leaking e} = {reuse_entry p u}"
    by (auto simp: reuse_entry_def new_entry_def)
  then have "leaking_keys sm' = {p}"
    by (simp add: leaking_keys_def) (simp add: reuse_entry_def new_entry_def)
  moreover have "parse_events mem dw (reuse_log p u 10) initial_summary = Ok sm'"
    using sm(1) sm'(1) reuse_log_Suc [of p u 9] by (simp add: parse_events_append)
  ultimately show ?thesis by blast
qed

lemma megabyte_sound: "sound_memory megabyte"
  using megabyte_enough by (simp add: sound_memory_def sizeof_entry_def megabyte_def)

lemma empty_log: "jm_symbols_parse_log mem dw [] = Ok initial_summary"
  by (simp add: jm_symbols_parse_log_def parse_lines.simps fgets_def)

definition plain_dwarf :: dwarf where
  "plain_dwarf = \<lparr>dw_module = \<lambda>_ _. (Some ''libc.so'', 4096), dw_symbol = \<lambda>_ _. Some ''main'', dw_source = \<lambda>_ _. None\<rparr>"

lemma plain_dwarf_short: "short_names plain_dwarf"
  by (simp add: short_names_def plain_dwarf_def jm_symbols_build_backtrace_def strcpy_name_def
      name_or_unknown_def MAX_BUFFER_SIZE_def)

section \<open>Properties\<close>

lemma report_printed:
  assumes "jm_symbols_parse_log mem dw stream = Ok sm" "sound_memory mem"
  shows "summary_ok sm" "\<exists>out. report sm = Ok out"
proof -
  show "summary_ok sm"
    using parse_lines_invariant initial_summary_ok assms unfolding jm_symbols_parse_log_def by blast
  then show "\<exists>out. report sm = Ok out" by (rule report_total)
qed

text \<open>C27: for every log that it reads to the end, of whatever bytes, the interpreter's summary is
  consistent: the table finds each entry under its own address, no entry has more than 32 frames
  and no more than 128 regions are stored; and the report is printed and everything freed.\<close>

theorem log_summary_invariant:
  assumes "jm_symbols_parse_log mem dw stream = Ok sm" "sound_memory mem"
  shows "summary_ok sm \<and> (\<exists>out. report sm = Ok out) \<and> HASH_CLEAR_ALL (sm_entries sm) = Ok None"
proof -
  have "HASH_CLEAR_ALL (sm_entries sm) = Ok None"
    using hash_clear report_printed(1) [OF assms] by (simp add: summary_ok_def)
  then show ?thesis using report_printed [OF assms] by blast
qed

theorem log_summary_invariant_witness:
  "summary_ok initial_summary \<and> (\<exists>out. report initial_summary = Ok out) \<and>
     HASH_CLEAR_ALL (sm_entries initial_summary) = Ok None"
  by (rule log_summary_invariant [OF empty_log megabyte_sound])

text \<open>\<open>main\<close> fails with status 1 and a message when it cannot open the log, and otherwise
  returns 0 with a report exactly when the log is read to its end.\<close>

theorem interpret_main_status:
  assumes "sound_memory mem"
  shows "((\<exists>out. interpret_main mem dw fopen (prog # path # options) = Ok (0, out, [])) \<longleftrightarrow>
      (\<exists>stream sm. fopen path = Some stream \<and> jm_symbols_parse_log mem dw stream = Ok sm)) \<and>
    ((\<exists>err. interpret_main mem dw fopen (prog # path # options) = Ok (1, [], err)) \<longleftrightarrow> fopen path = None)"
proof -
  have report: "\<exists>out. report sm = Ok out" if "jm_symbols_parse_log mem dw stream = Ok sm" for stream sm
    using report_printed(2) [OF that assms] .
  show ?thesis
  proof (cases "fopen path")
    case None
    then show ?thesis by (simp add: interpret_main_def)
  next
    case (Some stream)
    show ?thesis
    proof (cases "jm_symbols_parse_log mem dw stream")
      case (Ok sm)
      then show ?thesis using Some report [OF Ok] by (auto simp: interpret_main_def)
    qed (simp add: interpret_main_def Some)
  qed
qed

theorem interpret_main_status_witness:
  "\<exists>out. interpret_main megabyte plain_dwarf (\<lambda>_. Some []) [''jmi'', ''log''] = Ok (0, out, [])"
  using interpret_main_status [OF megabyte_sound, of plain_dwarf "\<lambda>_. Some []" "''jmi''" "''log''" "[]"] empty_log
  by blast

lemma parse_unknown_release:
  assumes "list_all (\<lambda>te. event_ok (snd te)) (tes @ (t, Released p u) # tes')"
    and "distinct (allocated (tes @ (t, Released p u) # tes'))" "sound_memory mem"
    and "p = 0 \<or> p \<notin> set (allocated tes)"
  shows "\<exists>f. jm_symbols_parse_log mem dw (concat (map event_line (tes @ (t, Released p u) # tes'))) = Fail f"
proof -
  have "ledger_run dw (tes @ (t, Released p u) # tes') empty_ledger = None"
  proof (cases "ledger_run dw tes empty_ledger")
    case (Some L)
    have "dom (ld_entry L) = set (allocated tes)" using ledger_run_dom [OF Some] by (simp add: empty_ledger_def)
    then have "ledger_step dw (t, Released p u) L = None"
      using assms(4) by (auto simp: ledger_release_def)
    then show ?thesis using Some by (simp add: ledger_run_append)
  qed (simp add: ledger_run_append)
  then show ?thesis using parse_log_refines [OF assms(1-3), of dw] by (simp add: refines_def)
qed

text \<open>C33: the interpreter dereferences the result of its lookup unseen: a log that releases an
  address it never saw allocated, or the null pointer (what \<open>realloc(p, 0)\<close> may log), is never
  reported on.\<close>

theorem unknown_release_fails:
  assumes "list_all (\<lambda>te. event_ok (snd te)) (tes @ (t, Released p u) # tes')"
    and "distinct (allocated (tes @ (t, Released p u) # tes'))" "sound_memory mem"
    and "p = 0 \<or> p \<notin> set (allocated tes)"
  shows "\<exists>f. jm_symbols_parse_log mem dw (concat (map event_line (tes @ (t, Released p u) # tes'))) = Fail f"
  by (rule parse_unknown_release [OF assms])

theorem unknown_release_fails_witness:
  "\<exists>f. jm_symbols_parse_log megabyte plain_dwarf
     (concat (map event_line [(1, Allocated 64 8), (2, Released 128 8)])) = Fail f"
  using unknown_release_fails [of "[(1, Allocated 64 8)]" 2 128 8 "[]" megabyte plain_dwarf] megabyte_sound
  by simp

text \<open>C34: the frames of an allocation and of its release go into one array of 32 that is never
  tested for room: a block whose two stacks have more than 32 frames together (each may have 31) keeps the
  interpreter from reporting anything.\<close>

theorem frames_overflow:
  assumes "MAX_BACKTRACE_COUNT < length pcs + length pcs'" "pcs' \<noteq> []" "p \<noteq> 0" "sound_memory mem"
  shows "\<exists>f. jm_symbols_parse_log mem dw (concat (map event_line
    ((t, Allocated p u) # map (\<lambda>pc. (t, Framed pc)) pcs @
     (t', Released p u) # map (\<lambda>pc. (t', Framed pc)) pcs'))) = Fail f"
proof -
  let ?tes = "(t, Allocated p u) # map (\<lambda>pc. (t, Framed pc)) pcs @ (t', Released p u) # map (\<lambda>pc. (t', Framed pc)) pcs'"
  have none: "allocated (map (\<lambda>pc. (t, Framed pc)) xs @ tes) = allocated tes" for t tes and xs :: "u64 list"
    by (induction xs) auto
  have "list_all (\<lambda>te. event_ok (snd te)) ?tes" by (auto simp: list_all_iff)
  moreover have "distinct (allocated ?tes)"
    using none [of t' pcs' "[]"] by (simp add: none)
  ultimately show ?thesis
    using parse_log_refines [of ?tes mem dw] assms(4) ledger_overflow [OF assms(1-3), of dw t u t' u]
    by (simp add: refines_def)
qed

theorem frames_overflow_witness:
  "\<exists>f. jm_symbols_parse_log megabyte plain_dwarf (concat (map event_line
    ((1, Allocated 64 8) # map (\<lambda>pc. (1, Framed pc)) (replicate 20 5) @
     (2, Released 64 8) # map (\<lambda>pc. (2, Framed pc)) (replicate 13 7)))) = Fail f"
  by (rule frames_overflow) (simp_all add: MAX_BACKTRACE_COUNT_def megabyte_sound)

text \<open>A block that is allocated and released up to nine times at one address is not reported;
  the tenth time the growing table hides its newest entry behind its oldest, the release is booked on that one,
  and the block is reported as a leak.\<close>

theorem reused_block_reported:
  assumes "enough mem" "mem sizeof_entry" "p \<noteq> 0"
  shows "(\<exists>sm. jm_symbols_parse_log mem dw (concat (map event_line (reuse_log p u 9))) = Ok sm \<and>
      leaking_keys sm = {}) \<and>
    (\<exists>sm. jm_symbols_parse_log mem dw (concat (map event_line (reuse_log p u 10))) = Ok sm \<and>
      leaking_keys sm = {p})"
proof -
  have "list_all (\<lambda>te. event_ok (snd te)) (reuse_log p u n)" for n
    by (auto simp: reuse_log_def list_all_iff)
  then have log: "jm_symbols_parse_log mem dw (concat (map event_line (reuse_log p u n))) =
      parse_events mem dw (reuse_log p u n) initial_summary" for n
    unfolding jm_symbols_parse_log_def by (rule parse_lines_events)
  have "leaking_keys sm = {}" if "reused p u n sm" for n sm
    using that by (auto simp: leaking_keys_def reused_def)
  then show ?thesis
    using reuse_rounds [OF assms, of 9 dw u] reuse_tenth [OF assms, of dw u] unfolding log by blast
qed

theorem reused_block_reported_witness:
  "\<exists>sm. jm_symbols_parse_log megabyte plain_dwarf (concat (map event_line (reuse_log 4096 24 10))) = Ok sm \<and>
     leaking_keys sm = {4096}"
  using reused_block_reported [OF megabyte_enough(1), of 4096 plain_dwarf 24]
  by (simp add: megabyte_def sizeof_entry_def)

end
