(* ===== verification/Profile.thy ===== *)
theory Profile
  imports Log_Reading
begin

text \<open>
  A profiling session from end to end: the calls of a program, the log that the preloaded library
  writes for them, and the leaks that the interpreter reports from that log.
\<close>

section \<open>The bytes of the log\<close>

definition log_bytes :: "tracker \<Rightarrow> string" where
  "log_bytes tk = concat (map snd (tk_writes tk))"

definition time_at :: "world \<Rightarrow> stm_state \<Rightarrow> nat \<Rightarrow> u64" where
  "time_at w stm n = clock_ns (w_clock w n) - stm_start stm"

fun timed :: "world \<Rightarrow> stm_state \<Rightarrow> nat \<Rightarrow> event list \<Rightarrow> (u64 \<times> event) list" where
  "timed w stm n [] = []"
| "timed w stm n (e # es) = (time_at w stm n, e) # timed w stm (Suc n) es"

lemma timed_append: "timed w stm n (es @ es') = timed w stm n es @ timed w stm (n + length es) es'"
  by (induction es arbitrary: n) auto

lemma map_snd_timed [simp]: "map snd (timed w stm n es) = es"
  by (induction es arbitrary: n) auto

lemma log_all_bytes:
  "log_bytes (log_all w (map event_body es) tk) =
     log_bytes tk @ concat (map event_line (timed w (tk_stm tk) (tk_lines tk) es))"
proof (induction es arbitrary: tk)
  case (Cons e es)
  let ?tk = "logged (stamp tk w @ event_body e) tk"
  have "log_bytes ?tk = log_bytes tk @ event_line (time_at w (tk_stm tk) (tk_lines tk), e)"
    by (simp add: logged_def log_bytes_def event_line_def stamp_def time_at_def)
  moreover have "tk_stm ?tk = tk_stm tk" "tk_lines ?tk = Suc (tk_lines tk)"
    by (simp_all add: logged_def)
  ultimately show ?case using Cons [of ?tk] by simp
qed (simp add: log_bytes_def)

section \<open>The events of a call\<close>

definition update_events :: "world \<Rightarrow> tracker \<Rightarrow> event list" where
  "update_events w tk =
     (if mappings_of tk = Stale
      then map (\<lambda>info. Loaded (fst info) (shown_name tk (snd info))) (w_phdrs w (tk_lines tk))
      else [])"

definition record_events :: "call \<Rightarrow> event list" where
  "record_events c =
     (case c of Call r _ usable trace _ \<Rightarrow>
        (case recorded c of None \<Rightarrow> []
         | Some (is_alloc, ptr) \<Rightarrow>
             (if is_alloc then Allocated ptr usable else Released ptr usable) #
               map Framed (drop 1 (take MAX_BACKTRACE_COUNT trace))))"

definition call_events :: "world \<Rightarrow> tracker \<Rightarrow> call \<Rightarrow> event list" where
  "call_events w tk c = (if is_free (request_of c) then [] else update_events w tk) @ record_events c"

fun profile :: "world \<Rightarrow> call list \<Rightarrow> tracker \<Rightarrow> event list" where
  "profile w [] tk = []"
| "profile w (c # cs) tk = call_events w tk c @ profile w cs (call_tracker w c tk)"

definition names_ok :: "world \<Rightarrow> tracker \<Rightarrow> bool" where
  "names_ok w tk \<longleftrightarrow> (\<forall>n. \<forall>info \<in> set (w_phdrs w n). one_word (shown_name tk (snd info)))"

lemma names_ok_fit: "names_ok w tk \<Longrightarrow> names_fit w tk"
  by (auto simp: names_ok_def names_fit_def one_word_def)

lemma shown_name_cong: "tk_exec_path tk' = tk_exec_path tk \<Longrightarrow> shown_name tk' = shown_name tk"
  by (simp add: shown_name_def fun_eq_iff split: option.split)

lemma updated_log:
  assumes "world_ok w" "tracker_ok tk" "names_ok w tk"
  shows "log_bytes (updated w tk) = log_bytes tk @
      concat (map event_line (timed w (tk_stm tk) (tk_lines tk) (update_events w tk)))"
    and "tk_lines (updated w tk) = tk_lines tk + length (update_events w tk)"
    and "tk_stm (updated w tk) = tk_stm tk" "tk_exec_path (updated w tk) = tk_exec_path tk"
proof -
  let ?P = "log_bytes (updated w tk) = log_bytes tk @
      concat (map event_line (timed w (tk_stm tk) (tk_lines tk) (update_events w tk))) \<and>
      tk_lines (updated w tk) = tk_lines tk + length (update_events w tk) \<and>
      tk_stm (updated w tk) = tk_stm tk \<and> tk_exec_path (updated w tk) = tk_exec_path tk"
  have bytes: "log_bytes (t\<lparr>tk_is_dirty := b\<rparr>) = log_bytes t" "log_bytes (t\<lparr>tk_dirty_mutex := b\<rparr>) = log_bytes t" for t b
    by (simp_all add: log_bytes_def)
  have ?P
  proof (cases "mappings_of tk = Stale")
    case True
    then have d: "tk_is_dirty tk" "\<not> tk_dirty_mutex tk" by (auto simp: mappings_of_def split: if_splits)
    have "\<forall>info \<in> set (w_phdrs w (tk_lines tk)). length (shown_name tk (snd info)) \<le> 2000"
      using names_ok_fit [OF assms(3)] by (simp add: names_fit_def)
    then have u: "updated w tk =
        (log_all w (map (info_line tk) (w_phdrs w (tk_lines tk))) tk)\<lparr>tk_is_dirty := False\<rparr>"
      using update_mappings_dirty [OF assms(1,2) d] by (simp add: updated_def)
    have "map (info_line tk) (w_phdrs w (tk_lines tk)) = map event_body (update_events w tk)"
      using True by (simp add: update_events_def info_line_def)
    then show ?thesis unfolding u by (simp add: bytes log_all_bytes)
  next
    case False
    then have "updated w tk = tk\<lparr>tk_dirty_mutex := True\<rparr> \<or> updated w tk = tk"
      by (auto simp: updated_def mappings_of_def jm_tracker_update_mappings_def Let_def split: if_splits)
    then show ?thesis using False by (auto simp: update_events_def bytes)
  qed
  then show "log_bytes (updated w tk) = log_bytes tk @
      concat (map event_line (timed w (tk_stm tk) (tk_lines tk) (update_events w tk)))"
    and "tk_lines (updated w tk) = tk_lines tk + length (update_events w tk)"
    and "tk_stm (updated w tk) = tk_stm tk" "tk_exec_path (updated w tk) = tk_exec_path tk"
    by simp_all
qed

lemma unwind_lines_events:
  "unwind_lines is_alloc ptr usable trace =
     map event_body ((if is_alloc then Allocated ptr usable else Released ptr usable) #
       map Framed (drop 1 (take MAX_BACKTRACE_COUNT trace)))"
  by (cases is_alloc) (simp_all add: unwind_lines_def)

lemma call_tracker_log:
  assumes "world_ok w" "tracker_ok tk" "names_ok w tk" "plain_call c"
  shows "log_bytes (call_tracker w c tk) = log_bytes tk @
      concat (map event_line (timed w (tk_stm tk) (tk_lines tk) (call_events w tk c)))"
    and "tk_lines (call_tracker w c tk) = tk_lines tk + length (call_events w tk c)"
    and "tk_stm (call_tracker w c tk) = tk_stm tk" "tk_exec_path (call_tracker w c tk) = tk_exec_path tk"
proof -
  obtain r result usable trace nested where c: "c = Call r result usable trace nested" by (cases c)
  let ?u = "if is_free r then tk else updated w tk"
  let ?ue = "if is_free r then [] else update_events w tk"
  have u: "log_bytes ?u = log_bytes tk @ concat (map event_line (timed w (tk_stm tk) (tk_lines tk) ?ue))"
    "tk_lines ?u = tk_lines tk + length ?ue" "tk_stm ?u = tk_stm tk" "tk_exec_path ?u = tk_exec_path tk"
    using updated_log [OF assms(1-3)] by simp_all
  have call: "call_tracker w c tk = log_all w (map event_body (record_events c)) ?u"
    by (cases "recorded c") (auto simp: c call_tracker_def record_events_def unwind_lines_events Let_def)
  have events: "call_events w tk c = ?ue @ record_events c"
    by (simp add: call_events_def request_of_def c)
  show "log_bytes (call_tracker w c tk) = log_bytes tk @
      concat (map event_line (timed w (tk_stm tk) (tk_lines tk) (call_events w tk c)))"
    unfolding call log_all_bytes events timed_append u by simp
  show "tk_lines (call_tracker w c tk) = tk_lines tk + length (call_events w tk c)"
    unfolding call events log_all_sel u by simp
  show "tk_stm (call_tracker w c tk) = tk_stm tk" "tk_exec_path (call_tracker w c tk) = tk_exec_path tk"
    unfolding call log_all_sel u by simp_all
qed

section \<open>A run of the program\<close>

lemma run_calls_log:
  assumes "running st" "world_ok w" "names_ok w (pr_tracker st)" "list_all plain_call cs"
  shows "\<exists>st'. run_calls init w cs st = Ok st' \<and> running st' \<and>
    log_bytes (pr_tracker st') = log_bytes (pr_tracker st) @ concat (map event_line
      (timed w (tk_stm (pr_tracker st)) (tk_lines (pr_tracker st)) (profile w cs (pr_tracker st))))"
  using assms(1,3,4)
proof (induction cs arbitrary: st)
  case (Cons c cs)
  let ?tk = "pr_tracker st" and ?st = "st\<lparr>pr_tracker := call_tracker w c (pr_tracker st)\<rparr>"
  have ok: "tracker_ok ?tk" "plain_call c" using Cons.prems by (auto simp: running_def)
  have run: "run_call init w c st = Ok (result_of c, ?st)"
    using run_call_running [OF Cons.prems(1) assms(2) names_ok_fit [OF Cons.prems(2)] ok(2)] .
  note log = call_tracker_log [OF assms(2) ok(1) Cons.prems(2) ok(2)]
  have "resolved st" using Cons.prems(1) by (simp add: running_iff)
  then have running: "running ?st"
    using shape_running [OF run_call_shape(1) [OF run]] Cons.prems(1) by blast
  have names: "names_ok w (pr_tracker ?st)"
    using Cons.prems(2) shown_name_cong [OF log(4)] by (simp add: names_ok_def)
  obtain st' where "run_calls init w cs ?st = Ok st'" "running st'"
    "log_bytes (pr_tracker st') = log_bytes (pr_tracker ?st) @ concat (map event_line
      (timed w (tk_stm (pr_tracker ?st)) (tk_lines (pr_tracker ?st)) (profile w cs (pr_tracker ?st))))"
    using Cons.IH [OF running names] Cons.prems(3) by auto
  then show ?case
    using run log by (simp add: timed_append)
qed simp

section \<open>From the calls to the report\<close>

definition call_allocates :: "call \<Rightarrow> u64 list" where
  "call_allocates c = (case recorded c of Some (True, ptr) \<Rightarrow> [ptr] | _ \<Rightarrow> [])"

definition call_releases :: "call \<Rightarrow> u64 list" where
  "call_releases c = (case recorded c of Some (False, ptr) \<Rightarrow> [ptr] | _ \<Rightarrow> [])"

lemma allocated_append: "allocated (xs @ ys) = allocated xs @ allocated ys"
proof (induction xs)
  case (Cons x xs)
  then show ?case using allocated_Cons [of x "xs @ ys"] allocated_Cons [of x xs] by simp
qed simp

lemma released_append: "released (xs @ ys) = released xs @ released ys"
proof (induction xs)
  case (Cons x xs)
  then show ?case using released_Cons [of x "xs @ ys"] released_Cons [of x xs] by simp
qed simp

text \<open>Neither depends on the times.\<close>

lemma timed_frames:
  "allocated (timed w stm n (map Framed pcs)) = []" "released (timed w stm n (map Framed pcs)) = []"
  by (induction pcs arbitrary: n) auto

lemma timed_loaded:
  "allocated (timed w stm n (map (\<lambda>i. Loaded (f i) (g i)) is)) = []"
  "released (timed w stm n (map (\<lambda>i. Loaded (f i) (g i)) is)) = []"
  by (induction "is" arbitrary: n) auto

lemma timed_call:
  "allocated (timed w stm n (call_events w' tk c)) = call_allocates c"
  "released (timed w stm n (call_events w' tk c)) = call_releases c"
proof -
  obtain r result usable trace nested where c: "c = Call r result usable trace nested" by (cases c)
  have u: "allocated (timed w stm m (if is_free (request_of c) then [] else update_events w' tk)) = []"
    "released (timed w stm m (if is_free (request_of c) then [] else update_events w' tk)) = []" for m
    by (simp_all add: update_events_def timed_loaded)
  have r: "allocated (timed w stm m (record_events c)) = call_allocates c"
    "released (timed w stm m (record_events c)) = call_releases c" for m
  proof -
    have re: "record_events c = (case recorded c of None \<Rightarrow> []
         | Some (is_alloc, ptr) \<Rightarrow> (if is_alloc then Allocated ptr usable else Released ptr usable) #
             map Framed (drop 1 (take MAX_BACKTRACE_COUNT trace)))"
      by (simp add: record_events_def c)
    consider "recorded c = None" | ptr where "recorded c = Some (True, ptr)" | ptr where "recorded c = Some (False, ptr)"
      by (cases "recorded c") auto
    then have "allocated (timed w stm m (record_events c)) = call_allocates c \<and>
      released (timed w stm m (record_events c)) = call_releases c"
      by cases (simp_all add: re call_allocates_def call_releases_def timed_frames)
    then show "allocated (timed w stm m (record_events c)) = call_allocates c"
      "released (timed w stm m (record_events c)) = call_releases c"
      by simp_all
  qed
  show "allocated (timed w stm n (call_events w' tk c)) = call_allocates c"
    "released (timed w stm n (call_events w' tk c)) = call_releases c"
    by (simp_all add: call_events_def timed_append allocated_append released_append u r)
qed

lemma timed_profile:
  "allocated (timed w stm n (profile w' cs tk)) = concat (map call_allocates cs)"
  "released (timed w stm n (profile w' cs tk)) = concat (map call_releases cs)"
  by (induction cs arbitrary: n tk)
    (simp_all add: timed_append allocated_append released_append timed_call)

lemma events_ok_call: "names_ok w tk \<Longrightarrow> list_all event_ok (call_events w tk c)"
proof -
  assume "names_ok w tk"
  then have "list_all event_ok (update_events w tk)"
    by (fastforce simp: update_events_def names_ok_def list_all_iff)
  moreover have "list_all event_ok (record_events c)"
    by (auto simp: record_events_def list_all_iff split: call.split option.split)
  ultimately show ?thesis by (simp add: call_events_def)
qed

lemma events_ok_profile:
  assumes "world_ok w" "tracker_ok tk" "names_ok w tk" "list_all plain_call cs"
  shows "list_all event_ok (profile w cs tk)"
  using assms(2-4)
proof (induction cs arbitrary: tk)
  case (Cons c cs)
  have plain: "plain_call c" using Cons.prems by simp
  note log = call_tracker_log [OF assms(1) Cons.prems(1,2) plain]
  have "names_ok w (call_tracker w c tk)"
    using Cons.prems(2) shown_name_cong [OF log(4)] by (simp add: names_ok_def)
  moreover have "tracker_ok (call_tracker w c tk)"
  proof -
    have "tracker_ok (updated w tk)"
      using updated_Ok(2) [OF assms(1) Cons.prems(1) names_ok_fit [OF Cons.prems(2)]] .
    then show ?thesis using Cons.prems(1)
      by (auto simp: call_tracker_def Let_def split: call.split option.split)
  qed
  ultimately show ?case using Cons events_ok_call by simp
qed simp

lemma timed_ok: "list_all event_ok es \<Longrightarrow> list_all (\<lambda>te. event_ok (snd te)) (timed w stm n es)"
  by (induction es arbitrary: n) auto

section \<open>Sessions that the interpreter reads to the end\<close>

definition frames_of :: "call \<Rightarrow> u64 list" where
  "frames_of c = (case c of Call _ _ _ trace _ \<Rightarrow> drop 1 (take MAX_BACKTRACE_COUNT trace))"

text \<open>
  No allocation fails, nothing is released that was not recorded as allocated, and the frames of
  an allocation and of its releases fit its entry together.
\<close>

fun calls_fit :: "(u64 \<Rightarrow> nat option) \<Rightarrow> call list \<Rightarrow> bool" where
  "calls_fit m [] \<longleftrightarrow> True"
| "calls_fit m (c # cs) \<longleftrightarrow>
     (case recorded c of
        None \<Rightarrow> calls_fit m cs
      | Some (is_alloc, ptr) \<Rightarrow> ptr \<noteq> 0 \<and>
          (case (if is_alloc then Some 0 else m ptr) of
             None \<Rightarrow> False
           | Some k \<Rightarrow> k + length (frames_of c) \<le> MAX_BACKTRACE_COUNT \<and>
               calls_fit (m(ptr \<mapsto> k + length (frames_of c))) cs))"

lemma log_fits_frames:
  "c ctx = Some k \<Longrightarrow> ctx \<noteq> 0 \<Longrightarrow> k + length pcs \<le> MAX_BACKTRACE_COUNT \<Longrightarrow>
    log_fits c ctx n (timed w stm m (map Framed pcs) @ tes) = log_fits (c(ctx \<mapsto> k + length pcs)) ctx n tes"
proof (induction pcs arbitrary: c k m)
  case Nil
  then have "c(ctx \<mapsto> k) = c" by (simp add: fun_upd_idem)
  then show ?case by simp
next
  case (Cons pc pcs)
  have "log_fits c ctx n (timed w stm m (map Framed (pc # pcs)) @ tes) =
      log_fits (c(ctx \<mapsto> Suc k)) ctx n (timed w stm (Suc m) (map Framed pcs) @ tes)"
    using Cons.prems by simp
  also have "\<dots> = log_fits ((c(ctx \<mapsto> Suc k))(ctx \<mapsto> Suc k + length pcs)) ctx n tes"
    by (rule Cons.IH) (use Cons.prems in simp_all)
  finally show ?case by (simp only: fun_upd_upd list.size add_Suc_right add_Suc Nat.add_0_right)
qed

lemma log_fits_loaded:
  "log_fits c ctx n (timed w stm m (map (\<lambda>i. Loaded (f i) (g i)) is) @ tes) = log_fits c ctx n tes"
  by (induction "is" arbitrary: m) auto

lemma log_fits_updates:
  "log_fits c ctx n (timed w stm m (if b then [] else update_events w' tk) @ tes) = log_fits c ctx n tes"
  by (simp add: update_events_def log_fits_loaded)

lemma log_fits_profile: "calls_fit m cs \<Longrightarrow> log_fits m ctx 0 (timed w stm n (profile w' cs tk))"
proof (induction cs arbitrary: m ctx n tk)
  case (Cons c cs)
  obtain r result usable trace nested where c: "c = Call r result usable trace nested" by (cases c)
  let ?n = "n + length (if is_free (request_of c) then [] else update_events w' tk)"
  let ?rest = "\<lambda>n. timed w stm n (profile w' cs (call_tracker w' c tk))"
  have split: "log_fits m ctx 0 (timed w stm n (profile w' (c # cs) tk)) =
      log_fits m ctx 0 (timed w stm ?n (record_events c) @ ?rest (?n + length (record_events c)))"
    unfolding profile.simps call_events_def timed_append append_assoc log_fits_updates
    by (simp add: add.assoc)
  show ?case
  proof (cases "recorded c")
    case None
    then have "record_events c = []" by (simp add: record_events_def c)
    then show ?thesis using split Cons.IH Cons.prems None by simp
  next
    case (Some a)
    obtain is_alloc ptr where a: "a = (is_alloc, ptr)" by (cases a)
    have ev: "record_events c = (if is_alloc then Allocated ptr usable else Released ptr usable) # map Framed (frames_of c)"
      using Some by (simp add: record_events_def frames_of_def c a)
    obtain k where k: "(if is_alloc then Some 0 else m ptr) = Some k" "ptr \<noteq> 0"
      "k + length (frames_of c) \<le> MAX_BACKTRACE_COUNT" "calls_fit (m(ptr \<mapsto> k + length (frames_of c))) cs"
      using Cons.prems Some a by (auto split: option.splits)
    have known: "m(ptr \<mapsto> k) = (if is_alloc then m(ptr \<mapsto> 0) else m)"
      using k(1) by (auto split: if_splits)
    have m: "(m(ptr \<mapsto> k)) ptr = Some k" by simp
    have "log_fits (m(ptr \<mapsto> k)) ptr 0 (timed w stm (Suc ?n) (map Framed (frames_of c)) @ ?rest (?n + length (record_events c)))"
      unfolding log_fits_frames [where c = "m(ptr \<mapsto> k)" and ctx = ptr, OF m k(2,3)] fun_upd_upd by (rule Cons.IH [OF k(4)])
    then show ?thesis
      unfolding split ev using k(1,2) known by (auto split: if_splits)
  qed
qed simp


text \<open>The log of a session is that of its events.\<close>

lemma session_log:
  assumes "plain_system sy" "w_readlink (sy_world sy) = Some target" "one_word target"
    and "jm_preload_init sy initial_process = Ok st" "names_ok (sy_world sy) (pr_tracker st)"
    and "list_all plain_call cs"
  shows "\<exists>t n stm st'. run_calls (jm_preload_init sy) (sy_world sy) cs st = Ok st' \<and>
    log_bytes (pr_tracker st') = concat (map event_line ((t, Executes target) #
      timed (sy_world sy) stm n (profile (sy_world sy) cs (pr_tracker st)))) \<and>
    list_all event_ok (Executes target # profile (sy_world sy) cs (pr_tracker st))"
proof -
  let ?w = "sy_world sy" and ?tk = "pr_tracker st"
  have target: "length target \<le> 2000" "NUL \<notin> set target"
    using assms(3) by (auto simp: one_word_def list_all_iff)
  obtain st1 where "jm_preload_init sy initial_process = Ok st1" "running st1" "tk_writes (pr_tracker st1) =
      [(w_open ?w, stamp (setup_tracker sy) ?w @ module_line CHR ''x'' 0 target)]"
    using init_running [OF assms(1,2) target] by blast
  then have st: "running st" "tk_writes ?tk = [(w_open ?w, stamp (setup_tracker sy) ?w @ module_line CHR ''x'' 0 target)]"
    using assms(4) by auto
  have world: "world_ok ?w" using assms(1) by (simp add: plain_system_def)
  define t where "t = clock_ns (w_clock ?w (tk_lines (setup_tracker sy))) - stm_start (tk_stm (setup_tracker sy))"
  have start: "log_bytes ?tk = event_line (t, Executes target)"
    using st(2) by (simp add: log_bytes_def event_line_def stamp_def t_def)
  obtain st' where st': "run_calls (jm_preload_init sy) ?w cs st = Ok st'"
    "log_bytes (pr_tracker st') = log_bytes ?tk @ concat (map event_line
      (timed ?w (tk_stm ?tk) (tk_lines ?tk) (profile ?w cs ?tk)))"
    using run_calls_log [OF st(1) world assms(5,6)] by blast
  have "tracker_ok ?tk" using st(1) by (simp add: running_def)
  then have "list_all event_ok (Executes target # profile ?w cs ?tk)"
    using events_ok_profile [OF world _ assms(5,6)] assms(3) by simp
  then show ?thesis using st' start by auto
qed

text \<open>What the interpreter makes of it.\<close>

lemma session_read:
  assumes "list_all event_ok (Executes target # profile w cs tk)"
    and "distinct (concat (map call_allocates cs))" "sound_memory mem" "short_names dw" "calls_fit (\<lambda>_. None) cs"
    and "log = concat (map event_line ((t, Executes target) # timed w stm n (profile w cs tk)))"
  shows "jm_symbols_parse_log mem dw log = Fail Exit_Called \<or>
    (\<exists>sm. jm_symbols_parse_log mem dw log = Ok sm \<and> summary_ok sm \<and>
       leaking_keys sm = set (concat (map call_allocates cs)) - set (concat (map call_releases cs)))"
proof -
  let ?tes = "(t, Executes target) # timed w stm n (profile w cs tk)"
  have ok: "list_all (\<lambda>te. event_ok (snd te)) ?tes" using assms(1) timed_ok by simp
  have mem: "allocated ?tes = concat (map call_allocates cs)" "released ?tes = concat (map call_releases cs)"
    by (simp_all add: timed_profile)
  have "log_fits (\<lambda>_. None) 0 0 ?tes" using log_fits_profile [OF assms(5)] by simp
  then have "jm_symbols_parse_log mem dw log = Fail Exit_Called \<or> (\<exists>sm. jm_symbols_parse_log mem dw log = Ok sm)"
    using parse_log_finishes [OF ok _ assms(3,4)] mem(1) assms(2,6) by simp
  moreover have "summary_ok sm" if "jm_symbols_parse_log mem dw log = Ok sm" for sm
    using that parse_lines_invariant initial_summary_ok assms(3) unfolding jm_symbols_parse_log_def by blast
  moreover have "leaking_keys sm = set (concat (map call_allocates cs)) - set (concat (map call_releases cs))"
    if "jm_symbols_parse_log mem dw log = Ok sm" for sm
    using leaks_reported [OF ok _ assms(3), of dw sm] mem assms(2,6) that by simp
  ultimately show ?thesis by blast
qed

section \<open>Properties\<close>

text \<open>C1: from end to end: for every program run in which no allocation fails, no address is
  allocated twice, only allocated addresses are released and the stacks fit, all calls succeed, and the
  interpreter, unless it runs out of memory, reads the log of the run to its end and reports as leaks exactly the
  addresses that were allocated and not released.\<close>

theorem session_reports_leaks:
  assumes "plain_system sy" "w_readlink (sy_world sy) = Some target" "one_word target"
    and "jm_preload_init sy initial_process = Ok st" "names_ok (sy_world sy) (pr_tracker st)"
    and "list_all plain_call cs" "distinct (concat (map call_allocates cs))" "calls_fit (\<lambda>_. None) cs"
    and "sound_memory mem" "short_names dw"
  shows "\<exists>st'. run_calls (jm_preload_init sy) (sy_world sy) cs st = Ok st' \<and>
    (jm_symbols_parse_log mem dw (log_bytes (pr_tracker st')) = Fail Exit_Called \<or>
     (\<exists>sm out. jm_symbols_parse_log mem dw (log_bytes (pr_tracker st')) = Ok sm \<and>
        leaking_keys sm = set (concat (map call_allocates cs)) - set (concat (map call_releases cs)) \<and>
        report sm = Ok out))"
proof -
  obtain t n stm st' where s: "run_calls (jm_preload_init sy) (sy_world sy) cs st = Ok st'"
    "log_bytes (pr_tracker st') = concat (map event_line ((t, Executes target) #
      timed (sy_world sy) stm n (profile (sy_world sy) cs (pr_tracker st))))"
    "list_all event_ok (Executes target # profile (sy_world sy) cs (pr_tracker st))"
    using session_log [OF assms(1-6)] by blast
  show ?thesis
    using session_read [OF s(3) assms(7,9,10,8) s(2)] s(1) report_total by blast
qed

lemma quiet_names_ok: "names_ok quiet_world tk"
  by (simp add: names_ok_def quiet_world_def)

lemma bin_app_word: "one_word ''/bin/app''"
  by (simp add: one_word_def is_space_def)

lemma quiet_session:
  obtains st where "jm_preload_init quiet_system initial_process = Ok st"
    "names_ok (sy_world quiet_system) (pr_tracker st)"
  using init_running [OF quiet_plain, of "''/bin/app''"] quiet_names_ok
  by (auto simp: quiet_system_def quiet_world_def)

theorem session_reports_leaks_witness:
  "\<exists>st st'. jm_preload_init quiet_system initial_process = Ok st \<and>
    run_calls (jm_preload_init quiet_system) quiet_world
      [Call (Malloc 10) 64 16 [1, 2, 3] [], Call (Malloc 20) 128 24 [1] [], Call (Free 64) 0 16 [1, 4] []] st = Ok st' \<and>
    (jm_symbols_parse_log megabyte plain_dwarf (log_bytes (pr_tracker st')) = Fail Exit_Called \<or>
     (\<exists>sm. jm_symbols_parse_log megabyte plain_dwarf (log_bytes (pr_tracker st')) = Ok sm \<and> leaking_keys sm = {128}))"
proof -
  let ?cs = "[Call (Malloc 10) 64 16 [1, 2, 3] [], Call (Malloc 20) 128 24 [1] [], Call (Free 64) 0 16 [1, 4] []]"
  obtain st where st: "jm_preload_init quiet_system initial_process = Ok st"
    "names_ok (sy_world quiet_system) (pr_tracker st)" by (rule quiet_session)
  have cs: "list_all plain_call ?cs" "distinct (concat (map call_allocates ?cs))" "calls_fit (\<lambda>_. None) ?cs"
    by (simp_all add: plain_call_def call_allocates_def recorded_def frames_of_def MAX_BACKTRACE_COUNT_def)
  have leaks: "set (concat (map call_allocates ?cs)) - set (concat (map call_releases ?cs)) = {128}"
    by (auto simp: call_allocates_def call_releases_def recorded_def)
  have w: "w_readlink (sy_world quiet_system) = Some ''/bin/app''" "sy_world quiet_system = quiet_world"
    by (simp_all add: quiet_system_def quiet_world_def)
  show ?thesis
    using session_reports_leaks [OF quiet_plain w(1) bin_app_word st cs megabyte_sound plain_dwarf_short]
    unfolding leaks w(2) using st(1) by blast
qed

text \<open>C35: \<open>realloc\<close> logs the block it returns and never the release of the block it took: a
  program that moves a block and then releases it has no leak, and is reported to have one.\<close>

theorem moved_block_reported:
  assumes "plain_system sy" "w_readlink (sy_world sy) = Some target" "one_word target"
    and "jm_preload_init sy initial_process = Ok st" "names_ok (sy_world sy) (pr_tracker st)"
    and "sound_memory mem" "short_names dw" "p \<noteq> q" "p \<noteq> 0" "q \<noteq> 0" "m \<noteq> 0"
  shows "\<exists>st'. run_calls (jm_preload_init sy) (sy_world sy)
      [Call (Malloc n) p n [] [], Call (Realloc p m) q m [] [], Call (Free q) 0 m [] []] st = Ok st' \<and>
    (jm_symbols_parse_log mem dw (log_bytes (pr_tracker st')) = Fail Exit_Called \<or>
     (\<exists>sm. jm_symbols_parse_log mem dw (log_bytes (pr_tracker st')) = Ok sm \<and> leaking_keys sm = {p}))"
proof -
  let ?cs = "[Call (Malloc n) p n [] [], Call (Realloc p m) q m [] [], Call (Free q) 0 m [] []]"
  have cs: "list_all plain_call ?cs" "distinct (concat (map call_allocates ?cs))" "calls_fit (\<lambda>_. None) ?cs"
    using assms(8-11)
    by (simp_all add: plain_call_def call_allocates_def recorded_def frames_of_def)
  have leaks: "set (concat (map call_allocates ?cs)) - set (concat (map call_releases ?cs)) = {p}"
    using assms(8-11) by (auto simp: call_allocates_def call_releases_def recorded_def)
  obtain t k stm st' where s: "run_calls (jm_preload_init sy) (sy_world sy) ?cs st = Ok st'"
    "log_bytes (pr_tracker st') = concat (map event_line ((t, Executes target) #
      timed (sy_world sy) stm k (profile (sy_world sy) ?cs (pr_tracker st))))"
    "list_all event_ok (Executes target # profile (sy_world sy) ?cs (pr_tracker st))"
    using session_log [OF assms(1-5) cs(1)] by blast
  show ?thesis
    using session_read [OF s(3) cs(2) assms(6,7) cs(3) s(2)] s(1) unfolding leaks by blast
qed

theorem moved_block_reported_witness:
  "\<exists>st st'. jm_preload_init quiet_system initial_process = Ok st \<and>
    run_calls (jm_preload_init quiet_system) quiet_world
      [Call (Malloc 8) 64 8 [] [], Call (Realloc 64 100) 128 100 [] [], Call (Free 128) 0 100 [] []] st = Ok st' \<and>
    (jm_symbols_parse_log megabyte plain_dwarf (log_bytes (pr_tracker st')) = Fail Exit_Called \<or>
     (\<exists>sm. jm_symbols_parse_log megabyte plain_dwarf (log_bytes (pr_tracker st')) = Ok sm \<and> leaking_keys sm = {64}))"
proof -
  obtain st where st: "jm_preload_init quiet_system initial_process = Ok st"
    "names_ok (sy_world quiet_system) (pr_tracker st)" by (rule quiet_session)
  have w: "w_readlink (sy_world quiet_system) = Some ''/bin/app''" "sy_world quiet_system = quiet_world"
    by (simp_all add: quiet_system_def quiet_world_def)
  show ?thesis
    using moved_block_reported [OF quiet_plain w(1) bin_app_word st megabyte_sound plain_dwarf_short,
        of 64 128 100 8] st(1) unfolding w(2) by auto
qed

end
