(* ===== verification/Runs.thy ===== *)
theory Runs
  imports Prelude
begin

text \<open>
  Runs of a labelled transition system, with the steps in the order in which they are taken: what the runs of several
  threads share.
\<close>

locale transition_runs =
  fixes step :: "'s \<Rightarrow> 'i \<Rightarrow> 'a \<Rightarrow> 's \<Rightarrow> bool"
    and run :: "'s \<Rightarrow> ('i \<times> 'a) list \<Rightarrow> 's \<Rightarrow> bool"
  assumes run_empty: "run s [] s"
    and run_extend: "run s ls s' \<Longrightarrow> step s' i a s'' \<Longrightarrow> run s (ls @ [(i, a)]) s''"
    and run_induct: "run s ls s' \<Longrightarrow> (\<And>s. P s [] s) \<Longrightarrow>
      (\<And>s ls s' i a s''. run s ls s' \<Longrightarrow> P s ls s' \<Longrightarrow> step s' i a s'' \<Longrightarrow> P s (ls @ [(i, a)]) s'') \<Longrightarrow> P s ls s'"
begin

lemmas runs_induct [consumes 1, case_names empty extend] = run_induct

lemma run_append:
  assumes "run s ls s'" "run s' ls' s''"
  shows "run s (ls @ ls') s''"
proof -
  have "run s' ls' s'' \<Longrightarrow> run s ls s' \<longrightarrow> run s (ls @ ls') s''"
  proof (induction rule: runs_induct)
    case (extend s' ls' t i a t')
    then show ?case using run_extend [of s "ls @ ls'" t i a t'] by simp
  qed simp
  then show ?thesis using assms by blast
qed

lemma run_step: "step s i a s' \<Longrightarrow> run s [(i, a)] s'"
  using run_extend [OF run_empty] by fastforce

lemma run_Cons: "step s i a s' \<Longrightarrow> run s' ls s'' \<Longrightarrow> run s ((i, a) # ls) s''"
  using run_append [OF run_step] by fastforce

text \<open>Invariants, also those that only some steps keep.\<close>

lemma invariant_if:
  assumes "run s ls s'" "list_all (Q \<circ> snd) ls" "I s" "\<And>s i a s'. I s \<Longrightarrow> step s i a s' \<Longrightarrow> Q a \<Longrightarrow> I s'"
  shows "I s'"
proof -
  have "run s ls s' \<Longrightarrow> list_all (Q \<circ> snd) ls \<longrightarrow> I s \<longrightarrow> I s'"
  proof (induction rule: runs_induct)
    case (extend s ls s' i a s'')
    then show ?case using assms(4) by auto
  qed simp
  then show ?thesis using assms(1-3) by blast
qed

lemma invariant:
  assumes "run s ls s'" "I s" "\<And>s i a s'. I s \<Longrightarrow> step s i a s' \<Longrightarrow> I s'"
  shows "I s'"
  using invariant_if [OF assms(1), of "\<lambda>_. True" I] assms(2,3) by (simp add: list_all_iff)

end

end
