(* ===== verification/Threads.thy ===== *)
theory Threads
  imports Profile Runs
begin

text \<open>
  Several threads in the interposed functions of \<open>src/preload.c\<close> at the same time: the calls
  of a thread are the steps that its code in \<open>src/preload.c\<close>, \<open>src/backtrace.c\<close> and
  \<open>src/tracker.c\<close> takes on what the threads share, the three mutexes, the flag of unlogged modules,
  the heap of the C library and the log. A call that comes back into the library from the same
  thread is the matter of \<open>Preload\<close>; here the guards of the calls are open.
\<close>

section \<open>The code of a call\<close>

text \<open>
  \<open>Trylock_Update\<close> to \<open>Unlock_Dirty\<close> are the steps of \<open>jm_tracker_update_mappings\<close> and
  \<open>jm_tracker_set_dirty\<close>, \<open>Lock_Unwind\<close> to \<open>Unlock_Unwind\<close> those of \<open>jm_backtrace_unwind\<close>, and
  \<open>Lock_Fd\<close> to \<open>Unlock_Fd\<close> those of \<open>jm_tracker_fprintf\<close>: \<open>Stamp e\<close> reads the clock and
  \<open>Put t e\<close> writes the line. \<open>Give_Back p\<close> returns a block to the program.
\<close>

datatype instr =
    Trylock_Update
  | Check_Dirty
  | Trylock_Set bool
  | Store_Dirty bool
  | Unlock_Dirty
  | Lock_Unwind
  | Measure bool u64
  | Unlock_Unwind
  | Lock_Fd
  | Stamp event
  | Put u64 event
  | Unlock_Fd
  | Give_Back u64
  | Libc_Free u64

type_synonym code = "instr list"

definition fprintf_code :: "event \<Rightarrow> code" where
  "fprintf_code e = [Lock_Fd, Stamp e, Unlock_Fd]"

definition frames_in :: "u64 list \<Rightarrow> u64 list" where
  "frames_in trace = drop 1 (take MAX_BACKTRACE_COUNT trace)"

definition frames_code :: "u64 list \<Rightarrow> code" where
  "frames_code pcs = concat (map (\<lambda>pc. fprintf_code (Framed pc)) pcs)"

definition unwind_code :: "bool \<Rightarrow> u64 \<Rightarrow> u64 list \<Rightarrow> code" where
  "unwind_code is_alloc p trace = Lock_Unwind # Measure is_alloc p # frames_code (frames_in trace) @ [Unlock_Unwind]"

text \<open>After the call of the C library, in \<open>malloc\<close>, \<open>calloc\<close> and \<open>realloc\<close>; before it, in \<open>free\<close>.\<close>

definition alloc_code :: "bool \<Rightarrow> u64 \<Rightarrow> u64 list \<Rightarrow> code" where
  "alloc_code is_alloc p trace = Trylock_Update # unwind_code is_alloc p trace @ [Give_Back p]"

definition free_code :: "u64 \<Rightarrow> u64 list \<Rightarrow> code" where
  "free_code p trace = (if p \<noteq> 0 then unwind_code False p trace else []) @ [Libc_Free p]"

section \<open>What the threads share\<close>

text \<open>
  A mutex is the thread that holds it. \<open>sh_heap\<close> has the usable size of each block of the C library,
  \<open>sh_owned\<close> the blocks that calls have returned to the program and that it has not passed on,
  \<open>sh_now\<close> what \<open>stm_now\<close> returns. A line of the log carries the thread that wrote it.
\<close>

type_synonym entry = "nat \<times> u64 \<times> event"

record shared =
  sh_heap :: "u64 \<Rightarrow> u64 option"
  sh_owned :: "u64 set"
  sh_unwind :: "nat option"
  sh_fd :: "nat option"
  sh_dirty_mutex :: "nat option"
  sh_is_dirty :: bool
  sh_now :: u64
  sh_log :: "entry list"
  sh_code :: "nat \<Rightarrow> code"

definition threads_start :: shared where
  "threads_start = \<lparr>sh_heap = \<lambda>_. None, sh_owned = {}, sh_unwind = None, sh_fd = None, sh_dirty_mutex = None,
     sh_is_dirty = True, sh_now = 0, sh_log = [], sh_code = \<lambda>_. []\<rparr>"

text \<open>\<open>malloc_usable_size\<close>, which is 0 for the null pointer.\<close>

definition usable_size :: "shared \<Rightarrow> u64 \<Rightarrow> u64 option" where
  "usable_size s p = (if p = 0 then Some 0 else sh_heap s p)"

definition record_event :: "bool \<Rightarrow> u64 \<Rightarrow> u64 \<Rightarrow> event" where
  "record_event is_alloc p u = (if is_alloc then Allocated p u else Released p u)"

definition goto :: "nat \<Rightarrow> code \<Rightarrow> shared \<Rightarrow> shared" where
  "goto i c s = s\<lparr>sh_code := (sh_code s)(i := c)\<rparr>"

text \<open>
  The next step of thread \<open>i\<close>, with \<open>ms\<close> for the modules that \<open>dl_iterate_phdr\<close> finds;
  \<open>None\<close> while it waits for a mutex, when it is in no call, and for a block that is not allocated.
  \<open>pthread_mutex_trylock\<close> never waits.
\<close>

definition next_step :: "nat \<Rightarrow> (u64 \<times> string) list \<Rightarrow> shared \<Rightarrow> shared option" where
  "next_step i ms s =
     (case sh_code s i of [] \<Rightarrow> None
      | x # c \<Rightarrow>
        (case x of
           Trylock_Update \<Rightarrow>
             Some (if sh_dirty_mutex s \<noteq> None then goto i c s
                   else goto i (Check_Dirty # c) (s\<lparr>sh_dirty_mutex := Some i\<rparr>))
         | Check_Dirty \<Rightarrow>
             Some (if \<not> sh_is_dirty s then goto i c s
                   else goto i (concat (map (\<lambda>(a, n). fprintf_code (Loaded a n)) ms) @ Unlock_Dirty # c)
                     (s\<lparr>sh_is_dirty := False\<rparr>))
         | Trylock_Set b \<Rightarrow>
             Some (if sh_dirty_mutex s \<noteq> None then goto i c s
                   else goto i (Store_Dirty b # Unlock_Dirty # c) (s\<lparr>sh_dirty_mutex := Some i\<rparr>))
         | Store_Dirty b \<Rightarrow> Some (goto i c (s\<lparr>sh_is_dirty := b\<rparr>))
         | Unlock_Dirty \<Rightarrow> Some (goto i c (s\<lparr>sh_dirty_mutex := None\<rparr>))
         | Lock_Unwind \<Rightarrow>
             if sh_unwind s \<noteq> None then None else Some (goto i c (s\<lparr>sh_unwind := Some i\<rparr>))
         | Measure b p \<Rightarrow>
             map_option (\<lambda>u. goto i (fprintf_code (record_event b p u) @ c) s) (usable_size s p)
         | Unlock_Unwind \<Rightarrow> Some (goto i c (s\<lparr>sh_unwind := None\<rparr>))
         | Lock_Fd \<Rightarrow> if sh_fd s \<noteq> None then None else Some (goto i c (s\<lparr>sh_fd := Some i\<rparr>))
         | Stamp e \<Rightarrow> Some (goto i (Put (sh_now s) e # c) s)
         | Put t e \<Rightarrow> Some (goto i c (s\<lparr>sh_log := sh_log s @ [(i, t, e)]\<rparr>))
         | Unlock_Fd \<Rightarrow> Some (goto i c (s\<lparr>sh_fd := None\<rparr>))
         | Give_Back p \<Rightarrow> Some (goto i c (s\<lparr>sh_owned := (if p = 0 then sh_owned s else insert p (sh_owned s))\<rparr>))
         | Libc_Free p \<Rightarrow>
             if p = 0 then Some (goto i c s)
             else if sh_heap s p = None then None
             else Some (goto i c (s\<lparr>sh_heap := (sh_heap s)(p := None)\<rparr>))))"

section \<open>Steps\<close>

text \<open>
  What a thread does: it takes the next step of its call, or it is in no call and begins one, whose call of the C library
  returns a block that is not in use (\<open>Allocates\<close>), or fails; it frees a block it owns; \<open>realloc\<close> moves a block
  or enlarges it in place, or releases it; \<open>dlopen\<close> or \<open>dlclose\<close> has succeeded. Time passes.
\<close>

datatype action =
    Goes "(u64 \<times> string) list"
  | Allocates u64 u64 "u64 list"
  | Alloc_Fails "u64 list"
  | Frees u64 "u64 list"
  | Moves u64 u64 u64 "u64 list"
  | Reallocs_To_Zero u64 "u64 list"
  | Loads
  | Passes u64

inductive thread_step :: "shared \<Rightarrow> nat \<Rightarrow> action \<Rightarrow> shared \<Rightarrow> bool" where
  goes: "next_step i ms s = Some s' \<Longrightarrow> thread_step s i (Goes ms) s'"
| allocates: "sh_code s i = [] \<Longrightarrow> p \<noteq> 0 \<Longrightarrow> sh_heap s p = None \<Longrightarrow>
    thread_step s i (Allocates p u trace) (goto i (alloc_code True p trace) (s\<lparr>sh_heap := (sh_heap s)(p \<mapsto> u)\<rparr>))"
| alloc_fails: "sh_code s i = [] \<Longrightarrow>
    thread_step s i (Alloc_Fails trace) (goto i (alloc_code True 0 trace) s)"
| frees: "sh_code s i = [] \<Longrightarrow> p = 0 \<or> p \<in> sh_owned s \<Longrightarrow>
    thread_step s i (Frees p trace) (goto i (free_code p trace) (s\<lparr>sh_owned := sh_owned s - {p}\<rparr>))"
| moves: "sh_code s i = [] \<Longrightarrow> p \<in> sh_owned s \<Longrightarrow> q \<noteq> 0 \<Longrightarrow> q = p \<or> sh_heap s q = None \<Longrightarrow>
    thread_step s i (Moves p q u trace) (goto i (alloc_code True q trace)
      (s\<lparr>sh_heap := (sh_heap s)(p := None, q \<mapsto> u), sh_owned := sh_owned s - {p}\<rparr>))"
| reallocs_to_zero: "sh_code s i = [] \<Longrightarrow> p \<in> sh_owned s \<Longrightarrow>
    thread_step s i (Reallocs_To_Zero p trace) (goto i (alloc_code False 0 trace)
      (s\<lparr>sh_heap := (sh_heap s)(p := None), sh_owned := sh_owned s - {p}\<rparr>))"
| loads: "sh_code s i = [] \<Longrightarrow> thread_step s i Loads (goto i [Trylock_Set True] s)"
| passes: "sh_now s \<le> t \<Longrightarrow> thread_step s i (Passes t) (s\<lparr>sh_now := t\<rparr>)"

inductive_cases goes_cases: "thread_step s i (Goes ms) s'"

inductive threads_run :: "shared \<Rightarrow> (nat \<times> action) list \<Rightarrow> shared \<Rightarrow> bool" where
  run_nil: "threads_run s [] s"
| run_snoc: "threads_run s ls s' \<Longrightarrow> thread_step s' i a s'' \<Longrightarrow> threads_run s (ls @ [(i, a)]) s''"

interpretation threads: transition_runs thread_step threads_run
proof unfold_locales
  show "P s ls s'"
    if "threads_run s ls s'" "\<And>s. P s [] s"
      "\<And>s ls s' i a s''. threads_run s ls s' \<Longrightarrow> P s ls s' \<Longrightarrow> thread_step s' i a s'' \<Longrightarrow> P s (ls @ [(i, a)]) s''"
    for P s ls s'
    using that by (induction rule: threads_run.induct) auto
qed (auto intro: threads_run.intros)

lemma goto_sel [simp]:
  "sh_heap (goto i c s) = sh_heap s" "sh_owned (goto i c s) = sh_owned s" "sh_unwind (goto i c s) = sh_unwind s"
  "sh_fd (goto i c s) = sh_fd s" "sh_dirty_mutex (goto i c s) = sh_dirty_mutex s"
  "sh_is_dirty (goto i c s) = sh_is_dirty s" "sh_now (goto i c s) = sh_now s" "sh_log (goto i c s) = sh_log s"
  "sh_code (goto i c s) = (sh_code s)(i := c)"
  by (simp_all add: goto_def)

section \<open>Lock discipline\<close>

text \<open>
  The code of a call is typed by the mutexes its thread holds at that point (of \<open>unwind\<close>, of the file
  descriptor, of the flag): each is taken when free and given back, only \<open>m\<close> lines are written without the first,
  and a thread that returns to the program holds none that it would still have to release. The flag's mutex is
  not counted any more once \<open>Check_Dirty\<close> has returned without releasing it.
\<close>

definition mapping_event :: "event \<Rightarrow> bool" where
  "mapping_event e \<longleftrightarrow> (\<exists>a n. e = Loaded a n)"

fun typed :: "bool \<Rightarrow> bool \<Rightarrow> bool \<Rightarrow> code \<Rightarrow> bool" where
  "typed u f d [] \<longleftrightarrow> \<not> u \<and> \<not> f \<and> \<not> d"
| "typed u f d (x # c) \<longleftrightarrow>
     (case x of
        Trylock_Update \<Rightarrow> \<not> u \<and> \<not> f \<and> \<not> d \<and> typed u f d c
      | Check_Dirty \<Rightarrow> \<not> u \<and> \<not> f \<and> d \<and> typed u f False c
      | Trylock_Set b \<Rightarrow> \<not> u \<and> \<not> f \<and> \<not> d \<and> typed u f d c
      | Store_Dirty b \<Rightarrow> \<not> u \<and> \<not> f \<and> d \<and> typed u f d c
      | Unlock_Dirty \<Rightarrow> \<not> u \<and> \<not> f \<and> d \<and> typed u f False c
      | Lock_Unwind \<Rightarrow> \<not> u \<and> \<not> f \<and> \<not> d \<and> typed True f d c
      | Measure b p \<Rightarrow> u \<and> \<not> f \<and> \<not> d \<and> typed u f d c
      | Unlock_Unwind \<Rightarrow> u \<and> \<not> f \<and> \<not> d \<and> typed False f d c
      | Lock_Fd \<Rightarrow> \<not> f \<and> typed u True d c
      | Stamp e \<Rightarrow> f \<and> u = (\<not> mapping_event e) \<and> typed u f d c
      | Put t e \<Rightarrow> f \<and> u = (\<not> mapping_event e) \<and> typed u f d c
      | Unlock_Fd \<Rightarrow> f \<and> typed u False d c
      | Give_Back p \<Rightarrow> \<not> u \<and> \<not> f \<and> \<not> d \<and> c = []
      | Libc_Free p \<Rightarrow> \<not> u \<and> \<not> f \<and> \<not> d \<and> c = [])"

lemma mapping_event_simps [simp]:
  "mapping_event (Loaded a n)" "\<not> mapping_event (Allocated p u)" "\<not> mapping_event (Released p u)"
  "\<not> mapping_event (Framed pc)" "\<not> mapping_event (record_event b p u)"
  by (simp_all add: mapping_event_def record_event_def)

lemma typed_fprintf [simp]:
  "typed u f d (fprintf_code e @ c) \<longleftrightarrow> \<not> f \<and> u = (\<not> mapping_event e) \<and> typed u False d c"
  by (auto simp: fprintf_code_def)

lemma typed_frames [simp]:
  "typed True False False (frames_code pcs @ c) \<longleftrightarrow> typed True False False c"
  by (induction pcs) (simp_all add: frames_code_def)

lemma typed_modules [simp]:
  "typed False False d (concat (map (\<lambda>(a, n). fprintf_code (Loaded a n)) ms) @ c) \<longleftrightarrow> typed False False d c"
  by (induction ms) auto

lemma typed_calls:
  "typed False False False (alloc_code b p trace)" "typed False False False (free_code p trace)"
  by (simp_all add: alloc_code_def free_code_def unwind_code_def)

definition deals_with_flag :: "code \<Rightarrow> bool" where
  "deals_with_flag c \<longleftrightarrow> Check_Dirty \<in> set c \<or> Unlock_Dirty \<in> set c"

lemma typed_flag: "typed u f d c \<Longrightarrow> d \<Longrightarrow> deals_with_flag c"
  by (induction c arbitrary: u f d) (auto simp: deals_with_flag_def split: instr.splits)

definition locks_typed :: "shared \<Rightarrow> bool" where
  "locks_typed s \<longleftrightarrow> (\<forall>i. \<exists>d. typed (sh_unwind s = Some i) (sh_fd s = Some i) d (sh_code s i) \<and>
     (d \<longrightarrow> sh_dirty_mutex s = Some i))"

lemma typed_next:
  assumes "locks_typed s" "next_step i ms s = Some s'"
  shows "locks_typed s'"
proof -
  obtain x c where x: "sh_code s i = x # c" using assms(2) by (auto simp: next_step_def split: list.splits)
  have all: "\<exists>d. typed (sh_unwind s = Some j) (sh_fd s = Some j) d (sh_code s j) \<and>
     (d \<longrightarrow> sh_dirty_mutex s = Some j)" for j using assms(1) by (simp add: locks_typed_def)
  obtain d where d: "typed (sh_unwind s = Some i) (sh_fd s = Some i) d (x # c)" "d \<longrightarrow> sh_dirty_mutex s = Some i"
    using all [of i] x by auto
  have "\<exists>d. typed (sh_unwind s' = Some j) (sh_fd s' = Some j) d (sh_code s' j) \<and>
     (d \<longrightarrow> sh_dirty_mutex s' = Some j)" for j
  proof (cases "j = i")
    case True
    then show ?thesis using assms(2) d x
      by (cases x) (auto simp: next_step_def split: if_splits)
  next
    case False
    then show ?thesis using assms(2) d x all [of j]
      by (cases x) (auto simp: next_step_def split: if_splits)
  qed
  then show ?thesis by (simp add: locks_typed_def)
qed


lemma locks_typed_call:
  assumes "locks_typed s" "sh_code s i = []" "typed False False False c"
    and "sh_unwind s' = sh_unwind s" "sh_fd s' = sh_fd s" "sh_dirty_mutex s' = sh_dirty_mutex s"
    and "sh_code s' = (sh_code s)(i := c)"
  shows "locks_typed s'"
proof -
  have "sh_unwind s \<noteq> Some i" "sh_fd s \<noteq> Some i"
    using assms(1,2) by (auto simp: locks_typed_def dest: spec [of _ i])
  then show ?thesis using assms by (auto simp: locks_typed_def intro: exI [of _ False])
qed

lemma typed_step:
  assumes "locks_typed s" "thread_step s i a s'"
  shows "locks_typed s'"
  using assms(2)
proof cases
  case (goes ms)
  then show ?thesis using typed_next [OF assms(1)] by blast
next
  case (passes t)
  then show ?thesis using assms(1) by (simp add: locks_typed_def)
qed (rule locks_typed_call [OF assms(1)]; simp add: typed_calls)+

lemma typed_run: "threads_run s ls s' \<Longrightarrow> locks_typed s \<Longrightarrow> locks_typed s'"
  using threads.invariant typed_step by blast

lemma typed_start: "locks_typed threads_start"
  by (auto simp: locks_typed_def threads_start_def)

section \<open>Who works on which block\<close>

text \<open>
  What a call still has to do for the block it is about: record and hand over an allocation, or record a
  release and pass it on to the C library. The null pointer is nobody's.
\<close>

datatype task = No_Duty | Record_Alloc u64 | Hand_Over u64 | Record_Free u64 | Take_Back u64

fun event_record :: "event \<Rightarrow> (bool \<times> u64) option" where
  "event_record (Allocated p u) = (if p = 0 then None else Some (True, p))"
| "event_record (Released p u) = (if p = 0 then None else Some (False, p))"
| "event_record _ = None"

fun record_of :: "instr \<Rightarrow> (bool \<times> u64) option" where
  "record_of (Measure b p) = (if p = 0 then None else Some (b, p))"
| "record_of (Stamp e) = event_record e"
| "record_of (Put t e) = event_record e"
| "record_of _ = None"

fun passes_on :: "instr \<Rightarrow> task option" where
  "passes_on (Give_Back p) = (if p = 0 then None else Some (Hand_Over p))"
| "passes_on (Libc_Free p) = (if p = 0 then None else Some (Take_Back p))"
| "passes_on _ = None"

fun duty :: "code \<Rightarrow> task" where
  "duty [] = No_Duty"
| "duty (x # c) =
     (case record_of x of
        Some (b, p) \<Rightarrow> if b then Record_Alloc p else Record_Free p
      | None \<Rightarrow> (case passes_on x of Some d \<Rightarrow> d | None \<Rightarrow> duty c))"

fun in_order :: "code \<Rightarrow> bool" where
  "in_order [] \<longleftrightarrow> True"
| "in_order (x # c) \<longleftrightarrow> in_order c \<and>
     (case record_of x of
        Some (b, p) \<Rightarrow> duty c = (if b then Hand_Over p else Take_Back p)
      | None \<Rightarrow> passes_on x \<noteq> None \<longrightarrow> c = [])"

fun subject :: "task \<Rightarrow> u64 option" where
  "subject No_Duty = None"
| "subject (Record_Alloc p) = Some p"
| "subject (Hand_Over p) = Some p"
| "subject (Record_Free p) = Some p"
| "subject (Take_Back p) = Some p"

lemma record_of_event [simp]: "event_record (record_event b p u) = (if p = 0 then None else Some (b, p))"
  by (simp add: record_event_def)

lemma task_fprintf [simp]:
  "duty (fprintf_code e @ c) = (case event_record e of Some (b, p) \<Rightarrow> if b then Record_Alloc p else Record_Free p | None \<Rightarrow> duty c)"
  by (auto simp: fprintf_code_def split: option.split)

lemma in_order_fprintf [simp]:
  "in_order (fprintf_code e @ c) \<longleftrightarrow> in_order c \<and>
     (case event_record e of Some (b, p) \<Rightarrow> duty c = (if b then Hand_Over p else Take_Back p) | None \<Rightarrow> True)"
  by (auto simp: fprintf_code_def split: option.splits)

lemma task_frames [simp]: "duty (frames_code pcs @ c) = duty c" "in_order (frames_code pcs @ c) \<longleftrightarrow> in_order c"
  by (induction pcs) (simp_all add: frames_code_def)

lemma task_modules [simp]:
  "duty (concat (map (\<lambda>(a, n). fprintf_code (Loaded a n)) ms) @ c) = duty c"
  "in_order (concat (map (\<lambda>(a, n). fprintf_code (Loaded a n)) ms) @ c) \<longleftrightarrow> in_order c"
  by (induction ms) auto

lemma duty_of_calls [simp]:
  "duty (alloc_code b p trace) = (if p = 0 then No_Duty else if b then Record_Alloc p else Record_Free p)"
  "duty (free_code p trace) = (if p = 0 then No_Duty else Record_Free p)"
  "in_order (alloc_code True p trace)" "in_order (alloc_code b 0 trace)" "in_order (free_code p trace)"
  by (simp_all add: alloc_code_def free_code_def unwind_code_def)

text \<open>What a step of a call changes of the blocks and of the records in the log.\<close>

definition recorded_in :: "entry list \<Rightarrow> (bool \<times> u64) list" where
  "recorded_in log = List.map_filter (\<lambda>(i, t, e). event_record e) log"

lemma recorded_in_simps [simp]:
  "recorded_in [] = []"
  "recorded_in (log @ log') = recorded_in log @ recorded_in log'"
  "recorded_in [(i, t, e)] = (case event_record e of None \<Rightarrow> [] | Some r \<Rightarrow> [r])"
  by (simp_all add: recorded_in_def List.map_filter_def split: option.split)

datatype change = Nothing | Records bool u64 | Owns u64 | Gone u64

fun changed :: "change \<Rightarrow> nat \<Rightarrow> shared \<Rightarrow> shared \<Rightarrow> bool" where
  "changed Nothing i s s' \<longleftrightarrow> duty (sh_code s' i) = duty (sh_code s i) \<and> sh_heap s' = sh_heap s \<and>
     sh_owned s' = sh_owned s \<and> recorded_in (sh_log s') = recorded_in (sh_log s)"
| "changed (Records b p) i s s' \<longleftrightarrow> duty (sh_code s i) = (if b then Record_Alloc p else Record_Free p) \<and>
     duty (sh_code s' i) = (if b then Hand_Over p else Take_Back p) \<and> sh_heap s' = sh_heap s \<and>
     sh_owned s' = sh_owned s \<and> recorded_in (sh_log s') = recorded_in (sh_log s) @ [(b, p)]"
| "changed (Owns p) i s s' \<longleftrightarrow> duty (sh_code s i) = Hand_Over p \<and> duty (sh_code s' i) = No_Duty \<and>
     sh_heap s' = sh_heap s \<and> sh_owned s' = insert p (sh_owned s) \<and> recorded_in (sh_log s') = recorded_in (sh_log s)"
| "changed (Gone p) i s s' \<longleftrightarrow> duty (sh_code s i) = Take_Back p \<and> duty (sh_code s' i) = No_Duty \<and>
     sh_heap s' = (sh_heap s)(p := None) \<and> sh_owned s' = sh_owned s \<and> recorded_in (sh_log s') = recorded_in (sh_log s)"


fun change_of :: "instr \<Rightarrow> change" where
  "change_of (Put t e) = (case event_record e of Some (b, p) \<Rightarrow> Records b p | None \<Rightarrow> Nothing)"
| "change_of (Give_Back p) = (if p = 0 then Nothing else Owns p)"
| "change_of (Libc_Free p) = (if p = 0 then Nothing else Gone p)"
| "change_of x = Nothing"

lemma next_changes:
  assumes "next_step i ms s = Some s'" "in_order (sh_code s i)"
  shows "\<exists>ch. changed ch i s s'" "in_order (sh_code s' i)" "j \<noteq> i \<Longrightarrow> sh_code s' j = sh_code s j"
proof -
  obtain x c where x: "sh_code s i = x # c" using assms(1) by (auto simp: next_step_def split: list.splits)
  have "changed (change_of x) i s s'"
    using assms x by (cases x) (auto simp: next_step_def usable_size_def split: if_splits option.splits)
  then show "\<exists>ch. changed ch i s s'" ..
  show "in_order (sh_code s' i)"
    using assms x by (cases x) (auto simp: next_step_def usable_size_def split: if_splits option.splits)
  show "sh_code s' j = sh_code s j" if "j \<noteq> i"
    using that assms(1) x by (cases x) (auto simp: next_step_def split: if_splits)
qed


text \<open>
  Each block that is allocated belongs to the program, or to the one thread whose call is about it.
\<close>

definition owner_at :: "bool \<Rightarrow> bool \<Rightarrow> (nat \<Rightarrow> u64 option) \<Rightarrow> u64 \<Rightarrow> bool" where
  "owner_at live own subj p \<longleftrightarrow> (live \<longleftrightarrow> own \<or> (\<exists>i. subj i = Some p)) \<and>
     (own \<longrightarrow> (\<forall>i. subj i \<noteq> Some p)) \<and> (\<forall>i j. subj i = Some p \<longrightarrow> subj j = Some p \<longrightarrow> i = j)"

definition owners :: "(u64 \<Rightarrow> u64 option) \<Rightarrow> u64 set \<Rightarrow> (nat \<Rightarrow> u64 option) \<Rightarrow> bool" where
  "owners heap owned subj \<longleftrightarrow> heap 0 = None \<and> (\<forall>p. owner_at (heap p \<noteq> None) (p \<in> owned) subj p)"

definition subjects :: "shared \<Rightarrow> nat \<Rightarrow> u64 option" where
  "subjects s i = subject (duty (sh_code s i))"

definition blocks_ok :: "shared \<Rightarrow> bool" where
  "blocks_ok s \<longleftrightarrow> (\<forall>i. in_order (sh_code s i)) \<and> owners (sh_heap s) (sh_owned s) (subjects s)"

text \<open>A change of one block's owner leaves the other blocks as they are.\<close>

lemma owners_update:
  assumes "owners heap owned subj" "subj i = None \<or> subj i = Some p" "v = None \<or> v = Some p" "heap' 0 = None"
    and "\<And>q. q \<noteq> p \<Longrightarrow> heap' q = heap q" "\<And>q. q \<noteq> p \<Longrightarrow> q \<in> owned' \<longleftrightarrow> q \<in> owned"
    and "owner_at (heap' p \<noteq> None) (p \<in> owned') (subj(i := v)) p"
  shows "owners heap' owned' (subj(i := v))"
proof -
  have at: "owner_at (heap q \<noteq> None) (q \<in> owned) subj q" for q using assms(1) by (simp add: owners_def)
  have "owner_at (heap' q \<noteq> None) (q \<in> owned') (subj(i := v)) q" for q
  proof (cases "q = p")
    case False
    then have "(subj(i := v)) j = Some q \<longleftrightarrow> subj j = Some q" for j using assms(2,3) by auto
    then show ?thesis using at [of q] assms(5,6) [OF False] by (simp add: owner_at_def del: fun_upd_apply)
  qed (use assms(7) in simp)
  then show ?thesis using assms(4) by (simp add: owners_def)
qed

lemma owners_begin:
  assumes "owners heap owned subj" "subj i = None" "p \<noteq> 0" "heap p = None"
  shows "owners (heap(p \<mapsto> u)) owned (subj(i := Some p))"
proof (rule owners_update [OF assms(1)])
  have "owner_at False (p \<in> owned) subj p" using assms(1,4) by (auto simp: owners_def dest: spec [of _ p])
  then show "owner_at ((heap(p \<mapsto> u)) p \<noteq> None) (p \<in> owned) (subj(i := Some p)) p"
    by (auto simp: owner_at_def)
qed (use assms in \<open>auto simp: owners_def\<close>)

lemma owners_take:
  assumes "owners heap owned subj" "subj i = None" "p \<in> owned"
  shows "owners heap (owned - {p}) (subj(i := Some p))"
proof (rule owners_update [OF assms(1)])
  have "owner_at (heap p \<noteq> None) True subj p" using assms(1,3) by (auto simp: owners_def dest: spec [of _ p])
  then show "owner_at (heap p \<noteq> None) (p \<in> owned - {p}) (subj(i := Some p)) p"
    by (auto simp: owner_at_def)
qed (use assms in \<open>auto simp: owners_def\<close>)

lemma owners_drop:
  assumes "owners heap owned subj" "p \<in> owned"
  shows "owners (heap(p := None)) (owned - {p}) subj"
proof -
  have at: "owner_at (heap q \<noteq> None) (q \<in> owned) subj q" for q using assms(1) by (simp add: owners_def)
  have "owner_at ((heap(p := None)) q \<noteq> None) (q \<in> owned - {p}) subj q" for q
    using at [of q] assms(2) by (cases "q = p") (auto simp: owner_at_def)
  then show ?thesis using assms(1) by (auto simp: owners_def)
qed

lemma owners_done:
  assumes "owners heap owned subj" "subj i = Some p"
  shows "owners heap (insert p owned) (subj(i := None))" "owners (heap(p := None)) owned (subj(i := None))"
proof -
  have at: "owner_at (heap p \<noteq> None) (p \<in> owned) subj p" using assms(1) by (simp add: owners_def)
  then have only: "heap p \<noteq> None" "p \<notin> owned" "\<And>j. j \<noteq> i \<Longrightarrow> subj j \<noteq> Some p"
    using assms(2) by (auto simp: owner_at_def)
  then have other: "(subj(i := None)) j \<noteq> Some p" for j by simp
  show "owners heap (insert p owned) (subj(i := None))"
  proof (rule owners_update [OF assms(1)])
    show "owner_at (heap p \<noteq> None) (p \<in> insert p owned) (subj(i := None)) p"
      using only other by (simp add: owner_at_def del: fun_upd_apply)
  qed (use assms in \<open>auto simp: owners_def\<close>)
  show "owners (heap(p := None)) owned (subj(i := None))"
  proof (rule owners_update [OF assms(1)])
    show "owner_at ((heap(p := None)) p \<noteq> None) (p \<in> owned) (subj(i := None)) p"
      using only other by (simp add: owner_at_def del: fun_upd_apply) simp
  qed (use assms in \<open>auto simp: owners_def\<close>)
qed

lemmas owners_give = owners_done(1)
lemmas owners_gone = owners_done(2)

lemma owned_block:
  assumes "owners heap owned subj"
  shows "p \<in> owned \<Longrightarrow> heap p \<noteq> None \<and> p \<noteq> 0" "subj i = Some p \<Longrightarrow> heap p \<noteq> None \<and> p \<noteq> 0"
proof -
  have at: "heap 0 = None" "owner_at (heap p \<noteq> None) (p \<in> owned) subj p" using assms by (auto simp: owners_def)
  then show "p \<in> owned \<Longrightarrow> heap p \<noteq> None \<and> p \<noteq> 0" "subj i = Some p \<Longrightarrow> heap p \<noteq> None \<and> p \<noteq> 0"
    unfolding owner_at_def by (metis, metis)
qed

lemma subjects_upd: "sh_code s' = (sh_code s)(i := c) \<Longrightarrow> subjects s' = (subjects s)(i := subject (duty c))"
  by (auto simp: subjects_def)

lemma subjects_idle: "sh_code s i = [] \<Longrightarrow> subjects s i = None"
  by (simp add: subjects_def)

lemma blocks_next:
  assumes "blocks_ok s" "next_step i ms s = Some s'"
  shows "blocks_ok s'"
proof -
  have order: "in_order (sh_code s j)" for j using assms(1) by (simp add: blocks_ok_def)
  note next_changes [OF assms(2) order]
  then obtain ch where ch: "changed ch i s s'" "in_order (sh_code s' i)" "\<And>j. j \<noteq> i \<Longrightarrow> sh_code s' j = sh_code s j"
    by blast
  have "in_order (sh_code s' j)" for j using ch(2,3) order by (cases "j = i") auto
  moreover have "owners (sh_heap s') (sh_owned s') (subjects s')"
  proof -
    have own: "owners (sh_heap s) (sh_owned s) (subjects s)" using assms(1) by (simp add: blocks_ok_def)
    have subj: "subjects s' = (subjects s)(i := subject (duty (sh_code s' i)))"
      using ch(3) by (auto simp: subjects_def)
    have same: "subjects s' = subjects s" if "subject (duty (sh_code s' i)) = subjects s i"
      using subj that by simp
    show ?thesis
    proof (cases ch)
      case Nothing
      then show ?thesis using own same ch(1) by (simp add: subjects_def)
    next
      case (Records b p)
      then show ?thesis using own same ch(1) by (simp add: subjects_def)
    next
      case (Owns p)
      then have "subjects s i = Some p" using ch(1) by (simp add: subjects_def)
      from owners_give [OF own this] show ?thesis using ch(1) Owns by (simp add: subj)
    next
      case (Gone p)
      then have "subjects s i = Some p" using ch(1) by (simp add: subjects_def)
      from owners_gone [OF own this] show ?thesis using ch(1) Gone by (simp add: subj)
    qed
  qed
  ultimately show ?thesis by (simp add: blocks_ok_def)
qed

lemma blocks_step:
  assumes "blocks_ok s" "thread_step s i a s'"
  shows "blocks_ok s'"
proof -
  have order: "in_order (sh_code s j)" for j using assms(1) by (simp add: blocks_ok_def)
  have own: "owners (sh_heap s) (sh_owned s) (subjects s)" using assms(1) by (simp add: blocks_ok_def)
  have no_null: "0 \<notin> sh_owned s" using owned_block(1) [OF own] by blast
  have idle: "(subjects s)(i := None) = subjects s" if "sh_code s i = []"
    using that by (simp add: subjects_idle fun_upd_idem)
  have upd: "subjects (goto i c t) = (subjects s)(i := subject (duty c))" if "sh_code t = sh_code s" for c t
    using that by (auto simp: subjects_def)
  show ?thesis
    using assms(2)
  proof cases
    case (goes ms)
    then show ?thesis using blocks_next [OF assms(1)] by blast
  next
    case (allocates p u trace)
    then show ?thesis using owners_begin [OF own subjects_idle] order by (auto simp: blocks_ok_def upd)
  next
    case (alloc_fails trace)
    then show ?thesis using own order idle by (auto simp: blocks_ok_def upd)
  next
    case (frees p trace)
    then show ?thesis using owners_take [OF own subjects_idle] own order idle no_null
      by (cases "p = 0") (auto simp: blocks_ok_def upd)
  next
    case (moves p q u trace)
    then have "owners ((sh_heap s)(p := None, q \<mapsto> u)) (sh_owned s - {p}) ((subjects s)(i := Some q))"
      using owners_drop [OF own] subjects_idle by (intro owners_begin) auto
    then show ?thesis using moves order by (auto simp: blocks_ok_def upd)
  next
    case (reallocs_to_zero p trace)
    then show ?thesis using owners_drop [OF own] order idle by (auto simp: blocks_ok_def upd)
  next
    case loads
    then show ?thesis using own order idle by (auto simp: blocks_ok_def upd)
  next
    case (passes t)
    then have "subjects s' = subjects s" by (simp add: subjects_def fun_eq_iff)
    then show ?thesis using passes own order by (simp add: blocks_ok_def)
  qed
qed

lemma blocks_run: "threads_run s ls s' \<Longrightarrow> blocks_ok s \<Longrightarrow> blocks_ok s'"
  using threads.invariant blocks_step by blast

lemma blocks_start: "blocks_ok threads_start"
  by (simp add: blocks_ok_def owners_def owner_at_def subjects_def threads_start_def)

end
