(* ===== verification/Threads_Log.thy ===== *)
theory Threads_Log
  imports Threads
begin

text \<open>
  The log that several threads write together: that it follows the heap, that each record in it is whole and
  by one thread, that its time stamps are in order, and that no call waits for ever.
\<close>

section \<open>The log and the heap\<close>

text \<open>
  Reading the records of a log: an address is allocated when it is not in use, and released when it is.
\<close>

fun replay :: "(bool \<times> u64) list \<Rightarrow> u64 set \<Rightarrow> u64 set option" where
  "replay [] A = Some A"
| "replay ((b, p) # rs) A =
     (if b \<longleftrightarrow> p \<in> A then None else replay rs (if b then insert p A else A - {p}))"

lemma replay_append: "replay (rs @ rs') A = (case replay rs A of None \<Rightarrow> None | Some B \<Rightarrow> replay rs' B)"
  by (induction rs A rule: replay.induct) auto

text \<open>The blocks whose allocation is in the log and whose release is not.\<close>

fun logged_task :: "task \<Rightarrow> u64 option" where
  "logged_task (Hand_Over p) = Some p"
| "logged_task (Record_Free p) = Some p"
| "logged_task _ = None"

definition logged_blocks :: "shared \<Rightarrow> u64 set" where
  "logged_blocks s = sh_owned s \<union> {p. \<exists>i. logged_task (duty (sh_code s i)) = Some p}"

definition log_follows :: "shared \<Rightarrow> bool" where
  "log_follows s \<longleftrightarrow> replay (recorded_in (sh_log s)) {} = Some (logged_blocks s)"

fun is_realloc :: "action \<Rightarrow> bool" where
  "is_realloc (Moves p q u trace) \<longleftrightarrow> True"
| "is_realloc (Reallocs_To_Zero p trace) \<longleftrightarrow> True"
| "is_realloc _ \<longleftrightarrow> False"

lemma logged_task_subject: "logged_task d = Some p \<Longrightarrow> subject d = Some p"
  by (cases d) auto


lemma logged_blocks_iff:
  "p \<in> logged_blocks s \<longleftrightarrow> p \<in> sh_owned s \<or> (\<exists>i. logged_task (duty (sh_code s i)) = Some p)"
  by (simp add: logged_blocks_def)

lemma task_unique:
  assumes "blocks_ok s" "subject (duty (sh_code s i)) = Some p" "logged_task (duty (sh_code s j)) = Some p"
  shows "j = i"
proof -
  have "owner_at (sh_heap s p \<noteq> None) (p \<in> sh_owned s) (subjects s) p"
    using assms(1) by (simp add: blocks_ok_def owners_def)
  then show ?thesis using assms(2) logged_task_subject [OF assms(3)] by (auto simp: owner_at_def subjects_def)
qed

lemma task_not_owned:
  assumes "blocks_ok s" "subject (duty (sh_code s i)) = Some p"
  shows "p \<notin> sh_owned s"
proof -
  have "owner_at (sh_heap s p \<noteq> None) (p \<in> sh_owned s) (subjects s) p"
    using assms(1) by (simp add: blocks_ok_def owners_def)
  then show ?thesis using assms(2) by (auto simp: owner_at_def subjects_def)
qed

lemma not_logged:
  assumes "blocks_ok s" "sh_heap s p = None"
  shows "p \<notin> logged_blocks s"
proof -
  have "owner_at (sh_heap s p \<noteq> None) (p \<in> sh_owned s) (subjects s) p"
    using assms(1) by (simp add: blocks_ok_def owners_def)
  then show ?thesis
    using assms(2) logged_task_subject by (fastforce simp: owner_at_def subjects_def logged_blocks_iff)
qed


text \<open>How the blocks in the log follow a change of the task of one thread.\<close>

definition others_logged :: "nat \<Rightarrow> shared \<Rightarrow> u64 set" where
  "others_logged i s = {p. \<exists>j. j \<noteq> i \<and> logged_task (duty (sh_code s j)) = Some p}"

lemma logged_blocks_split:
  "logged_blocks s = sh_owned s \<union> set_option (logged_task (duty (sh_code s i))) \<union> others_logged i s"
  by (auto simp: logged_blocks_def others_logged_def)

lemma others_logged_cong:
  "(\<And>j. j \<noteq> i \<Longrightarrow> sh_code s' j = sh_code s j) \<Longrightarrow> others_logged i s' = others_logged i s"
  by (auto simp: others_logged_def)

lemma subject_not_others:
  "blocks_ok s \<Longrightarrow> subject (duty (sh_code s i)) = Some p \<Longrightarrow> p \<notin> others_logged i s"
  using task_unique by (auto simp: others_logged_def)

lemma log_follows_next:
  assumes "blocks_ok s" "log_follows s" "next_step i ms s = Some s'"
  shows "log_follows s'"
proof -
  have "in_order (sh_code s i)" using assms(1) by (simp add: blocks_ok_def)
  note next_changes [OF assms(3) this]
  then obtain ch where ch: "changed ch i s s'" "\<And>j. j \<noteq> i \<Longrightarrow> sh_code s' j = sh_code s j" by blast
  note split = logged_blocks_split [of _ i]
  note alone = subject_not_others [OF assms(1), of i] task_not_owned [OF assms(1), of i]
  note same = others_logged_cong [of i s' s, OF ch(2)]
  have rep: "replay (recorded_in (sh_log s)) {} = Some (logged_blocks s)"
    using assms(2) by (simp add: log_follows_def)
  show ?thesis
  proof (cases ch)
    case Nothing
    then show ?thesis using rep ch(1) by (simp add: log_follows_def split same)
  next
    case (Records b p)
    show ?thesis
    proof (cases b)
      case True
      then have "p \<notin> logged_blocks s" "logged_blocks s' = insert p (logged_blocks s)"
        using Records ch(1) alone [of p] by (auto simp: split same)
      then show ?thesis using rep ch(1) Records True by (simp add: log_follows_def replay_append)
    next
      case False
      then have "p \<in> logged_blocks s" "logged_blocks s' = logged_blocks s - {p}"
        using Records ch(1) alone [of p] by (auto simp: split same)
      then show ?thesis using rep ch(1) Records False by (simp add: log_follows_def replay_append)
    qed
  next
    case (Owns p)
    then have "logged_blocks s' = logged_blocks s" using ch(1) by (auto simp: split same)
    then show ?thesis using rep ch(1) Owns by (simp add: log_follows_def)
  next
    case (Gone p)
    then have "logged_blocks s' = logged_blocks s" using ch(1) by (auto simp: split same)
    then show ?thesis using rep ch(1) Gone by (simp add: log_follows_def)
  qed
qed

lemma log_follows_begin:
  assumes "log_follows s" "sh_log s' = sh_log s" "sh_code s i = []" "sh_code s' = (sh_code s)(i := c)"
    and "sh_owned s' \<union> set_option (logged_task (duty c)) = sh_owned s"
  shows "log_follows s'"
proof -
  have "others_logged i s' = others_logged i s" using assms(4) by (intro others_logged_cong) simp
  then have "logged_blocks s' = logged_blocks s"
    using assms(3-5) unfolding logged_blocks_split [of _ i] by simp
  then show ?thesis using assms(1,2) by (simp add: log_follows_def)
qed

lemma log_follows_step:
  assumes "blocks_ok s" "log_follows s" "thread_step s i a s'" "\<not> is_realloc a"
  shows "log_follows s'"
proof -
  note start = log_follows_begin [OF assms(2)]
  show ?thesis
    using assms(3)
  proof cases
    case (goes ms)
    then show ?thesis using log_follows_next [OF assms(1,2)] by blast
  next
    case (allocates p u trace)
    then show ?thesis by (intro start [of s' i "alloc_code True p trace"]) auto
  next
    case (alloc_fails trace)
    then show ?thesis by (intro start [of s' i "alloc_code True 0 trace"]) auto
  next
    case (frees p trace)
    have "0 \<notin> sh_owned s"
      using owned_block(1) [of "sh_heap s" "sh_owned s" "subjects s" 0] assms(1) by (auto simp: blocks_ok_def)
    then show ?thesis using frees by (intro start [of s' i "free_code p trace"]) auto
  next
    case loads
    then show ?thesis by (intro start [of s' i "[Trylock_Set True]"]) auto
  next
    case (passes t)
    then show ?thesis using assms(2) by (simp add: log_follows_def logged_blocks_def)
  qed (use assms(4) in simp_all)
qed

lemma log_follows_start: "log_follows threads_start"
  by (simp add: log_follows_def logged_blocks_def threads_start_def)

lemma log_follows_run:
  "threads_run s ls s' \<Longrightarrow> blocks_ok s \<Longrightarrow> log_follows s \<Longrightarrow> list_all (\<lambda>l. \<not> is_realloc (snd l)) ls \<Longrightarrow>
     log_follows s'"
proof (induction rule: threads_run.induct)
  case (run_snoc s ls s' i a s'')
  then show ?case using log_follows_step [of s' i a s''] blocks_run [of s ls s'] by simp
qed simp


section \<open>Whole records\<close>

text \<open>
  The lines a thread still writes before it releases \<open>unwind_mutex\<close>, and the records its call has not begun.
\<close>

fun rest_lines :: "code \<Rightarrow> event list" where
  "rest_lines [] = []"
| "rest_lines (x # c) =
     (case x of
        Lock_Unwind \<Rightarrow> []
      | Measure b p \<Rightarrow> []
      | Unlock_Unwind \<Rightarrow> []
      | Stamp e \<Rightarrow> if mapping_event e then rest_lines c else e # rest_lines c
      | Put t e \<Rightarrow> if mapping_event e then rest_lines c else e # rest_lines c
      | _ \<Rightarrow> rest_lines c)"

fun pending :: "code \<Rightarrow> (bool \<times> u64 \<times> event list) list" where
  "pending [] = []"
| "pending (x # c) = (case x of Measure b p \<Rightarrow> (b, p, rest_lines c) # pending c | _ \<Rightarrow> pending c)"

fun measured :: "code \<Rightarrow> bool" where
  "measured [] \<longleftrightarrow> True"
| "measured (x # c) \<longleftrightarrow> measured c \<and> (x = Lock_Unwind \<longrightarrow> rest_lines c = [])"

lemma rest_fprintf [simp]:
  "rest_lines (fprintf_code e @ c) = (if mapping_event e then rest_lines c else e # rest_lines c)"
  "pending (fprintf_code e @ c) = pending c" "measured (fprintf_code e @ c) \<longleftrightarrow> measured c"
  by (simp_all add: fprintf_code_def)

lemma rest_frames [simp]:
  "rest_lines (frames_code pcs @ c) = map Framed pcs @ rest_lines c"
  "pending (frames_code pcs @ c) = pending c" "measured (frames_code pcs @ c) \<longleftrightarrow> measured c"
  by (induction pcs) (simp_all add: frames_code_def)

lemma rest_modules [simp]:
  "rest_lines (concat (map (\<lambda>(a, n). fprintf_code (Loaded a n)) ms) @ c) = rest_lines c"
  "pending (concat (map (\<lambda>(a, n). fprintf_code (Loaded a n)) ms) @ c) = pending c"
  "measured (concat (map (\<lambda>(a, n). fprintf_code (Loaded a n)) ms) @ c) \<longleftrightarrow> measured c"
  by (induction ms) auto

lemma rest_calls [simp]:
  "pending (alloc_code b p trace) = [(b, p, map Framed (frames_in trace))]" "measured (alloc_code b p trace)"
  "pending (free_code p trace) = (if p = 0 then [] else [(False, p, map Framed (frames_in trace))])"
  "measured (free_code p trace)"
  by (simp_all add: alloc_code_def free_code_def unwind_code_def)

lemma typed_rest: "typed False f d c \<Longrightarrow> rest_lines c = []"
  by (induction c arbitrary: f d) (auto split: instr.splits)

text \<open>A record: its thread, its kind, the pointer, the size, and the lines of its frames.\<close>

type_synonym trace_record = "nat \<times> bool \<times> u64 \<times> u64 \<times> event list"

fun record_lines :: "trace_record \<Rightarrow> (nat \<times> event) list" where
  "record_lines (i, b, p, u, es) = (i, record_event b p u) # map (Pair i) es"

definition lines_written :: "entry list \<Rightarrow> (nat \<times> event) list" where
  "lines_written log = map (\<lambda>(i, t, e). (i, e)) (filter (\<lambda>(i, t, e). \<not> mapping_event e) log)"

definition unfinished :: "shared \<Rightarrow> (nat \<times> event) list" where
  "unfinished s = (case sh_unwind s of None \<Rightarrow> [] | Some i \<Rightarrow> map (Pair i) (rest_lines (sh_code s i)))"

definition begun_by :: "nat \<Rightarrow> trace_record list \<Rightarrow> (bool \<times> u64 \<times> event list) list" where
  "begun_by i rs = map (\<lambda>(j, b, p, u, es). (b, p, es)) (filter (\<lambda>r. fst r = i) rs)"

fun action_records :: "action \<Rightarrow> (bool \<times> u64 \<times> event list) list" where
  "action_records (Allocates p u trace) = [(True, p, map Framed (frames_in trace))]"
| "action_records (Alloc_Fails trace) = [(True, 0, map Framed (frames_in trace))]"
| "action_records (Frees p trace) = (if p = 0 then [] else [(False, p, map Framed (frames_in trace))])"
| "action_records (Moves p q u trace) = [(True, q, map Framed (frames_in trace))]"
| "action_records (Reallocs_To_Zero p trace) = [(False, 0, map Framed (frames_in trace))]"
| "action_records _ = []"

definition calls_by :: "nat \<Rightarrow> (nat \<times> action) list \<Rightarrow> (bool \<times> u64 \<times> event list) list" where
  "calls_by i ls = concat (map (\<lambda>(j, a). if j = i then action_records a else []) ls)"

definition records_are :: "trace_record list \<Rightarrow> (nat \<times> action) list \<Rightarrow> shared \<Rightarrow> bool" where
  "records_are rs ls s \<longleftrightarrow> lines_written (sh_log s) @ unfinished s = concat (map record_lines rs) \<and>
     (\<forall>i. calls_by i ls = begun_by i rs @ pending (sh_code s i) \<and> measured (sh_code s i))"

lemma lines_written_snoc [simp]:
  "lines_written (log @ [(i, t, e)]) = lines_written log @ (if mapping_event e then [] else [(i, e)])"
  by (simp add: lines_written_def)

lemma begun_by_snoc [simp]:
  "begun_by i (rs @ [(j, b, p, u, es)]) = begun_by i rs @ (if j = i then [(b, p, es)] else [])"
  by (simp add: begun_by_def)

lemma calls_by_snoc [simp]: "calls_by i (ls @ [(j, a)]) = calls_by i ls @ (if j = i then action_records a else [])"
  by (simp add: calls_by_def)

lemma records_next:
  assumes "locks_typed s" "records_are rs ls s" "next_step i ms s = Some s'"
  shows "\<exists>rs'. records_are rs' (ls @ [(i, Goes ms)]) s'"
proof -
  obtain x c where x: "sh_code s i = x # c" using assms(3) by (auto simp: next_step_def split: list.splits)
  obtain d where ty: "typed (sh_unwind s = Some i) (sh_fd s = Some i) d (x # c)"
    using assms(1) x by (metis locks_typed_def)
  have rs: "lines_written (sh_log s) @ unfinished s = concat (map record_lines rs)"
    "\<And>j. calls_by j ls = begun_by j rs @ pending (sh_code s j)" "\<And>j. measured (sh_code s j)"
    using assms(2) by (auto simp: records_are_def)
  have other: "sh_code s' j = sh_code s j" if "j \<noteq> i" for j
    using that assms(3) x by (cases x) (auto simp: next_step_def split: if_splits)
  have mea: "measured (sh_code s' j)" for j
    using other [of j] rs(3) [of j] assms(3) x
    by (cases "j = i"; cases x) (auto simp: next_step_def split: if_splits)
  show ?thesis
  proof (cases "\<exists>b p. x = Measure b p")
    case True
    then obtain b p u where m: "x = Measure b p" "s' = goto i (fprintf_code (record_event b p u) @ c) s"
      using assms(3) x by (auto simp: next_step_def)
    have u: "sh_unwind s = Some i" using ty m(1) by simp
    have "records_are (rs @ [(i, b, p, u, rest_lines c)]) (ls @ [(i, Goes ms)]) s'"
      using rs(1,2) mea m u x by (auto simp: records_are_def unfinished_def)
    then show ?thesis ..
  next
    case False
    have lines: "lines_written (sh_log s') @ unfinished s' = lines_written (sh_log s) @ unfinished s"
    proof (cases "sh_unwind s = Some i")
      case True
      then show ?thesis using assms(3) ty x \<open>\<nexists>b p. x = Measure b p\<close>
        by (cases x) (auto simp: next_step_def unfinished_def typed_rest split: if_splits)
    next
      case False
      have "measured (x # c)" using rs(3) [of i] x by simp
      then show ?thesis using assms(3) ty x False \<open>\<nexists>b p. x = Measure b p\<close>
        by (cases x) (auto simp: next_step_def unfinished_def other split: if_splits option.splits)
    qed
    have "pending (sh_code s' j) = pending (sh_code s j)" for j
      using assms(3) x False by (cases "j = i"; cases x) (auto simp: next_step_def split: if_splits)
    then have "records_are rs (ls @ [(i, Goes ms)]) s'"
      using rs(1,2) lines mea by (simp add: records_are_def)
    then show ?thesis ..
  qed
qed

lemma records_begin:
  assumes "locks_typed s" "records_are rs ls s" "s' = goto i c t" "sh_code s i = []"
    and "sh_code t = sh_code s" "sh_log t = sh_log s" "sh_unwind t = sh_unwind s"
    and "pending c = action_records a" "measured c"
  shows "\<exists>rs'. records_are rs' (ls @ [(i, a)]) s'"
proof -
  have "sh_unwind s \<noteq> Some i" using assms(1,4) by (auto simp: locks_typed_def dest: spec [of _ i])
  then have "unfinished s' = unfinished s"
    using assms(3,5,7) by (auto simp: unfinished_def split: option.splits)
  moreover have "calls_by i ls = begun_by i rs" using assms(2,4) by (auto simp: records_are_def dest: spec [of _ i])
  ultimately have "records_are rs (ls @ [(i, a)]) s'" using assms by (auto simp: records_are_def)
  then show ?thesis ..
qed

lemma records_step:
  assumes "locks_typed s" "records_are rs ls s" "thread_step s i a s'"
  shows "\<exists>rs'. records_are rs' (ls @ [(i, a)]) s'"
  using assms(3)
proof cases
  case (goes ms)
  then show ?thesis using records_next [OF assms(1,2)] by blast
next
  case (passes t)
  then show ?thesis using assms(2) by (intro exI [of _ rs]) (simp add: records_are_def unfinished_def split: option.splits)
qed (erule (1) records_begin [OF assms(1,2)]; simp)+

lemma records_start: "records_are [] [] threads_start"
  by (simp add: records_are_def threads_start_def lines_written_def unfinished_def calls_by_def begun_by_def)

lemma records_run:
  assumes "threads_run threads_start ls s"
  shows "\<exists>rs. records_are rs ls s"
  using assms
proof (induction threads_start ls s rule: threads_run.induct)
  case run_nil
  then show ?case using records_start by blast
next
  case (run_snoc ls s' i a s'')
  then show ?case using records_step typed_run [OF _ typed_start] by metis
qed


section \<open>Time stamps\<close>

definition stamps :: "entry list \<Rightarrow> u64 list" where
  "stamps log = map (\<lambda>(i, t, e). t) log"

fun stamp_read :: "code \<Rightarrow> u64 option" where
  "stamp_read (Put t e # c) = Some t"
| "stamp_read _ = None"

fun unread :: "code \<Rightarrow> bool" where
  "unread [] \<longleftrightarrow> True"
| "unread (x # c) \<longleftrightarrow> (\<forall>t e. x \<noteq> Put t e) \<and> unread c"

definition stamps_ok :: "shared \<Rightarrow> bool" where
  "stamps_ok s \<longleftrightarrow> sorted (stamps (sh_log s)) \<and> (\<forall>t \<in> set (stamps (sh_log s)). t \<le> sh_now s) \<and>
     (\<forall>i. unread (tl (sh_code s i)) \<and>
       (\<forall>t. stamp_read (sh_code s i) = Some t \<longrightarrow> t \<le> sh_now s \<and> (\<forall>t' \<in> set (stamps (sh_log s)). t' \<le> t)))"

lemma unread_append [simp]: "unread (c @ c') \<longleftrightarrow> unread c \<and> unread c'"
  by (induction c) auto

lemma unread_parts [simp]:
  "unread (fprintf_code e)" "unread (concat (map (\<lambda>(a, n). fprintf_code (Loaded a n)) ms))"
  "unread (frames_code pcs)"
proof -
  show f: "unread (fprintf_code e)" for e by (simp add: fprintf_code_def)
  show "unread (concat (map (\<lambda>(a, n). fprintf_code (Loaded a n)) ms))" by (induction ms) (auto simp: f)
  show "unread (frames_code pcs)" by (induction pcs) (simp_all add: frames_code_def f)
qed

lemma unread_calls [simp]: "unread (alloc_code b p trace)" "unread (free_code p trace)"
  by (simp_all add: alloc_code_def free_code_def unwind_code_def)

lemma unread_tl: "unread c \<Longrightarrow> unread (tl c)" "unread c \<Longrightarrow> stamp_read c = None"
  by (cases c; cases "hd c"; auto)+

lemma stamp_read_parts [simp]:
  "stamp_read (fprintf_code e @ c) = None" "stamp_read (alloc_code b p trace) = None"
  "stamp_read (free_code p trace) = None"
  "stamp_read (concat (map (\<lambda>(a, n). fprintf_code (Loaded a n)) ms) @ Unlock_Dirty # c) = None"
proof -
  show f: "stamp_read (fprintf_code e @ c) = None" for e c by (simp add: fprintf_code_def)
  show "stamp_read (alloc_code b p trace) = None" "stamp_read (free_code p trace) = None"
    by (simp_all add: alloc_code_def free_code_def unwind_code_def)
  show "stamp_read (concat (map (\<lambda>(a, n). fprintf_code (Loaded a n)) ms) @ Unlock_Dirty # c) = None"
    by (cases ms) (auto simp: f)
qed

lemma stamps_snoc [simp]: "stamps (log @ [(i, t, e)]) = stamps log @ [t]"
  by (simp add: stamps_def)

lemma holder_unique:
  assumes "locks_typed s" "stamp_read (sh_code s i) = Some t"
  shows "sh_fd s = Some i"
  using assms by (cases "sh_code s i" rule: stamp_read.cases) (auto simp: locks_typed_def dest: spec [of _ i])

lemma stamps_next:
  assumes "locks_typed s" "stamps_ok s" "next_step i ms s = Some s'"
  shows "stamps_ok s'"
proof -
  obtain x c where x: "sh_code s i = x # c" using assms(3) by (auto simp: next_step_def split: list.splits)
  have ok: "sorted (stamps (sh_log s))" "\<And>t. t \<in> set (stamps (sh_log s)) \<Longrightarrow> t \<le> sh_now s"
    "\<And>j. unread (tl (sh_code s j))"
    "\<And>j t. stamp_read (sh_code s j) = Some t \<Longrightarrow> t \<le> sh_now s \<and> (\<forall>t' \<in> set (stamps (sh_log s)). t' \<le> t)"
    using assms(2) by (auto simp: stamps_ok_def)
  have other: "sh_code s' j = sh_code s j" if "j \<noteq> i" for j
    using that assms(3) x by (cases x) (auto simp: next_step_def split: if_splits)
  have c: "unread c" "stamp_read c = None" "unread (tl c)" using ok(3) [of i] x unread_tl by auto
  have now: "sh_now s' = sh_now s"
    using assms(3) x by (cases x) (auto simp: next_step_def split: if_splits)
  have un: "unread (tl (sh_code s' j))" for j
    using other [of j] ok(3) [of j] assms(3) x c
    by (cases "j = i"; cases x) (auto simp: next_step_def unread_tl split: if_splits)
  show ?thesis
  proof (cases "\<exists>t e. x = Put t e")
    case True
    then obtain t e where p: "x = Put t e" "s' = goto i c (s\<lparr>sh_log := sh_log s @ [(i, t, e)]\<rparr>)"
      using assms(3) x by (auto simp: next_step_def)
    have t: "t \<le> sh_now s" "\<forall>t' \<in> set (stamps (sh_log s)). t' \<le> t" using ok(4) [of i t] x p(1) by auto
    have none: "stamp_read (sh_code s' j) = None" for j
    proof (cases "j = i")
      case False
      have "sh_fd s = Some i" using holder_unique [OF assms(1), of i t] x p(1) by simp
      then show ?thesis
        using False other [of j] holder_unique [OF assms(1), of j] by (cases "stamp_read (sh_code s j)") auto
    qed (use p c in simp)
    have log: "stamps (sh_log s') = stamps (sh_log s) @ [t]" using p(2) by simp
    show ?thesis unfolding stamps_ok_def log now
      using ok t un none by (auto simp: sorted_append)
  next
    case False
    then have log: "sh_log s' = sh_log s"
      using assms(3) x by (cases x) (auto simp: next_step_def split: if_splits)
    have "stamp_read (sh_code s' i) = Some t \<Longrightarrow> t = sh_now s" for t
      using assms(3) x c False by (cases x) (auto simp: next_step_def split: if_splits)
    then show ?thesis unfolding stamps_ok_def log now using ok un other by (metis order_refl)
  qed
qed


lemma stamps_begin:
  assumes "stamps_ok s" "s' = goto i c t" "unread c" "sh_code t = sh_code s" "sh_log t = sh_log s" "sh_now t = sh_now s"
  shows "stamps_ok s'"
  using assms unread_tl [OF assms(3)] by (auto simp: stamps_ok_def)

lemma stamps_step:
  assumes "locks_typed s" "stamps_ok s" "thread_step s i a s'"
  shows "stamps_ok s'"
  using assms(3)
proof cases
  case (goes ms)
  then show ?thesis using stamps_next [OF assms(1,2)] by blast
next
  case (passes t)
  then show ?thesis using assms(2) by (auto simp: stamps_ok_def intro: order_trans)
qed (erule stamps_begin [OF assms(2)]; simp)+

lemma stamps_run:
  assumes "threads_run threads_start ls s"
  shows "stamps_ok s"
  using assms
proof (induction threads_start ls s rule: threads_run.induct)
  case run_nil
  then show ?case by (simp add: stamps_ok_def threads_start_def stamps_def)
next
  case (run_snoc ls s' i a s'')
  then show ?case using stamps_step typed_run [OF _ typed_start] by metis
qed

section \<open>Every call ends\<close>

lemma step_possible:
  assumes "blocks_ok s" "sh_code s i = x # c" "x = Lock_Unwind \<longrightarrow> sh_unwind s = None" "x = Lock_Fd \<longrightarrow> sh_fd s = None"
  shows "next_step i ms s \<noteq> None"
proof -
  have "sh_heap s p \<noteq> None" if "subject (duty (x # c)) = Some p" for p
    using that owned_block(2) [of "sh_heap s" "sh_owned s" "subjects s" i p] assms(1,2)
    by (auto simp: blocks_ok_def subjects_def)
  then have live: "\<exists>u. sh_heap s p = Some u" if "x = Measure b p \<or> x = Libc_Free p" "p \<noteq> 0" for b p
    using that by (cases b) auto
  then have "x = Measure b p \<Longrightarrow> \<exists>u. usable_size s p = Some u" for b p
    by (cases "p = 0") (auto simp: usable_size_def)
  then show ?thesis using assms(2-4) live
    by (cases x) (fastforce simp: next_step_def)+
qed

lemma some_step_possible:
  assumes "locks_typed s" "blocks_ok s" "sh_code s i \<noteq> []"
  shows "\<exists>j s'. next_step j ms s = Some s'"
proof -
  have ty: "\<exists>d. typed (sh_unwind s = Some j) (sh_fd s = Some j) d (sh_code s j)" for j
    using assms(1) by (auto simp: locks_typed_def)
  have go: "\<exists>j s'. next_step j ms s = Some s'"
    if "sh_code s j = x # c" "x = Lock_Unwind \<longrightarrow> sh_unwind s = None" "x = Lock_Fd \<longrightarrow> sh_fd s = None" for j x c
    using step_possible [OF assms(2) that, of ms] by blast
  consider j where "sh_fd s = Some j" | j where "sh_fd s = None" "sh_unwind s = Some j"
    | "sh_fd s = None" "sh_unwind s = None" by fastforce
  then show ?thesis
  proof cases
    case (1 j)
    then obtain x c where x: "sh_code s j = x # c" using ty [of j] by (cases "sh_code s j") auto
    then have "x \<noteq> Lock_Unwind" "x \<noteq> Lock_Fd" using ty [of j] 1 by auto
    then show ?thesis using go [OF x] by blast
  next
    case (2 j)
    then obtain x c where x: "sh_code s j = x # c" using ty [of j] by (cases "sh_code s j") auto
    then have "x \<noteq> Lock_Unwind" using ty [of j] 2 by auto
    then show ?thesis using go [OF x] 2 by blast
  next
    case 3
    then show ?thesis using go assms(3) by (cases "sh_code s i") auto
  qed
qed

text \<open>Each step either settles a look at the flag, or shortens the rest of the call.\<close>

fun flag_work :: "instr \<Rightarrow> nat" where
  "flag_work Trylock_Update = 2"
| "flag_work Check_Dirty = 1"
| "flag_work _ = 0"

fun line_work :: "instr \<Rightarrow> nat" where
  "line_work (Trylock_Set b) = 3"
| "line_work (Measure b p) = 5"
| "line_work (Stamp e) = 2"
| "line_work _ = 1"

definition work :: "(instr \<Rightarrow> nat) \<Rightarrow> code \<Rightarrow> nat" where
  "work f c = sum_list (map f c)"

definition work_left :: "nat set \<Rightarrow> shared \<Rightarrow> nat \<times> nat" where
  "work_left T s = (\<Sum>i\<in>T. work flag_work (sh_code s i), \<Sum>i\<in>T. work line_work (sh_code s i))"

lemma work_simps [simp]:
  "work f [] = 0" "work f (x # c) = f x + work f c" "work f (c @ c') = work f c + work f c'"
  by (simp_all add: work_def)

lemma work_parts [simp]:
  "work flag_work (fprintf_code e) = 0" "work line_work (fprintf_code e) = 4"
  "work flag_work (concat (map (\<lambda>(a, n). fprintf_code (Loaded a n)) ms)) = 0"
proof -
  show f: "work flag_work (fprintf_code e) = 0" "work line_work (fprintf_code e) = 4" for e
    by (simp_all add: fprintf_code_def)
  show "work flag_work (concat (map (\<lambda>(a, n). fprintf_code (Loaded a n)) ms)) = 0"
    by (induction ms) (auto simp: f)
qed

lemma next_work:
  assumes "next_step i ms s = Some s'"
  shows "sh_code s' = (sh_code s)(i := sh_code s' i)" "sh_code s i \<noteq> []"
    "work flag_work (sh_code s' i) < work flag_work (sh_code s i) \<or>
     work flag_work (sh_code s' i) = work flag_work (sh_code s i) \<and>
     work line_work (sh_code s' i) < work line_work (sh_code s i)"
proof -
  obtain x c where x: "sh_code s i = x # c" using assms by (auto simp: next_step_def split: list.splits)
  show "sh_code s i \<noteq> []" using x by simp
  show "sh_code s' = (sh_code s)(i := sh_code s' i)"
    using assms x by (cases x) (auto simp: next_step_def split: if_splits)
  show "work flag_work (sh_code s' i) < work flag_work (sh_code s i) \<or>
     work flag_work (sh_code s' i) = work flag_work (sh_code s i) \<and>
     work line_work (sh_code s' i) < work line_work (sh_code s i)"
    using assms x by (cases x) (auto simp: next_step_def split: if_splits)
qed

lemma work_left_decreases:
  assumes "next_step i ms s = Some s'" "finite T" "{j. sh_code s j \<noteq> []} \<subseteq> T"
  shows "(work_left T s', work_left T s) \<in> less_than <*lex*> less_than" "{j. sh_code s' j \<noteq> []} \<subseteq> T"
proof -
  note w = next_work [OF assms(1)]
  have i: "i \<in> T" using assms(3) w(2) by auto
  have sum: "(\<Sum>j\<in>T. work f (sh_code t j)) = work f (sh_code t i) + (\<Sum>j\<in>T - {i}. work f (sh_code t j))" for f t
    using sum.remove [OF assms(2) i] .
  have other: "sh_code s' j = sh_code s j" if "j \<noteq> i" for j using w(1) that by (metis fun_upd_other)
  then have "(\<Sum>j\<in>T - {i}. work f (sh_code s' j)) = (\<Sum>j\<in>T - {i}. work f (sh_code s j))" for f
    by (intro sum.cong) auto
  then show "(work_left T s', work_left T s) \<in> less_than <*lex*> less_than"
    using w(3) by (auto simp: work_left_def sum [of _ s] sum [of _ s'])
  show "{j. sh_code s' j \<noteq> []} \<subseteq> T" using other assms(3) i by fastforce
qed

lemma lex_wf: "wf (inv_image (less_than <*lex*> less_than) (work_left T))"
  by (intro wf_inv_image wf_lex_prod wf_less_than)

lemma no_endless_run:
  assumes "finite {j. sh_code s j \<noteq> []}"
  shows "\<not> (\<exists>f. f 0 = s \<and> (\<forall>n. \<exists>i ms. next_step i ms (f n) = Some (f (Suc n))))"
proof
  assume "\<exists>f. f 0 = s \<and> (\<forall>n. \<exists>i ms. next_step i ms (f n) = Some (f (Suc n)))"
  then obtain f where f: "f 0 = s" "\<And>n. \<exists>i ms. next_step i ms (f n) = Some (f (Suc n))" by blast
  let ?T = "{j. sh_code s j \<noteq> []}"
  have sub: "{j. sh_code (f n) j \<noteq> []} \<subseteq> ?T" for n
  proof (induction n)
    case (Suc n)
    obtain i ms where "next_step i ms (f n) = Some (f (Suc n))" using f(2) by blast
    then show ?case using work_left_decreases(2) [OF _ assms Suc] by blast
  qed (simp add: f(1))
  have "(f (Suc n), f n) \<in> inv_image (less_than <*lex*> less_than) (work_left ?T)" for n
  proof -
    obtain i ms where "next_step i ms (f n) = Some (f (Suc n))" using f(2) by blast
    then show ?thesis using work_left_decreases(1) [OF _ assms sub] by (simp add: inv_image_def)
  qed
  then show False using lex_wf [of ?T] unfolding wf_iff_no_infinite_down_chain by blast
qed

fun goes_on :: "action \<Rightarrow> bool" where
  "goes_on (Goes ms) \<longleftrightarrow> True"
| "goes_on _ \<longleftrightarrow> False"

lemma run_to_rest:
  assumes "locks_typed s" "blocks_ok s" "finite T" "{j. sh_code s j \<noteq> []} \<subseteq> T"
  shows "\<exists>ls s'. threads_run s ls s' \<and> list_all (\<lambda>l. snd l = Goes []) ls \<and> (\<forall>i. sh_code s' i = [])"
  using assms(1,2,4)
proof (induction s rule: wf_induct_rule [OF lex_wf [of T]])
  case (1 s)
  show ?case
  proof (cases "\<forall>i. sh_code s i = []")
    case True
    then show ?thesis by (intro exI [of _ "[]"] exI [of _ s]) (simp add: threads_run.run_nil)
  next
    case False
    then obtain j s' where j: "next_step j [] s = Some s'"
      using some_step_possible [OF 1(2,3)] by blast
    then have step: "thread_step s j (Goes []) s'" by (rule thread_step.goes)
    note less = work_left_decreases [OF j assms(3) 1(4)]
    obtain ls s'' where "threads_run s' ls s''" "list_all (\<lambda>l. snd l = Goes []) ls" "\<forall>i. sh_code s'' i = []"
      using 1(1) [of s'] less typed_step [OF 1(2) step] blocks_step [OF 1(3) step]
      unfolding inv_image_def by blast
    then show ?thesis using threads.run_Cons [OF step]
      by (intro exI [of _ "(j, Goes []) # ls"] exI [of _ s'']) simp
  qed
qed

lemma few_threads_step:
  assumes "thread_step s i a s'" "finite {j. sh_code s j \<noteq> []}"
  shows "finite {j. sh_code s' j \<noteq> []}"
proof -
  have "{j. sh_code s' j \<noteq> []} \<subseteq> insert i {j. sh_code s j \<noteq> []}"
    using assms(1)
  proof cases
    case (goes ms)
    then have "sh_code s' = (sh_code s)(i := sh_code s' i)" using next_work(1) by blast
    then have "sh_code s' j = sh_code s j" if "j \<noteq> i" for j using that by (metis fun_upd_other)
    then show ?thesis by auto
  qed auto
  then show ?thesis using assms(2) by (meson finite_insert finite_subset)
qed

lemma few_threads_run: "threads_run s ls s' \<Longrightarrow> finite {j. sh_code s j \<noteq> []} \<Longrightarrow> finite {j. sh_code s' j \<noteq> []}"
  by (rule threads.invariant [where I = "\<lambda>s. finite {j. sh_code s j \<noteq> []}"]) (auto dest: few_threads_step)

end
