(* ===== verification/Threads_Report.thy ===== *)
theory Threads_Report
  imports Threads_Log
begin

text \<open>
  Sessions with several threads: what the interpreter reports from the log they have written, and the properties of
  the threads.
\<close>

section \<open>Running a schedule\<close>

text \<open>The step relation as a function, so that a schedule can be run.\<close>

fun perform :: "nat \<Rightarrow> action \<Rightarrow> shared \<Rightarrow> shared option" where
  "perform i (Goes ms) s = next_step i ms s"
| "perform i (Passes t) s = (if sh_now s \<le> t then Some (s\<lparr>sh_now := t\<rparr>) else None)"
| "perform i a s =
     (if sh_code s i \<noteq> [] then None
      else
        (case a of
           Allocates p u trace \<Rightarrow>
             if p \<noteq> 0 \<and> sh_heap s p = None
             then Some (goto i (alloc_code True p trace) (s\<lparr>sh_heap := (sh_heap s)(p \<mapsto> u)\<rparr>)) else None
         | Alloc_Fails trace \<Rightarrow> Some (goto i (alloc_code True 0 trace) s)
         | Frees p trace \<Rightarrow>
             if p = 0 \<or> p \<in> sh_owned s
             then Some (goto i (free_code p trace) (s\<lparr>sh_owned := sh_owned s - {p}\<rparr>)) else None
         | Moves p q u trace \<Rightarrow>
             if p \<in> sh_owned s \<and> q \<noteq> 0 \<and> (q = p \<or> sh_heap s q = None)
             then Some (goto i (alloc_code True q trace)
               (s\<lparr>sh_heap := (sh_heap s)(p := None, q \<mapsto> u), sh_owned := sh_owned s - {p}\<rparr>)) else None
         | Reallocs_To_Zero p trace \<Rightarrow>
             if p \<in> sh_owned s
             then Some (goto i (alloc_code False 0 trace)
               (s\<lparr>sh_heap := (sh_heap s)(p := None), sh_owned := sh_owned s - {p}\<rparr>)) else None
         | Loads \<Rightarrow> Some (goto i [Trylock_Set True] s)
         | _ \<Rightarrow> None))"

lemma perform_iff: "thread_step s i a s' \<longleftrightarrow> perform i a s = Some s'"
proof
  show "thread_step s i a s' \<Longrightarrow> perform i a s = Some s'" by (cases rule: thread_step.cases) auto
  show "perform i a s = Some s' \<Longrightarrow> thread_step s i a s'"
    by (cases a) (auto intro: thread_step.intros split: if_splits)
qed

fun run_schedule :: "(nat \<times> action) list \<Rightarrow> shared \<Rightarrow> shared option" where
  "run_schedule [] s = Some s"
| "run_schedule ((i, a) # ls) s = (case perform i a s of None \<Rightarrow> None | Some s' \<Rightarrow> run_schedule ls s')"

lemma run_schedule_run: "run_schedule ls s = Some s' \<Longrightarrow> threads_run s ls s'"
  by (induction ls s rule: run_schedule.induct)
    (auto simp: threads_run.run_nil perform_iff intro: threads.run_Cons split: option.splits)

section \<open>What the lines may say\<close>

text \<open>
  A program that does not use \<open>realloc\<close>, whose allocations succeed, whose stacks have at most 16 recorded frames, and whose
  modules have names of one word.
\<close>

fun plain_action :: "action \<Rightarrow> bool" where
  "plain_action (Goes ms) \<longleftrightarrow> list_all (\<lambda>(a, n). one_word n) ms"
| "plain_action (Allocates p u trace) \<longleftrightarrow> length (frames_in trace) \<le> 16"
| "plain_action (Frees p trace) \<longleftrightarrow> length (frames_in trace) \<le> 16"
| "plain_action Loads \<longleftrightarrow> True"
| "plain_action (Passes t) \<longleftrightarrow> True"
| "plain_action _ \<longleftrightarrow> False"

fun heaped :: "event \<Rightarrow> bool" where
  "heaped (Heaped a b) \<longleftrightarrow> True"
| "heaped _ \<longleftrightarrow> False"

definition good_event :: "event \<Rightarrow> bool" where
  "good_event e \<longleftrightarrow> event_ok e \<and> (\<forall>u. e \<noteq> Allocated 0 u) \<and> \<not> heaped e"

fun instr_event :: "instr \<Rightarrow> event option" where
  "instr_event (Measure b p) = Some (record_event b p 0)"
| "instr_event (Stamp e) = Some e"
| "instr_event (Put t e) = Some e"
| "instr_event _ = None"

definition good_code :: "code \<Rightarrow> bool" where
  "good_code c \<longleftrightarrow> list_all (\<lambda>x. case instr_event x of None \<Rightarrow> True | Some e \<Rightarrow> good_event e) c"

definition good_lines :: "shared \<Rightarrow> bool" where
  "good_lines s \<longleftrightarrow> (\<forall>i. good_code (sh_code s i)) \<and> list_all (\<lambda>(i, t, e). good_event e) (sh_log s)"

lemma good_event_simps [simp]:
  "good_event (record_event b p u) \<longleftrightarrow> (b \<longrightarrow> p \<noteq> 0)" "good_event (Framed pc)"
  "good_event (Loaded a n) \<longleftrightarrow> one_word n"
  by (auto simp: good_event_def record_event_def)

lemma good_code_simps [simp]:
  "good_code []" "good_code (c @ c') \<longleftrightarrow> good_code c \<and> good_code c'"
  "good_code (x # c) \<longleftrightarrow> (case instr_event x of None \<Rightarrow> True | Some e \<Rightarrow> good_event e) \<and> good_code c"
  by (simp_all add: good_code_def)

lemma good_parts [simp]:
  "good_code (fprintf_code e) \<longleftrightarrow> good_event e" "good_code (frames_code pcs)"
  "good_code (concat (map (\<lambda>(a, n). fprintf_code (Loaded a n)) ms)) \<longleftrightarrow> list_all (\<lambda>(a, n). one_word n) ms"
proof -
  show f: "good_code (fprintf_code e) \<longleftrightarrow> good_event e" for e by (simp add: fprintf_code_def)
  show "good_code (frames_code pcs)" by (induction pcs) (simp_all add: frames_code_def f)
  show "good_code (concat (map (\<lambda>(a, n). fprintf_code (Loaded a n)) ms)) \<longleftrightarrow> list_all (\<lambda>(a, n). one_word n) ms"
    by (induction ms) (auto simp: f)
qed

lemma good_calls [simp]:
  "good_code (alloc_code b p trace) \<longleftrightarrow> (b \<longrightarrow> p \<noteq> 0)" "good_code (free_code p trace)"
  by (simp_all add: alloc_code_def free_code_def unwind_code_def)

lemma good_next:
  assumes "good_lines s" "next_step i ms s = Some s'" "plain_action (Goes ms)"
  shows "good_lines s'"
proof -
  obtain x c where x: "sh_code s i = x # c" using assms(2) by (auto simp: next_step_def split: list.splits)
  have good: "good_code (sh_code s j)" for j using assms(1) by (simp add: good_lines_def)
  have "good_code (x # c)" using good [of i] x by simp
  then have "good_code (sh_code s' i)" "list_all (\<lambda>(i, t, e). good_event e) (sh_log s')"
    using assms x by (cases x; auto simp: next_step_def good_lines_def split: if_splits)+
  moreover have "sh_code s' j = sh_code s j" if "j \<noteq> i" for j
    using that assms(2) x by (cases x) (auto simp: next_step_def split: if_splits)
  ultimately show ?thesis using good unfolding good_lines_def by metis
qed

lemma good_step:
  assumes "good_lines s" "thread_step s i a s'" "plain_action a"
  shows "good_lines s'"
  using assms(2)
proof cases
  case (goes ms)
  then show ?thesis using good_next [OF assms(1)] assms(3) by blast
qed (use assms(1,3) in \<open>auto simp: good_lines_def\<close>)

lemma good_run:
  "threads_run s ls s' \<Longrightarrow> good_lines s \<Longrightarrow> list_all (plain_action \<circ> snd) ls \<Longrightarrow> good_lines s'"
  using threads.invariant_if [where Q = plain_action and I = good_lines] good_step by blast

section \<open>Addresses that are allocated once\<close>

definition allocs :: "(bool \<times> u64) list \<Rightarrow> u64 list" where
  "allocs rs = map snd (filter fst rs)"

fun action_allocs :: "action \<Rightarrow> u64 list" where
  "action_allocs (Allocates p u trace) = [p]"
| "action_allocs _ = []"

definition allocations :: "(nat \<times> action) list \<Rightarrow> u64 list" where
  "allocations ls = concat (map (action_allocs \<circ> snd) ls)"

text \<open>The addresses whose allocation a call has still to record.\<close>

definition unrecorded :: "shared \<Rightarrow> u64 set" where
  "unrecorded s = {p. \<exists>i. duty (sh_code s i) = Record_Alloc p}"

definition allocs_once :: "(nat \<times> action) list \<Rightarrow> shared \<Rightarrow> bool" where
  "allocs_once ls s \<longleftrightarrow>
     (let seen = allocs (recorded_in (sh_log s))
      in distinct seen \<and> set seen \<union> unrecorded s \<subseteq> set (allocations ls) \<and> set seen \<inter> unrecorded s = {})"

lemma allocs_simps [simp]:
  "allocs [] = []" "allocs (rs @ rs') = allocs rs @ allocs rs'"
  "allocs ((b, p) # rs) = (if b then p # allocs rs else allocs rs)"
  by (simp_all add: allocs_def)

lemma allocations_snoc [simp]: "allocations (ls @ [(i, a)]) = allocations ls @ action_allocs a"
  by (simp add: allocations_def)

lemma unrecorded_upd:
  assumes "\<And>j. j \<noteq> i \<Longrightarrow> sh_code s' j = sh_code s j"
  shows "unrecorded s' \<subseteq> unrecorded s \<union> {p. duty (sh_code s' i) = Record_Alloc p}"
proof
  fix p assume "p \<in> unrecorded s'"
  then obtain j where "duty (sh_code s' j) = Record_Alloc p" by (auto simp: unrecorded_def)
  then show "p \<in> unrecorded s \<union> {p. duty (sh_code s' i) = Record_Alloc p}"
    using assms [of j] by (cases "j = i") (auto simp: unrecorded_def)
qed

lemma allocs_once_next:
  assumes "blocks_ok s" "allocs_once ls s" "next_step i ms s = Some s'"
  shows "allocs_once (ls @ [(i, Goes ms)]) s'"
proof -
  have "in_order (sh_code s i)" using assms(1) by (simp add: blocks_ok_def)
  note next_changes [OF assms(3) this]
  then obtain ch where ch: "changed ch i s s'" "\<And>j. j \<noteq> i \<Longrightarrow> sh_code s' j = sh_code s j" by blast
  define seen where "seen = allocs (recorded_in (sh_log s))"
  define left where "left = unrecorded s"
  have once: "distinct seen" "set seen \<union> left \<subseteq> set (allocations ls)" "set seen \<inter> left = {}"
    using assms(2) by (simp_all add: allocs_once_def Let_def seen_def left_def)
  have sub: "allocs_once (ls @ [(i, Goes ms)]) s'"
    if "allocs (recorded_in (sh_log s')) = seen" "unrecorded s' \<subseteq> left"
    using that once unfolding allocs_once_def Let_def by auto
  have less: "unrecorded s' \<subseteq> left" if "\<And>p. duty (sh_code s' i) = Record_Alloc p \<Longrightarrow> duty (sh_code s i) = Record_Alloc p"
    using unrecorded_upd [OF ch(2)] that by (auto simp: left_def unrecorded_def)
  show ?thesis
  proof (cases ch)
    case (Records b p)
    have no: "duty (sh_code s' i) \<noteq> Record_Alloc q" for q using ch(1) Records by (cases b) auto
    show ?thesis
    proof (cases b)
      case True
      have duty: "duty (sh_code s i) = Record_Alloc p" using ch(1) Records True by simp
      have "duty (sh_code s j) \<noteq> Record_Alloc p" if "j \<noteq> i" for j
        using assms(1) duty that by (fastforce simp: blocks_ok_def owners_def owner_at_def subjects_def)
      then have "duty (sh_code s' j) \<noteq> Record_Alloc p" for j using no [of p] ch(2) [of j] by (cases "j = i") auto
      then have "p \<notin> unrecorded s'" by (simp add: unrecorded_def)
      moreover have "p \<in> left" using duty by (auto simp: left_def unrecorded_def)
      moreover have "allocs (recorded_in (sh_log s')) = seen @ [p]" using ch(1) Records True by (simp add: seen_def)
      ultimately show ?thesis using once less no unfolding allocs_once_def Let_def by auto
    next
      case False
      then show ?thesis using ch(1) Records no by (intro sub less) (auto simp: seen_def)
    qed
  qed (intro sub less; use ch(1) in \<open>simp add: seen_def\<close>)+
qed

lemma allocs_once_step:
  assumes "blocks_ok s" "allocs_once ls s" "thread_step s i a s'" "\<not> is_realloc a"
    and "distinct (allocations (ls @ [(i, a)]))"
  shows "allocs_once (ls @ [(i, a)]) s'"
proof -
  have same: "unrecorded (goto i c t) \<subseteq> unrecorded s \<union> {p. duty c = Record_Alloc p}" if "sh_code t = sh_code s" for c t
    using unrecorded_upd [of i "goto i c t" s] that by simp
  show ?thesis
    using assms(3)
  proof cases
    case (goes ms)
    then show ?thesis using allocs_once_next [OF assms(1,2)] by blast
  next
    case (allocates p u trace)
    have "unrecorded s' \<subseteq> insert p (unrecorded s)" "sh_log s' = sh_log s" "action_allocs a = [p]"
      using allocates same [of "s\<lparr>sh_heap := (sh_heap s)(p \<mapsto> u)\<rparr>" "alloc_code True p trace"] by auto
    moreover from this have "p \<notin> set (allocations ls)" using assms(5) by simp
    ultimately show ?thesis using assms(2) unfolding allocs_once_def Let_def by auto
  next
    case (alloc_fails trace)
    have "unrecorded s' \<subseteq> unrecorded s" "sh_log s' = sh_log s" "action_allocs a = []"
      using alloc_fails same [of s "alloc_code True 0 trace"] by auto
    then show ?thesis using assms(2) unfolding allocs_once_def Let_def by auto
  next
    case (frees p trace)
    have "unrecorded s' \<subseteq> unrecorded s" "sh_log s' = sh_log s" "action_allocs a = []"
      using frees same [of "s\<lparr>sh_owned := sh_owned s - {p}\<rparr>" "free_code p trace"] by (auto split: if_splits)
    then show ?thesis using assms(2) unfolding allocs_once_def Let_def by auto
  next
    case loads
    have "unrecorded s' \<subseteq> unrecorded s" "sh_log s' = sh_log s" "action_allocs a = []"
      using loads same [of s "[Trylock_Set True]"] by auto
    then show ?thesis using assms(2) unfolding allocs_once_def Let_def by auto
  next
    case (passes t)
    then show ?thesis using assms(2) by (simp add: allocs_once_def unrecorded_def)
  qed (use assms(4) in simp_all)
qed

lemma plain_not_realloc: "plain_action a \<Longrightarrow> \<not> is_realloc a"
  by (cases a) auto

lemma allocs_once_run:
  assumes "threads_run threads_start ls s" "list_all (plain_action \<circ> snd) ls" "distinct (allocations ls)"
  shows "allocs_once ls s"
  using assms
proof (induction threads_start ls s rule: threads_run.induct)
  case run_nil
  then show ?case by (simp add: allocs_once_def unrecorded_def threads_start_def)
next
  case (run_snoc ls s' i a s'')
  then show ?case
    using allocs_once_step [of s' ls i a s''] blocks_run [OF _ blocks_start] plain_not_realloc by auto
qed

text \<open>Where no address is allocated twice, what is in use is what was allocated and not released.\<close>

lemma replay_difference:
  "replay rs A = Some B \<Longrightarrow> distinct (allocs rs) \<Longrightarrow> A \<inter> set (allocs rs) = {} \<Longrightarrow>
     B = (A \<union> set (allocs rs)) - set (map snd (filter (Not \<circ> fst) rs))"
proof (induction rs A rule: replay.induct)
  case (2 b p rs A)
  then show ?case by (cases b) (auto split: if_splits)
qed simp


section \<open>The log at rest\<close>

definition at_rest :: "shared \<Rightarrow> bool" where
  "at_rest s \<longleftrightarrow> (\<forall>i. sh_code s i = [])"

lemma rest_blocks:
  assumes "blocks_ok s" "at_rest s"
  shows "logged_blocks s = dom (sh_heap s)"
proof -
  have "owner_at (sh_heap s p \<noteq> None) (p \<in> sh_owned s) (subjects s) p" for p
    using assms(1) by (simp add: blocks_ok_def owners_def)
  then have "p \<in> sh_owned s \<longleftrightarrow> sh_heap s p \<noteq> None" for p
    using assms(2) by (auto simp: owner_at_def at_rest_def subjects_def)
  then show ?thesis using assms(2) by (auto simp: logged_blocks_def at_rest_def)
qed

lemma rest_records:
  assumes "locks_typed s" "records_are rs ls s" "at_rest s"
  shows "lines_written (sh_log s) = concat (map record_lines rs)" "begun_by i rs = calls_by i ls"
proof -
  have "sh_unwind s \<noteq> Some j" for j
    using assms(1,3) by (auto simp: locks_typed_def at_rest_def dest: spec [of _ j])
  then have "unfinished s = []" by (cases "sh_unwind s") (auto simp: unfinished_def)
  then show "lines_written (sh_log s) = concat (map record_lines rs)" "begun_by i rs = calls_by i ls"
    using assms(2,3) by (auto simp: records_are_def at_rest_def)
qed

text \<open>The records of a plain program, as the lines show them.\<close>

fun record_key :: "trace_record \<Rightarrow> bool \<times> u64" where
  "record_key (i, b, p, u, es) = (b, p)"

definition plain_record :: "trace_record \<Rightarrow> bool" where
  "plain_record = (\<lambda>(i, b, p, u, es). p \<noteq> 0 \<and> (\<exists>pcs. es = map Framed pcs \<and> length pcs \<le> 16))"

lemma plain_calls:
  assumes "(b, p, es) \<in> set (calls_by i ls)" "list_all (plain_action \<circ> snd) ls"
  shows "\<exists>pcs. es = map Framed pcs \<and> length pcs \<le> 16" "\<not> b \<Longrightarrow> p \<noteq> 0"
proof -
  obtain a where "(b, p, es) \<in> set (action_records a)" "plain_action a"
    using assms by (fastforce simp: calls_by_def list_all_iff split: if_splits)
  then show "\<exists>pcs. es = map Framed pcs \<and> length pcs \<le> 16" "\<not> b \<Longrightarrow> p \<noteq> 0"
    by (cases a; auto split: if_splits)+
qed

lemma plain_records:
  assumes "locks_typed s" "records_are rs ls s" "at_rest s" "good_lines s" "list_all (plain_action \<circ> snd) ls"
  shows "list_all plain_record rs"
proof -
  note r = rest_records [OF assms(1-3)]
  have "plain_record x" if "x \<in> set rs" for x
  proof -
    obtain i b p u es where x: "x = (i, b, p, u, es)" by (cases x)
    then have "(b, p, es) \<in> set (begun_by i rs)" using that by (force simp: begun_by_def)
    then have call: "(b, p, es) \<in> set (calls_by i ls)" using r(2) by simp
    have "(i, record_event b p u) \<in> set (lines_written (sh_log s))"
      unfolding r(1) using that x by (auto intro!: bexI [of _ x])
    then have "b \<Longrightarrow> p \<noteq> 0"
      using assms(4) by (auto simp: lines_written_def good_lines_def list_all_iff dest!: bspec)
    then show ?thesis using plain_calls [OF call assms(5)] by (auto simp: plain_record_def x)
  qed
  then show ?thesis by (simp add: list_all_iff)
qed

lemma recorded_in_lines:
  "recorded_in log = List.map_filter (\<lambda>(i, e). event_record e) (lines_written log)"
proof (induction log)
  case (Cons x log)
  obtain i t e where "x = (i, t, e)" by (cases x)
  then show ?case using Cons
    by (cases e) (simp_all add: recorded_in_def lines_written_def map_filter_simps)
qed (simp add: recorded_in_def lines_written_def map_filter_simps)

lemma map_filter_append: "List.map_filter f (xs @ ys) = List.map_filter f xs @ List.map_filter f ys"
  by (simp add: List.map_filter_def)

lemma recorded_in_records:
  "list_all plain_record rs \<Longrightarrow>
     List.map_filter (\<lambda>(i, e). event_record e) (concat (map record_lines rs)) = map record_key rs"
proof (induction rs)
  case (Cons x rs)
  obtain i b p u es where x: "x = (i, b, p, u, es)" by (cases x)
  obtain pcs where "es = map Framed pcs" "p \<noteq> 0" using Cons.prems x by (auto simp: plain_record_def)
  moreover have "List.map_filter (\<lambda>(i, e). event_record e) (map (Pair i) (map Framed pcs)) = []" for i pcs
    by (induction pcs) (simp_all add: map_filter_simps)
  ultimately show ?case using Cons x
    by (simp add: map_filter_append map_filter_simps)
qed (simp add: map_filter_simps)

section \<open>What the interpreter makes of it\<close>

lemma fits_lines:
  "log_fits c ctx n tes = log_fits c ctx n (map (Pair 0) (filter (\<lambda>e. \<not> mapping_event e) (map snd tes)))"
proof (induction tes arbitrary: c ctx n)
  case (Cons te tes)
  obtain t e where "te = (t, e)" by (cases te)
  then show ?case using Cons by (cases e) (simp_all add: mapping_event_def del: fun_upd_apply split: option.split)
qed simp

lemma fits_frames:
  "c ctx = Some k \<Longrightarrow> ctx \<noteq> 0 \<Longrightarrow> k + length pcs \<le> MAX_BACKTRACE_COUNT \<Longrightarrow>
    log_fits c ctx n (map (\<lambda>pc. (0, Framed pc)) pcs @ tes) = log_fits (c(ctx \<mapsto> k + length pcs)) ctx n tes"
proof (induction pcs arbitrary: c k)
  case Nil
  then have "c(ctx \<mapsto> k) = c" by (simp add: fun_upd_idem)
  then show ?case by simp
next
  case (Cons pc pcs)
  have "log_fits c ctx n (map (\<lambda>pc. (0, Framed pc)) (pc # pcs) @ tes) =
      log_fits (c(ctx \<mapsto> Suc k)) ctx n (map (\<lambda>pc. (0, Framed pc)) pcs @ tes)"
    using Cons.prems by simp
  also have "\<dots> = log_fits ((c(ctx \<mapsto> Suc k))(ctx \<mapsto> Suc k + length pcs)) ctx n tes"
    by (rule Cons.IH) (use Cons.prems in simp_all)
  finally show ?case by (simp only: fun_upd_upd list.size add_Suc_right add_Suc Nat.add_0_right)
qed

text \<open>An address in use has at most 16 frames, those of its allocation.\<close>

lemma records_fit:
  assumes "list_all plain_record rs" "replay (map record_key rs) A \<noteq> None"
    and "\<forall>p \<in> A. \<exists>k \<le> 16. c p = Some k"
  shows "log_fits c ctx n (map (Pair 0 \<circ> snd) (concat (map record_lines rs)))"
  using assms
proof (induction rs arbitrary: A c ctx)
  case (Cons x rs)
  obtain i b p u es where x: "x = (i, b, p, u, es)" by (cases x)
  obtain pcs where pcs: "es = map Framed pcs" "length pcs \<le> 16" "p \<noteq> 0"
    using Cons.prems(1) x by (auto simp: plain_record_def)
  let ?rest = "map (Pair 0 \<circ> snd) (concat (map record_lines rs))"
  have lines: "map (Pair 0 \<circ> snd) (concat (map record_lines (x # rs))) =
      (0, record_event b p u) # map (\<lambda>pc. (0, Framed pc)) pcs @ ?rest"
    using x pcs(1) by (simp add: comp_def)
  have rep: "b \<longleftrightarrow> p \<notin> A" "replay (map record_key rs) (if b then insert p A else A - {p}) \<noteq> None"
    using Cons.prems(2) x by (auto split: if_splits)
  show ?case
  proof (cases b)
    case True
    have "log_fits (c(p \<mapsto> 0)) p n (map (\<lambda>pc. (0, Framed pc)) pcs @ ?rest) =
        log_fits ((c(p \<mapsto> 0))(p \<mapsto> 0 + length pcs)) p n ?rest"
      using pcs by (intro fits_frames) (simp_all add: MAX_BACKTRACE_COUNT_def)
    moreover have "log_fits ((c(p \<mapsto> 0))(p \<mapsto> 0 + length pcs)) p n ?rest"
      by (rule Cons.IH [of "insert p A"]) (use Cons.prems(1,3) rep(2) True pcs(2) in auto)
    ultimately show ?thesis unfolding lines using True by (simp add: record_event_def)
  next
    case False
    then obtain k where k: "c p = Some k" "k \<le> 16" using rep(1) Cons.prems(3) by auto
    have "log_fits c p n (map (\<lambda>pc. (0, Framed pc)) pcs @ ?rest) = log_fits (c(p \<mapsto> k + length pcs)) p n ?rest"
      using pcs k by (intro fits_frames) (simp_all add: MAX_BACKTRACE_COUNT_def)
    moreover have "log_fits (c(p \<mapsto> k + length pcs)) p n ?rest"
      by (rule Cons.IH [of "A - {p}"]) (use Cons.prems(1,3) rep(2) False in auto)
    ultimately show ?thesis unfolding lines using False k(1) pcs(3) by (simp add: record_event_def)
  qed
qed simp

lemma allocated_lines: "(\<forall>u. \<forall>x \<in> set log. snd (snd x) \<noteq> Allocated 0 u) \<Longrightarrow>
    allocated (map snd log) = allocs (recorded_in log)"
proof (induction log)
  case (Cons x log)
  obtain i t e where "x = (i, t, e)" by (cases x)
  then show ?case using Cons by (cases e) (auto simp: recorded_in_def map_filter_simps)
qed (simp add: recorded_in_def map_filter_simps)

lemma released_lines: "set (released (map snd log)) - {0} = set (map snd (filter (Not \<circ> fst) (recorded_in log)))"
proof (induction log)
  case (Cons x log)
  obtain i t e where x: "x = (i, t, e)" by (cases x)
  show ?case
  proof (cases "\<exists>p u. e = Released p u \<and> p \<noteq> 0")
    case True
    then obtain p where "recorded_in (x # log) = (False, p) # recorded_in log"
      "set (released (map snd (x # log))) - {0} = insert p (set (released (map snd log)) - {0})"
      by (auto simp: x recorded_in_def map_filter_simps insert_Diff_if)
    then show ?thesis using Cons by simp
  next
    case False
    then have "filter (Not \<circ> fst) (recorded_in (x # log)) = filter (Not \<circ> fst) (recorded_in log)"
      "set (released (map snd (x # log))) - {0} = set (released (map snd log)) - {0}"
      by (cases e; auto simp: x recorded_in_def map_filter_simps)+
    then show ?thesis using Cons by (simp only: set_map)
  qed
qed (simp add: recorded_in_def map_filter_simps)

lemma fits_at_rest:
  assumes "threads_run threads_start ls s" "at_rest s" "list_all (plain_action \<circ> snd) ls"
  shows "log_fits (\<lambda>_. None) 0 0 (map snd (sh_log s))"
proof -
  note inv = typed_run [OF assms(1) typed_start] blocks_run [OF assms(1) blocks_start]
  have good: "good_lines s" using good_run [OF assms(1)] assms(3) by (simp add: good_lines_def threads_start_def)
  obtain rs where rs: "records_are rs ls s" using records_run [OF assms(1)] by blast
  note plain = plain_records [OF inv(1) rs assms(2) good assms(3)]
  note lines = rest_records(1) [OF inv(1) rs assms(2)]
  have "list_all (\<lambda>l. \<not> is_realloc (snd l)) ls" using assms(3) plain_not_realloc by (auto simp: list_all_iff)
  then have "replay (map record_key rs) {} \<noteq> None"
    using log_follows_run [OF assms(1) blocks_start log_follows_start] recorded_in_records [OF plain]
    by (simp add: log_follows_def recorded_in_lines lines)
  then have "log_fits (\<lambda>_. None) 0 0 (map (Pair 0 \<circ> snd) (lines_written (sh_log s)))"
    unfolding lines using records_fit [OF plain, of "{}"] by simp
  moreover have "filter (\<lambda>e. \<not> mapping_event e) (map snd (map snd (sh_log s))) = map snd (lines_written (sh_log s))"
    by (simp add: lines_written_def filter_map comp_def case_prod_unfold)
  ultimately show ?thesis by (subst fits_lines) simp
qed

text \<open>A log is the beginning of one that is written when all calls under way have ended.\<close>

lemma log_grows_step:
  assumes "thread_step s i a s'"
  shows "\<exists>log. sh_log s' = sh_log s @ log"
  using assms
proof cases
  case (goes ms)
  then obtain x c where "sh_code s i = x # c" by (auto simp: next_step_def split: list.splits)
  then show ?thesis using goes by (cases x) (auto simp: next_step_def split: if_splits)
qed auto

lemma log_grows: "threads_run s ls s' \<Longrightarrow> \<exists>log. sh_log s' = sh_log s @ log"
  by (rule threads.invariant [where I = "\<lambda>s'. \<exists>log. sh_log s' = sh_log s @ log"]) (auto dest: log_grows_step)

lemma fits_prefix: "log_fits c ctx n (tes @ tes') \<Longrightarrow> log_fits c ctx n tes"
  by (induction c ctx n tes rule: log_fits.induct) (auto split: option.splits)

lemma log_fits_always:
  assumes "threads_run threads_start ls s" "list_all (plain_action \<circ> snd) ls"
  shows "log_fits (\<lambda>_. None) 0 0 (map snd (sh_log s))"
proof -
  note inv = typed_run [OF assms(1) typed_start] blocks_run [OF assms(1) blocks_start]
  have "finite {j. sh_code s j \<noteq> []}" using few_threads_run [OF assms(1)] by (simp add: threads_start_def)
  then obtain ls' s' where s': "threads_run s ls' s'" "list_all (\<lambda>l. snd l = Goes []) ls'" "at_rest s'"
    using run_to_rest [OF inv _ order_refl] unfolding at_rest_def by blast
  then have "list_all (plain_action \<circ> snd) ls'" by (auto simp: list_all_iff)
  have "log_fits (\<lambda>_. None) 0 0 (map snd (sh_log s'))"
    using assms s' \<open>list_all (plain_action \<circ> snd) ls'\<close> by (intro fits_at_rest [OF threads.run_append [OF assms(1) s'(1)]]) simp_all
  then show ?thesis using log_grows [OF s'(1)] by (auto dest: fits_prefix)
qed

text \<open>Lines for heap regions may stand anywhere, as long as there are not too many.\<close>

lemma fits_count:
  "\<forall>te \<in> set tes. \<not> heaped (snd te) \<Longrightarrow> log_fits c ctx n tes = log_fits c ctx m tes"
proof (induction tes arbitrary: c ctx)
  case (Cons te tes)
  obtain t e where te: "te = (t, e)" by (cases te)
  show ?case using Cons by (cases e) (auto simp: te simp del: fun_upd_apply split: option.splits)
qed simp

lemma fits_heaped:
  assumes "log_fits c ctx n (filter (\<lambda>te. \<not> heaped (snd te)) tes)"
    and "n + length (filter (\<lambda>te. heaped (snd te)) tes) \<le> MAX_REGION_COUNT"
  shows "log_fits c ctx n tes"
  using assms
proof (induction tes arbitrary: c ctx n)
  case (Cons te tes)
  obtain t e where te: "te = (t, e)" by (cases te)
  have more: "log_fits c ctx (Suc n) (filter (\<lambda>te. \<not> heaped (snd te)) tes)" if "heaped e"
    using Cons.prems(1) that by (subst fits_count [of _ _ _ _ n]) (simp_all add: te)
  show ?case using Cons more by (cases e) (auto simp: te simp del: fun_upd_apply split: option.splits)
qed simp

lemma allocs_not_null: "0 \<notin> set (allocs (recorded_in log))"
proof (induction log)
  case (Cons x log)
  obtain i t e where "x = (i, t, e)" by (cases x)
  then show ?case using Cons by (cases e) (auto simp: recorded_in_def map_filter_simps)
qed (simp add: recorded_in_def map_filter_simps)

lemma log_read:
  fixes t0 :: u64
  assumes "threads_run threads_start ls s" "list_all (plain_action \<circ> snd) ls"
    and "distinct (allocations ls)" "one_word target" "sound_memory mem" "short_names dw"
    and "filter (\<lambda>te. \<not> heaped (snd te)) log = map snd (sh_log s)"
    and "length (filter (\<lambda>te. heaped (snd te)) log) \<le> MAX_REGION_COUNT"
  defines "tes \<equiv> (t0, Executes target) # log"
  shows "jm_symbols_parse_log mem dw (concat (map event_line tes)) = Fail Exit_Called \<or>
    (\<exists>sm. jm_symbols_parse_log mem dw (concat (map event_line tes)) = Ok sm \<and> leaking_keys sm = logged_blocks s)"
proof -
  have good: "good_lines s" using good_run [OF assms(1)] assms(2) by (simp add: good_lines_def threads_start_def)
  have "\<forall>x \<in> set log. good_event (snd x) \<or> heaped (snd x)"
  proof
    fix x assume "x \<in> set log"
    then have "x \<in> snd ` set (sh_log s) \<or> heaped (snd x)"
      using arg_cong [OF assms(7), of set] by (auto simp: image_def)
    then show "good_event (snd x) \<or> heaped (snd x)"
      using good by (auto simp: good_lines_def list_all_iff)
  qed
  moreover have "heaped e \<Longrightarrow> event_ok e" for e by (cases e) auto
  ultimately have ok: "list_all (\<lambda>te. event_ok (snd te)) tes"
    using assms(4) by (auto simp: tes_def list_all_iff good_event_def)
  have same: "allocated log = allocated (filter (\<lambda>te. \<not> heaped (snd te)) log)"
    "released log = released (filter (\<lambda>te. \<not> heaped (snd te)) log)" for log
    by (induction log rule: allocated.induct; simp)+
  have "\<forall>u. \<forall>x \<in> set (sh_log s). snd (snd x) \<noteq> Allocated 0 u"
    using good by (auto simp: good_lines_def list_all_iff good_event_def)
  then have alloc: "allocated tes = allocs (recorded_in (sh_log s))"
    using allocated_lines by (simp add: tes_def same(1) [of log] assms(7))
  have once: "distinct (allocated tes)" "0 \<notin> set (allocated tes)"
    using allocs_once_run [OF assms(1-3)] allocs_not_null by (auto simp: allocs_once_def Let_def alloc)
  have "list_all (\<lambda>l. \<not> is_realloc (snd l)) ls" using assms(2) plain_not_realloc by (auto simp: list_all_iff)
  then have "replay (recorded_in (sh_log s)) {} = Some (logged_blocks s)"
    using log_follows_run [OF assms(1) blocks_start log_follows_start] by (simp add: log_follows_def)
  from replay_difference [OF this] once
  have "logged_blocks s = set (allocated tes) - (set (released tes) - {0})"
    unfolding alloc by (simp add: tes_def same(2) [of log] assms(7) released_lines)
  then have leaks: "set (allocated tes) - set (released tes) = logged_blocks s"
    using once(2) by auto
  have "log_fits (\<lambda>_. None) 0 0 tes"
    using log_fits_always [OF assms(1,2)] assms(7,8) by (simp add: tes_def fits_heaped)
  then show ?thesis
    using parse_log_finishes [OF ok once(1) assms(5,6)] leaks_reported [OF ok once(1) assms(5)] leaks by auto
qed

lemma rest_report:
  fixes t0 :: u64
  assumes "threads_run threads_start ls s" "at_rest s" "list_all (plain_action \<circ> snd) ls"
    and "distinct (allocations ls)" "one_word target" "sound_memory mem" "short_names dw"
  defines "tes \<equiv> (t0, Executes target) # map snd (sh_log s)"
  shows "jm_symbols_parse_log mem dw (concat (map event_line tes)) = Fail Exit_Called \<or>
    (\<exists>sm. jm_symbols_parse_log mem dw (concat (map event_line tes)) = Ok sm \<and> leaking_keys sm = dom (sh_heap s))"
proof -
  have "good_lines s" using good_run [OF assms(1)] assms(3) by (simp add: good_lines_def threads_start_def)
  then have "\<forall>x \<in> set (sh_log s). \<not> heaped (snd (snd x))"
    by (auto simp: good_lines_def list_all_iff good_event_def)
  then have "filter (\<lambda>te. \<not> heaped (snd te)) (map snd (sh_log s)) = map snd (sh_log s)"
    "filter (\<lambda>te. heaped (snd te)) (map snd (sh_log s)) = []"
    by (auto simp: filter_id_conv filter_empty_conv)
  from log_read [OF assms(1,3-7) this(1), of t0] this(2) show ?thesis
    unfolding tes_def rest_blocks [OF blocks_run [OF assms(1) blocks_start] assms(2)] by simp
qed


section \<open>Properties\<close>

text \<open>C2: several threads profile one program: whatever the order in which their calls are interleaved, once none is
  under way the interpreter, unless it runs out of memory, reads the log to its end and reports as leaks exactly the blocks
  that the C library still has allocated, for a program whose allocations succeed, that does not call \<open>realloc\<close>, is given
  no address twice, and records at most 16 frames with a call.\<close>

theorem concurrent_session_reports_leaks:
  assumes "threads_run threads_start ls s" "at_rest s" "list_all (plain_action \<circ> snd) ls"
    and "distinct (allocations ls)" "one_word target" "sound_memory mem" "short_names dw"
  shows "jm_symbols_parse_log mem dw (concat (map event_line ((t0, Executes target) # map snd (sh_log s)))) = Fail Exit_Called \<or>
    (\<exists>sm out. jm_symbols_parse_log mem dw (concat (map event_line ((t0, Executes target) # map snd (sh_log s)))) = Ok sm \<and>
       leaking_keys sm = dom (sh_heap s) \<and> report sm = Ok out)"
  using rest_report [OF assms, of t0] report_printed(2) [OF _ assms(6)] by blast

text \<open>Two threads, interleaved step by step: while the first records, the second waits for \<open>unwind_mutex\<close>.\<close>

definition two_threads :: "(nat \<times> action) list" where
  "two_threads =
     [(0, Allocates 64 24 [1, 2]), (1, Allocates 128 8 [1]), (0, Goes []), (1, Goes []),
      (0, Goes [(4096, ''/lib/c'')]), (0, Goes []), (0, Passes 5), (0, Goes []), (0, Goes []), (0, Goes []), (0, Goes []),
      (0, Goes []), (0, Goes []), (0, Goes []), (0, Goes []), (0, Goes []), (0, Goes []),
      (0, Goes []), (0, Goes []), (0, Goes []), (0, Goes []), (0, Goes []), (1, Goes []), (0, Goes []),
      (1, Goes []), (1, Goes []), (0, Frees 64 []), (1, Goes []), (1, Goes []), (1, Goes []), (1, Goes []), (0, Goes []), (1, Goes []),
      (0, Goes []), (0, Goes []), (0, Goes []), (0, Goes []), (0, Goes []), (0, Goes []), (0, Goes [])]"

lemma two_threads_rest:
  "\<exists>s. threads_run threads_start two_threads s \<and> at_rest s \<and> dom (sh_heap s) = {128}"
proof -
  have "\<exists>s. run_schedule two_threads threads_start = Some s \<and> at_rest s \<and> dom (sh_heap s) = {128}"
    unfolding two_threads_def threads_start_def
    by (simp add: at_rest_def next_step_def goto_def alloc_code_def free_code_def unwind_code_def frames_code_def frames_in_def
        fprintf_code_def usable_size_def MAX_BACKTRACE_COUNT_def)
  then show ?thesis using run_schedule_run by blast
qed


lemma two_threads_plain: "list_all (plain_action \<circ> snd) two_threads" "distinct (allocations two_threads)"
  by (simp_all add: two_threads_def allocations_def frames_in_def MAX_BACKTRACE_COUNT_def one_word_def is_space_def)

theorem concurrent_session_reports_leaks_witness:
  "\<exists>s. threads_run threads_start two_threads s \<and>
    (jm_symbols_parse_log megabyte plain_dwarf
        (concat (map event_line ((1, Executes ''/bin/app'') # map snd (sh_log s)))) = Fail Exit_Called \<or>
     (\<exists>sm out. jm_symbols_parse_log megabyte plain_dwarf
        (concat (map event_line ((1, Executes ''/bin/app'') # map snd (sh_log s)))) = Ok sm \<and>
       leaking_keys sm = {128} \<and> report sm = Ok out))"
proof -
  obtain s where s: "threads_run threads_start two_threads s" "at_rest s" "dom (sh_heap s) = {128}"
    using two_threads_rest by blast
  show ?thesis
    using concurrent_session_reports_leaks [OF s(1,2) two_threads_plain bin_app_word megabyte_sound plain_dwarf_short, of 1] s(1)
    unfolding s(3) by blast
qed

text \<open>C5: the records of several threads do not mix: but for the \<open>m\<close> lines, the log is a sequence of whole records, each
  the line of a call and the lines of its frames by the thread that made the call, of which only the last may still be
  unfinished, by the thread that holds \<open>unwind_mutex\<close>; and each thread's records are its calls, in the order in which it made
  them, none lost and none twice, but for one that it has not begun.\<close>

theorem records_stay_whole:
  assumes "threads_run threads_start ls s"
  shows "\<exists>rs. lines_written (sh_log s) @ unfinished s = concat (map record_lines rs) \<and>
    (\<forall>i. calls_by i ls = begun_by i rs @ pending (sh_code s i))"
  using records_run [OF assms] unfolding records_are_def by blast

theorem records_stay_whole_witness:
  "\<exists>s rs. threads_run threads_start two_threads s \<and>
    lines_written (sh_log s) @ unfinished s = concat (map record_lines rs) \<and>
    (\<forall>i. calls_by i two_threads = begun_by i rs @ pending (sh_code s i))"
proof -
  obtain s where s: "threads_run threads_start two_threads s" using two_threads_rest by blast
  then show ?thesis using records_stay_whole [OF s] by blast
qed



text \<open>C10: the code of every thread is well typed for the mutexes that the thread holds, in every state that several threads
  reach: a mutex is taken only when it is free and released only by its holder, lines other than \<open>m\<close> lines are written only
  under \<open>unwind_mutex\<close>, every line only under the mutex of the file descriptor, and no call returns with either.\<close>

theorem locks_well_typed:
  assumes "threads_run threads_start ls s"
  shows "\<exists>d. typed (sh_unwind s = Some i) (sh_fd s = Some i) d (sh_code s i) \<and> (d \<longrightarrow> sh_dirty_mutex s = Some i)"
  using typed_run [OF assms typed_start] unfolding locks_typed_def by blast

theorem locks_well_typed_witness:
  "\<exists>s d. threads_run threads_start two_threads s \<and>
    typed (sh_unwind s = Some 1) (sh_fd s = Some 1) d (sh_code s 1) \<and> (d \<longrightarrow> sh_dirty_mutex s = Some 1)"
proof -
  obtain s where s: "threads_run threads_start two_threads s" using two_threads_rest by blast
  then show ?thesis using locks_well_typed [OF s, of 1] by blast
qed

text \<open>C11: time stamps never decrease along the log, however the threads are interleaved, since each is read under the mutex that
  is held until its line is written.\<close>

theorem log_in_time_order:
  assumes "threads_run threads_start ls s"
  shows "sorted (map (\<lambda>(i, t, e). t) (sh_log s))"
  using stamps_run [OF assms] by (simp add: stamps_ok_def stamps_def)

theorem log_in_time_order_witness:
  "\<exists>s. threads_run threads_start two_threads s \<and> sorted (map (\<lambda>(i, t, e). t) (sh_log s))"
proof -
  obtain s where s: "threads_run threads_start two_threads s" using two_threads_rest by blast
  then show ?thesis using log_in_time_order [OF s] by blast
qed

text \<open>C12: no deadlock and no endless call: from every state that several threads reach, the calls under way can all be
  finished, some thread can go on as long as one of them is not, and they cannot go on for ever.\<close>

theorem calls_finish:
  assumes "threads_run threads_start ls s"
  shows "(\<exists>ls' s'. threads_run s ls' s' \<and> list_all (goes_on \<circ> snd) ls' \<and> at_rest s') \<and>
    (at_rest s \<or> (\<exists>i ms s'. next_step i ms s = Some s')) \<and>
    \<not> (\<exists>f. f 0 = s \<and> (\<forall>n. \<exists>i ms. next_step i ms (f n) = Some (f (Suc n))))"
proof -
  have few: "finite {j. sh_code s j \<noteq> []}" using few_threads_run [OF assms] by (simp add: threads_start_def)
  note inv = typed_run [OF assms typed_start] blocks_run [OF assms blocks_start]
  have "at_rest s \<or> (\<exists>i ms s'. next_step i ms s = Some s')"
    using some_step_possible [OF inv] unfolding at_rest_def by blast
  moreover obtain ls' s' where "threads_run s ls' s'" "list_all (\<lambda>l. snd l = Goes []) ls'" "at_rest s'"
    using run_to_rest [OF inv few order_refl] unfolding at_rest_def by blast
  moreover from this have "list_all (goes_on \<circ> snd) ls'" by (auto simp: list_all_iff)
  ultimately show ?thesis using no_endless_run [OF few] by blast
qed

theorem calls_finish_witness:
  "\<exists>s ls' s'. threads_run threads_start [(0, Allocates 64 24 []), (1, Allocates 128 8 [])] s \<and>
    threads_run s ls' s' \<and> list_all (goes_on \<circ> snd) ls' \<and> at_rest s'"
proof -
  obtain s where "run_schedule [(0, Allocates 64 24 []), (1, Allocates 128 8 [])] threads_start = Some s"
    by (simp add: threads_start_def)
  then have s: "threads_run threads_start [(0, Allocates 64 24 []), (1, Allocates 128 8 [])] s"
    by (rule run_schedule_run)
  then show ?thesis using calls_finish [OF s] by blast
qed

end
