(* ===== verification/Threads_Alone.thy ===== *)
theory Threads_Alone
  imports Threads_Report
begin

text \<open>
  A call that no other thread disturbs does what the sequential model of \<open>Preload\<close> does: its steps, taken one after
  the other, write the lines of \<open>call_events\<close> and leave the flag of unlogged modules as the tracker does. So the steps of
  \<open>Threads\<close> are those of the functions that \<open>Preload\<close>, \<open>Backtrace\<close> and \<open>Tracker\<close> translate.
\<close>

section \<open>Runs of one thread\<close>

definition reaches :: "shared \<Rightarrow> shared \<Rightarrow> bool" where
  "reaches s s' \<longleftrightarrow> (\<exists>ls. threads_run s ls s' \<and> list_all (goes_on \<circ> snd) ls)"

lemma reaches_refl [simp]: "reaches s s"
  by (auto simp: reaches_def intro!: exI [of _ "[]"] threads_run.run_nil)

lemma reaches_trans: "reaches s s' \<Longrightarrow> reaches s' s'' \<Longrightarrow> reaches s s''"
  by (auto simp: reaches_def intro: exI [of _ "_ @ _"] threads.run_append)

lemma reaches_step:
  assumes "next_step i ms s = Some s'" "reaches s' s''"
  shows "reaches s s''"
proof -
  obtain ls where "threads_run s' ls s''" "list_all (goes_on \<circ> snd) ls" using assms(2) by (auto simp: reaches_def)
  then show ?thesis using threads.run_Cons [OF thread_step.goes [OF assms(1)]]
    by (auto simp: reaches_def comp_def intro: exI [of _ "(i, Goes ms) # ls"])
qed

definition with_lines :: "nat \<Rightarrow> event list \<Rightarrow> shared \<Rightarrow> shared" where
  "with_lines i es s = s\<lparr>sh_log := sh_log s @ map (\<lambda>e. (i, sh_now s, e)) es\<rparr>"

lemma with_lines_sel [simp]:
  "sh_heap (with_lines i es s) = sh_heap s" "sh_owned (with_lines i es s) = sh_owned s"
  "sh_unwind (with_lines i es s) = sh_unwind s" "sh_fd (with_lines i es s) = sh_fd s"
  "sh_dirty_mutex (with_lines i es s) = sh_dirty_mutex s" "sh_is_dirty (with_lines i es s) = sh_is_dirty s"
  "sh_code (with_lines i es s) = sh_code s" "sh_now (with_lines i es s) = sh_now s"
  "sh_log (with_lines i es s) = sh_log s @ map (\<lambda>e. (i, sh_now s, e)) es"
  by (simp_all add: with_lines_def)

lemma alone_fprintf:
  assumes "sh_code s i = fprintf_code e @ c" "sh_fd s = None"
  shows "reaches s (goto i c (with_lines i [e] s))"
proof -
  let ?t = "goto i (Put (sh_now s) e # Unlock_Fd # c) (s\<lparr>sh_fd := Some i\<rparr>)"
  have "next_step i [] s = Some (goto i (Stamp e # Unlock_Fd # c) (s\<lparr>sh_fd := Some i\<rparr>))"
    using assms by (simp add: next_step_def fprintf_code_def)
  moreover have "next_step i [] (goto i (Stamp e # Unlock_Fd # c) (s\<lparr>sh_fd := Some i\<rparr>)) = Some ?t"
    by (simp add: next_step_def goto_def)
  moreover have "next_step i [] ?t = Some (goto i (Unlock_Fd # c) (with_lines i [e] (s\<lparr>sh_fd := Some i\<rparr>)))"
    by (simp add: next_step_def goto_def with_lines_def)
  moreover have "next_step i [] (goto i (Unlock_Fd # c) (with_lines i [e] (s\<lparr>sh_fd := Some i\<rparr>))) =
      Some (goto i c (with_lines i [e] s))"
    using assms(2) by (simp add: next_step_def goto_def with_lines_def)
  ultimately show ?thesis using reaches_step reaches_refl by metis
qed

definition lines_code :: "event list \<Rightarrow> code" where
  "lines_code es = concat (map fprintf_code es)"

lemma alone_lines:
  assumes "sh_code s i = lines_code es @ c" "sh_fd s = None"
  shows "reaches s (goto i c (with_lines i es s))"
  using assms
proof (induction es arbitrary: s)
  case Nil
  then have "goto i c (with_lines i [] s) = s" by (simp add: goto_def with_lines_def lines_code_def fun_upd_idem)
  then show ?case by simp
next
  case (Cons e es)
  let ?s = "goto i (lines_code es @ c) (with_lines i [e] s)"
  have "reaches s ?s" using Cons.prems by (intro alone_fprintf) (simp_all add: lines_code_def)
  moreover have "reaches ?s (goto i c (with_lines i es ?s))" using Cons.prems by (intro Cons.IH) simp_all
  moreover have "goto i c (with_lines i es ?s) = goto i c (with_lines i (e # es) s)"
    by (simp add: goto_def with_lines_def)
  ultimately show ?case using reaches_trans by metis
qed

lemma frames_lines: "frames_code pcs = lines_code (map Framed pcs)"
  by (simp add: frames_code_def lines_code_def comp_def)

lemma modules_lines:
  "concat (map (\<lambda>(a, n). fprintf_code (Loaded a n)) ms) = lines_code (map (\<lambda>(a, n). Loaded a n) ms)"
  by (simp add: lines_code_def comp_def case_prod_unfold)

section \<open>Unwinding and updating alone\<close>

lemma alone_unwind:
  assumes "sh_code s i = unwind_code b p trace @ c" "sh_fd s = None" "sh_unwind s = None" "usable_size s p = Some u"
  shows "reaches s (goto i c (with_lines i (record_event b p u # map Framed (frames_in trace)) s))"
proof -
  let ?es = "record_event b p u # map Framed (frames_in trace)"
  let ?s1 = "goto i (Measure b p # frames_code (frames_in trace) @ Unlock_Unwind # c) (s\<lparr>sh_unwind := Some i\<rparr>)"
  let ?s2 = "goto i (lines_code ?es @ Unlock_Unwind # c) (s\<lparr>sh_unwind := Some i\<rparr>)"
  let ?s3 = "goto i (Unlock_Unwind # c) (with_lines i ?es ?s2)"
  have "next_step i [] s = Some ?s1"
    using assms by (simp add: next_step_def unwind_code_def)
  moreover have "next_step i [] ?s1 = Some ?s2"
    using assms(4) by (auto simp: next_step_def goto_def usable_size_def frames_lines lines_code_def split: if_splits)
  moreover have "reaches ?s2 ?s3" using assms(2) by (intro alone_lines) simp_all
  moreover have "next_step i [] ?s3 = Some (goto i c (with_lines i ?es s))"
    using assms(3) by (simp add: next_step_def goto_def with_lines_def)
  ultimately show ?thesis by (meson reaches_step reaches_trans reaches_refl)
qed

definition shared_mappings :: "shared \<Rightarrow> mappings" where
  "shared_mappings s = (if sh_dirty_mutex s \<noteq> None then Frozen else if sh_is_dirty s then Stale else Fresh)"

lemma shared_mappings_simps [simp]:
  "shared_mappings (goto i c s) = shared_mappings s" "shared_mappings (with_lines i es s) = shared_mappings s"
  "shared_mappings (s\<lparr>sh_owned := b\<rparr>) = shared_mappings s" "shared_mappings (s\<lparr>sh_heap := h\<rparr>) = shared_mappings s"
  by (simp_all add: shared_mappings_def)

definition same_blocks :: "shared \<Rightarrow> shared \<Rightarrow> bool" where
  "same_blocks s s' \<longleftrightarrow> sh_heap s' = sh_heap s \<and> sh_owned s' = sh_owned s \<and> sh_unwind s' = sh_unwind s \<and>
     sh_fd s' = sh_fd s \<and> sh_now s' = sh_now s"

lemma alone_update:
  assumes "sh_code s i = Trylock_Update # c" "sh_fd s = None"
  shows "\<exists>s'. reaches s s' \<and> sh_code s' = (sh_code s)(i := c) \<and> same_blocks s s' \<and>
    shared_mappings s' = mappings_step Update (shared_mappings s) \<and>
    sh_log s' = sh_log s @ map (\<lambda>e. (i, sh_now s, e))
      (if shared_mappings s = Stale then map (\<lambda>(a, n). Loaded a n) ms else [])"
proof (cases "sh_dirty_mutex s")
  case (Some j)
  then have "next_step i [] s = Some (goto i c s)" using assms by (simp add: next_step_def)
  from reaches_step [OF this reaches_refl] show ?thesis
    using Some by (intro exI [of _ "goto i c s"]) (auto simp: shared_mappings_def same_blocks_def)
next
  case None
  let ?s1 = "goto i (Check_Dirty # c) (s\<lparr>sh_dirty_mutex := Some i\<rparr>)"
  have 1: "next_step i [] s = Some ?s1" using assms None by (simp add: next_step_def)
  show ?thesis
  proof (cases "sh_is_dirty s")
    case False
    let ?t = "goto i c (s\<lparr>sh_dirty_mutex := Some i\<rparr>)"
    have "next_step i [] ?s1 = Some ?t" using False by (simp add: next_step_def goto_def)
    from reaches_step [OF 1 reaches_step [OF this reaches_refl]] show ?thesis
      using None False by (intro exI [of _ ?t]) (simp add: shared_mappings_def same_blocks_def)
  next
    case True
    let ?es = "map (\<lambda>(a, n). Loaded a n) ms"
    let ?s2 = "goto i (lines_code ?es @ Unlock_Dirty # c) (s\<lparr>sh_dirty_mutex := Some i, sh_is_dirty := False\<rparr>)"
    let ?s3 = "goto i (Unlock_Dirty # c) (with_lines i ?es ?s2)"
    let ?t = "goto i c (with_lines i ?es (s\<lparr>sh_is_dirty := False\<rparr>))"
    have 2: "next_step i ms ?s1 = Some ?s2"
      using True by (simp add: next_step_def goto_def modules_lines)
    have 3: "reaches ?s2 ?s3" using assms(2) by (intro alone_lines) simp_all
    have "next_step i [] ?s3 = Some ?t" using None by (simp add: next_step_def goto_def with_lines_def)
    from reaches_step [OF 1 reaches_step [OF 2 reaches_trans [OF 3 reaches_step [OF this reaches_refl]]]] show ?thesis
      using None True by (intro exI [of _ ?t]) (simp add: shared_mappings_def same_blocks_def)
  qed
qed


section \<open>Calls alone\<close>

text \<open>What \<open>malloc\<close>, \<open>calloc\<close> and \<open>free\<close> are as actions, for a given answer of the C library.\<close>

fun action_of :: "call \<Rightarrow> action" where
  "action_of (Call r result usable trace nested) =
     (case r of
        Free p \<Rightarrow> Frees p trace
      | _ \<Rightarrow> if result = 0 then Alloc_Fails trace else Allocates result usable trace)"

text \<open>The C library answers as its heap allows.\<close>

fun answer_ok :: "call \<Rightarrow> shared \<Rightarrow> bool" where
  "answer_ok (Call r result usable trace nested) s \<longleftrightarrow>
     (case r of
        Malloc n \<Rightarrow> if result = 0 then usable = 0 else sh_heap s result = None
      | Calloc n k \<Rightarrow> if result = 0 then usable = 0 else sh_heap s result = None
      | Free p \<Rightarrow> p = 0 \<or> p \<in> sh_owned s \<and> sh_heap s p = Some usable
      | _ \<Rightarrow> False)"

definition modules_of :: "world \<Rightarrow> tracker \<Rightarrow> (u64 \<times> string) list" where
  "modules_of w tk = map (\<lambda>info. (fst info, shown_name tk (snd info))) (w_phdrs w (tk_lines tk))"

lemma update_events_modules:
  "update_events w tk = (if mappings_of tk = Stale then map (\<lambda>(a, n). Loaded a n) (modules_of w tk) else [])"
  by (simp add: update_events_def modules_of_def)

lemma goto_same: "sh_code s i = c \<Longrightarrow> goto i c s = s"
  by (simp add: goto_def fun_upd_idem)

lemma alone_alloc:
  assumes "sh_code s i = alloc_code True p trace" "sh_fd s = None" "sh_unwind s = None" "usable_size s p = Some u"
    and "shared_mappings s = mappings_of tk"
  shows "\<exists>s'. reaches s s' \<and> sh_code s' = (sh_code s)(i := []) \<and>
    shared_mappings s' = mappings_step Update (shared_mappings s) \<and> sh_heap s' = sh_heap s \<and>
    map (snd \<circ> snd) (sh_log s') = map (snd \<circ> snd) (sh_log s) @ update_events w tk @
      record_event True p u # map Framed (frames_in trace)"
proof -
  obtain s1 where s1: "reaches s s1" "sh_code s1 = (sh_code s)(i := unwind_code True p trace @ [Give_Back p])"
    "same_blocks s s1" "shared_mappings s1 = mappings_step Update (shared_mappings s)"
    "sh_log s1 = sh_log s @ map (\<lambda>e. (i, sh_now s, e)) (update_events w tk)"
    using alone_update [of s i "unwind_code True p trace @ [Give_Back p]" "modules_of w tk"] assms
    unfolding alloc_code_def update_events_modules by auto
  let ?es = "record_event True p u # map Framed (frames_in trace)"
  let ?s2 = "goto i [Give_Back p] (with_lines i ?es s1)"
  let ?s3 = "goto i [] (?s2\<lparr>sh_owned := (if p = 0 then sh_owned ?s2 else insert p (sh_owned ?s2))\<rparr>)"
  have "usable_size s1 p = Some u" using assms(4) s1(3) by (simp add: usable_size_def same_blocks_def split: if_splits)
  then have 2: "reaches s1 ?s2"
    using s1(2,3) assms(2,3) by (intro alone_unwind) (simp_all add: same_blocks_def)
  have "next_step i [] ?s2 = Some ?s3" by (simp add: next_step_def)
  from reaches_trans [OF s1(1) reaches_trans [OF 2 reaches_step [OF this reaches_refl]]]
  show ?thesis using s1 by (intro exI [of _ ?s3]) (simp add: same_blocks_def comp_def)
qed

lemma alone_free:
  assumes "sh_code s i = free_code p trace" "sh_fd s = None" "sh_unwind s = None" "p \<noteq> 0 \<Longrightarrow> sh_heap s p = Some u"
  shows "\<exists>s'. reaches s s' \<and> sh_code s' = (sh_code s)(i := []) \<and> shared_mappings s' = shared_mappings s \<and>
    map (snd \<circ> snd) (sh_log s') = map (snd \<circ> snd) (sh_log s) @
      (if p = 0 then [] else record_event False p u # map Framed (frames_in trace))"
proof (cases "p = 0")
  case True
  then have "next_step i [] s = Some (goto i [] s)" using assms(1) by (simp add: next_step_def free_code_def)
  from reaches_step [OF this reaches_refl] show ?thesis
    using True by (intro exI [of _ "goto i [] s"]) simp
next
  case False
  let ?es = "record_event False p u # map Framed (frames_in trace)"
  let ?s2 = "goto i [Libc_Free p] (with_lines i ?es s)"
  let ?s3 = "goto i [] (?s2\<lparr>sh_heap := (sh_heap ?s2)(p := None)\<rparr>)"
  have 2: "reaches s ?s2"
    using False assms by (intro alone_unwind) (simp_all add: free_code_def usable_size_def)
  have "next_step i [] ?s2 = Some ?s3" using False assms(4) by (simp add: next_step_def)
  from reaches_trans [OF 2 reaches_step [OF this reaches_refl]]
  show ?thesis using False by (intro exI [of _ ?s3]) (simp add: comp_def)
qed

section \<open>Properties\<close>

text \<open>C14: a call of \<open>malloc\<close>, \<open>calloc\<close> or \<open>free\<close> that one of several threads makes while no other call is under way can run
  to its end, and then has written the lines that the sequential model of the library writes for that call, and has changed the
  flag of unlogged modules and its mutex as the sequential model does.\<close>

theorem call_alone_as_sequential:
  assumes "threads_run threads_start ls s" "at_rest s" "answer_ok c s" "shared_mappings s = mappings_of tk"
  shows "\<exists>ls' s'. threads_run s ((i, action_of c) # ls') s' \<and> at_rest s' \<and>
    map (snd \<circ> snd) (sh_log s') = map (snd \<circ> snd) (sh_log s) @ call_events w tk c \<and>
    shared_mappings s' = (if is_free (request_of c) then mappings_of tk else mappings_step Update (mappings_of tk))"
proof -
  obtain r result usable trace nested where c: "c = Call r result usable trace nested" by (cases c)
  note ty = typed_run [OF assms(1) typed_start]
  have idle: "sh_code s j = []" for j using assms(2) by (simp add: at_rest_def)
  have "sh_unwind s \<noteq> Some j" "sh_fd s \<noteq> Some j" for j
    using ty idle [of j] by (auto simp: locks_typed_def dest: spec [of _ j])
  then have free: "sh_unwind s = None" "sh_fd s = None" by (cases "sh_unwind s"; cases "sh_fd s"; auto)+
  have rest: ?thesis
    if run: "perform i (action_of c) s = Some s1" "reaches s1 s2" "sh_code s2 = (sh_code s1)(i := [])"
      and other: "\<And>j. j \<noteq> i \<Longrightarrow> sh_code s1 j = sh_code s j"
      and res: "map (snd \<circ> snd) (sh_log s2) = map (snd \<circ> snd) (sh_log s) @ call_events w tk c"
      "shared_mappings s2 = (if is_free (request_of c) then mappings_of tk else mappings_step Update (mappings_of tk))"
    for s1 s2
  proof -
    obtain ls' where "threads_run s1 ls' s2" using run(2) by (auto simp: reaches_def)
    moreover have "thread_step s i (action_of c) s1" using run(1) by (simp add: perform_iff)
    moreover have "at_rest s2" using run(3) other idle by (simp add: at_rest_def)
    ultimately show ?thesis using threads.run_Cons res by blast
  qed
  show ?thesis
  proof (cases "is_free r")
    case True
    then obtain p where r: "r = Free p" by (cases r) (auto simp: is_free_def)
    let ?s1 = "goto i (free_code p trace) (s\<lparr>sh_owned := sh_owned s - {p}\<rparr>)"
    obtain s2 where s2: "reaches ?s1 s2" "sh_code s2 = (sh_code ?s1)(i := [])" "shared_mappings s2 = shared_mappings ?s1"
      "map (snd \<circ> snd) (sh_log s2) = map (snd \<circ> snd) (sh_log ?s1) @
        (if p = 0 then [] else record_event False p usable # map Framed (frames_in trace))"
      using alone_free [of ?s1 i p trace usable] free assms(3) by (auto simp: c r)
    have ev: "call_events w tk c = (if p = 0 then [] else record_event False p usable # map Framed (frames_in trace))"
      by (simp add: call_events_def record_events_def recorded_def c r request_of_def is_free_def record_event_def frames_in_def)
    show ?thesis
      by (rule rest [of ?s1 s2]) (use s2 ev assms(3,4) idle in
        \<open>auto simp: c r request_of_def is_free_def\<close>)
  next
    case False
    then have r: "(\<exists>n. r = Malloc n) \<or> (\<exists>n k. r = Calloc n k)"
      using assms(3) by (cases r) (auto simp: c is_free_def)
    let ?heap = "if result = 0 then sh_heap s else (sh_heap s)(result \<mapsto> usable)"
    let ?s1 = "goto i (alloc_code True result trace) (s\<lparr>sh_heap := ?heap\<rparr>)"
    have s1: "sh_code ?s1 i = alloc_code True result trace" "sh_fd ?s1 = None" "sh_unwind ?s1 = None"
      "usable_size ?s1 result = Some usable" "shared_mappings ?s1 = mappings_of tk"
      using assms(3,4) r free by (auto simp: usable_size_def c)
    obtain s2 where s2: "reaches ?s1 s2" "sh_code s2 = (sh_code ?s1)(i := [])"
      "shared_mappings s2 = mappings_step Update (shared_mappings ?s1)"
      "map (snd \<circ> snd) (sh_log s2) = map (snd \<circ> snd) (sh_log ?s1) @ update_events w tk @
        record_event True result usable # map Framed (frames_in trace)"
      using alone_alloc [OF s1, of w] by blast
    have ev: "call_events w tk c = update_events w tk @ record_event True result usable # map Framed (frames_in trace)"
      using r by (auto simp: call_events_def record_events_def recorded_def c request_of_def is_free_def record_event_def frames_in_def)
    show ?thesis
      by (rule rest [of ?s1 s2]) (use s2 ev assms(3,4) idle r in
        \<open>auto simp: c request_of_def is_free_def\<close>)
  qed
qed

theorem call_alone_as_sequential_witness:
  "\<exists>ls' s'. threads_run threads_start ((3, Allocates 64 24 [1, 2]) # ls') s' \<and> at_rest s' \<and>
    map (snd \<circ> snd) (sh_log s') =
      call_events quiet_world (pr_tracker ready_process) (Call (Malloc 20) 64 24 [1, 2] [])"
proof -
  have "shared_mappings threads_start = mappings_of (pr_tracker ready_process)"
    by (simp add: shared_mappings_def threads_start_def mappings_of_def ready_process_def initial_tracker_def)
  then show ?thesis
    using call_alone_as_sequential [OF threads_run.run_nil [of threads_start], of "Call (Malloc 20) 64 24 [1, 2] []"
        "pr_tracker ready_process" 3 quiet_world]
    by (auto simp: at_rest_def threads_start_def)
qed

end
