(* ===== verification/Threads_Fork.thy ===== *)
theory Threads_Fork
  imports Threads_Alone
begin

text \<open>
  A fork in a program with several threads. The handlers that \<open>src/preload.c\<close> registers with \<open>pthread_atfork\<close> clear
  \<open>is_initialized\<close> before the fork and set it after it in the parent, so that calls which other threads make in the
  meantime are not recorded.
\<close>

section \<open>Calls and forks\<close>

text \<open>\<open>fk_forking\<close> are the threads that are in \<open>fork\<close>, between the two handlers.\<close>

record forking =
  fk_shared :: shared
  fk_initialized :: bool
  fk_forking :: "nat set"

definition fork_start :: forking where
  "fork_start = \<lparr>fk_shared = threads_start, fk_initialized = True, fk_forking = {}\<rparr>"

datatype fork_action = Does action | Does_Unrecorded action | Prepare | Parent

text \<open>The calls that test \<open>is_initialized\<close>, and what is left of them where it is false.\<close>

fun begins_call :: "action \<Rightarrow> bool" where
  "begins_call (Goes ms) \<longleftrightarrow> False"
| "begins_call Loads \<longleftrightarrow> False"
| "begins_call (Passes t) \<longleftrightarrow> False"
| "begins_call _ \<longleftrightarrow> True"

fun bare_code :: "action \<Rightarrow> code" where
  "bare_code (Allocates p u trace) = [Give_Back p]"
| "bare_code (Alloc_Fails trace) = [Give_Back 0]"
| "bare_code (Frees p trace) = [Libc_Free p]"
| "bare_code (Moves p q u trace) = [Give_Back q]"
| "bare_code (Reallocs_To_Zero p trace) = [Give_Back 0]"
| "bare_code _ = []"

inductive fork_step :: "forking \<Rightarrow> nat \<Rightarrow> fork_action \<Rightarrow> forking \<Rightarrow> bool" where
  does: "thread_step (fk_shared f) i a s \<Longrightarrow> i \<notin> fk_forking f \<Longrightarrow> (begins_call a \<longrightarrow> fk_initialized f) \<Longrightarrow>
    fork_step f i (Does a) (f\<lparr>fk_shared := s\<rparr>)"
| does_unrecorded: "thread_step (fk_shared f) i a s \<Longrightarrow> i \<notin> fk_forking f \<Longrightarrow> begins_call a \<Longrightarrow> \<not> fk_initialized f \<Longrightarrow>
    fork_step f i (Does_Unrecorded a) (f\<lparr>fk_shared := goto i (bare_code a) s\<rparr>)"
| prepare: "sh_code (fk_shared f) i = [] \<Longrightarrow> i \<notin> fk_forking f \<Longrightarrow>
    fork_step f i Prepare (f\<lparr>fk_initialized := False, fk_forking := insert i (fk_forking f)\<rparr>)"
| parent: "i \<in> fk_forking f \<Longrightarrow>
    fork_step f i Parent (f\<lparr>fk_initialized := True, fk_forking := fk_forking f - {i}\<rparr>)"

inductive fork_run :: "forking \<Rightarrow> (nat \<times> fork_action) list \<Rightarrow> forking \<Rightarrow> bool" where
  fork_nil: "fork_run f [] f"
| fork_snoc: "fork_run f ls f' \<Longrightarrow> fork_step f' i x f'' \<Longrightarrow> fork_run f (ls @ [(i, x)]) f''"

interpretation forks: transition_runs fork_step fork_run
proof unfold_locales
  show "P f ls f'"
    if "fork_run f ls f'" "\<And>f. P f [] f"
      "\<And>f ls f' i x f''. fork_run f ls f' \<Longrightarrow> P f ls f' \<Longrightarrow> fork_step f' i x f'' \<Longrightarrow> P f (ls @ [(i, x)]) f''"
    for P f ls f'
    using that by (induction rule: fork_run.induct) auto
qed (auto intro: fork_run.intros)

section \<open>Forks during which no call is made\<close>

fun recorded_only :: "nat \<times> fork_action \<Rightarrow> bool" where
  "recorded_only (i, Does_Unrecorded a) \<longleftrightarrow> False"
| "recorded_only (i, _) \<longleftrightarrow> True"

fun actions_of :: "(nat \<times> fork_action) list \<Rightarrow> (nat \<times> action) list" where
  "actions_of [] = []"
| "actions_of ((i, Does a) # ls) = (i, a) # actions_of ls"
| "actions_of ((i, _) # ls) = actions_of ls"

lemma actions_of_append [simp]: "actions_of (ls @ ls') = actions_of ls @ actions_of ls'"
  by (induction ls rule: actions_of.induct) auto

lemma quiet_fork:
  "fork_run f ls f' \<Longrightarrow> list_all recorded_only ls \<Longrightarrow> threads_run (fk_shared f) (actions_of ls) (fk_shared f')"
proof (induction rule: fork_run.induct)
  case (fork_nil f)
  then show ?case by (simp add: threads_run.run_nil)
next
  case (fork_snoc f ls f' i x f'')
  then have run: "threads_run (fk_shared f) (actions_of ls) (fk_shared f')" by simp
  from fork_snoc.hyps(2) show ?case
    using run fork_snoc.prems threads_run.run_snoc [OF run] by cases auto
qed

lemma run_as_fork:
  "threads_run s ls s' \<Longrightarrow> s = fk_shared f \<Longrightarrow> fk_initialized f \<Longrightarrow> fk_forking f = {} \<Longrightarrow>
     fork_run f (map (\<lambda>(i, a). (i, Does a)) ls) (f\<lparr>fk_shared := s'\<rparr>)"
proof (induction rule: threads_run.induct)
  case (run_nil s)
  then show ?case using fork_run.fork_nil [of f] by simp
next
  case (run_snoc s ls s' i a s'')
  then have "fork_step (f\<lparr>fk_shared := s'\<rparr>) i (Does a) (f\<lparr>fk_shared := s''\<rparr>)"
    using fork_step.does [of "f\<lparr>fk_shared := s'\<rparr>" i a s''] by simp
  then show ?case using run_snoc fork_run.fork_snoc by auto
qed

section \<open>Properties\<close>

text \<open>What the log of a plain program at rest says.\<close>

lemma rest_log:
  fixes t0 :: u64
  assumes "threads_run threads_start ls s" "list_all (plain_action \<circ> snd) ls" "distinct (allocations ls)" "one_word target"
  defines "tes \<equiv> (t0, Executes target) # map snd (sh_log s)"
  shows "list_all (\<lambda>te. event_ok (snd te)) tes" "distinct (allocated tes)" "set (allocated tes) \<subseteq> set (allocations ls)"
proof -
  have good: "good_lines s" using good_run [OF assms(1) _ assms(2)] by (simp add: good_lines_def threads_start_def)
  then have "\<forall>u. \<forall>x \<in> set (sh_log s). snd (snd x) \<noteq> Allocated 0 u"
    by (auto simp: good_lines_def list_all_iff good_event_def)
  then have alloc: "allocated tes = allocs (recorded_in (sh_log s))" by (simp add: tes_def allocated_lines)
  have "allocs_once ls s" by (rule allocs_once_run [OF assms(1-3)])
  then show "distinct (allocated tes)" "set (allocated tes) \<subseteq> set (allocations ls)"
    by (auto simp: allocs_once_def Let_def alloc)
  show "list_all (\<lambda>te. event_ok (snd te)) tes"
    using good assms(4) by (auto simp: tes_def good_lines_def list_all_iff good_event_def)
qed

lemma rest_free:
  assumes "threads_run threads_start ls s" "at_rest s"
  shows "sh_unwind s = None" "sh_fd s = None"
proof -
  have "sh_unwind s \<noteq> Some j" "sh_fd s \<noteq> Some j" for j
    using typed_run [OF assms(1) typed_start] assms(2)
    by (auto simp: locks_typed_def at_rest_def dest: spec [of _ j])
  then show "sh_unwind s = None" "sh_fd s = None" by (cases "sh_unwind s"; cases "sh_fd s"; auto)+
qed

text \<open>The block is allocated while thread \<open>i\<close> forks, and freed when it has forked.\<close>

definition hidden_allocation :: "nat \<Rightarrow> nat \<Rightarrow> u64 \<Rightarrow> u64 \<Rightarrow> (nat \<times> fork_action) list" where
  "hidden_allocation i j p u =
     [(i, Prepare), (j, Does_Unrecorded (Allocates p u [])), (j, Does (Goes [])), (i, Parent), (j, Does (Frees p []))]"

lemma hidden_allocation_run:
  assumes "sh_code s = (\<lambda>_. [])" "sh_unwind s = None" "sh_fd s = None" "i \<noteq> j" "p \<noteq> 0" "sh_heap s p = None"
  defines "f \<equiv> \<lparr>fk_shared = s, fk_initialized = True, fk_forking = {}\<rparr>"
  shows "\<exists>ls' s'. fork_run f (hidden_allocation i j p u @ ls') (f\<lparr>fk_shared := s'\<rparr>) \<and> sh_code s' = sh_code s \<and>
    sh_heap s' = sh_heap s \<and> sh_log s' = sh_log s @ [(j, sh_now s, Released p u)]"
proof -
  let ?heap = "(sh_heap s)(p \<mapsto> u)"
  let ?s1 = "goto j [Give_Back p] (s\<lparr>sh_heap := ?heap\<rparr>)"
  let ?s2 = "goto j [] (s\<lparr>sh_heap := ?heap, sh_owned := insert p (sh_owned s)\<rparr>)"
  let ?s3 = "goto j (free_code p []) (s\<lparr>sh_heap := ?heap, sh_owned := insert p (sh_owned s) - {p}\<rparr>)"
  let ?s4 = "goto j [Libc_Free p] (with_lines j [Released p u] ?s3)"
  let ?s5 = "goto j [] (?s4\<lparr>sh_heap := (sh_heap ?s4)(p := None)\<rparr>)"
  let ?off = "\<lambda>s. \<lparr>fk_shared = s, fk_initialized = False, fk_forking = {i}\<rparr>"
  let ?on = "\<lambda>s. \<lparr>fk_shared = s, fk_initialized = True, fk_forking = {}\<rparr>"
  have 1: "fork_step f i Prepare (?off s)" using fork_step.prepare [of f i] assms(1) by (simp add: f_def)
  have "thread_step s j (Allocates p u []) (goto j (alloc_code True p []) (s\<lparr>sh_heap := ?heap\<rparr>))"
    using assms(1,5,6) by (intro thread_step.allocates) simp_all
  then have 2: "fork_step (?off s) j (Does_Unrecorded (Allocates p u [])) (?off ?s1)"
    using fork_step.does_unrecorded [of "?off s" j "Allocates p u []"] assms(4) by (force simp: goto_def)
  have "next_step j [] ?s1 = Some ?s2" using assms(5) by (simp add: next_step_def goto_def)
  then have "thread_step ?s1 j (Goes []) ?s2" by (rule thread_step.goes)
  then have 3: "fork_step (?off ?s1) j (Does (Goes [])) (?off ?s2)"
    using fork_step.does [of "?off ?s1" j "Goes []" ?s2] assms(4) by simp
  have 4: "fork_step (?off ?s2) i Parent (?on ?s2)" using fork_step.parent [of i "?off ?s2"] by simp
  have "thread_step ?s2 j (Frees p []) (goto j (free_code p []) (?s2\<lparr>sh_owned := sh_owned ?s2 - {p}\<rparr>))"
    by (intro thread_step.frees) simp_all
  then have "thread_step ?s2 j (Frees p []) ?s3" by (simp add: goto_def)
  then have 5: "fork_step (?on ?s2) j (Does (Frees p [])) (?on ?s3)"
    using fork_step.does [of "?on ?s2" j "Frees p []" ?s3] by simp
  have "reaches ?s3 ?s4"
    using alone_unwind [of ?s3 j False p "[]" "[Libc_Free p]" u] assms(2,3,5)
    by (simp add: free_code_def usable_size_def frames_in_def record_event_def)
  moreover have "next_step j [] ?s4 = Some ?s5" using assms(5) by (simp add: next_step_def)
  ultimately have "reaches ?s3 ?s5" by (meson reaches_step reaches_trans reaches_refl)
  then obtain ls where "threads_run ?s3 ls ?s5" by (auto simp: reaches_def)
  then have 6: "fork_run (?on ?s3) (map (\<lambda>(i, a). (i, Does a)) ls) (?on ?s5)"
    using run_as_fork [of ?s3 ls ?s5 "?on ?s3"] by simp
  have "fork_run f (hidden_allocation i j p u @ map (\<lambda>(i, a). (i, Does a)) ls) (?on ?s5)"
    unfolding hidden_allocation_def append_Cons append_Nil
    by (intro forks.run_Cons [OF 1] forks.run_Cons [OF 2] forks.run_Cons [OF 3] forks.run_Cons [OF 4] forks.run_Cons [OF 5] 6)
  moreover have "sh_code ?s5 = sh_code s" "sh_heap ?s5 = sh_heap s"
    "sh_log ?s5 = sh_log s @ [(j, sh_now s, Released p u)]"
    using assms(1,6) by (auto simp: fun_eq_iff)
  ultimately show ?thesis by (intro exI [of _ "map (\<lambda>(i, a). (i, Does a)) ls"] exI [of _ ?s5]) (simp add: f_def)
qed



end
