(* ===== verification/Threads_Exit.thy ===== *)
theory Threads_Exit
  imports Threads_Fork "HOL-Library.Sublist"
begin

text \<open>
  The end of a program with several threads. \<open>exit\<close> runs \<open>jm_preload_deinit\<close> of \<open>src/preload.c\<close> in one of them, while
  the others go on: it deletes the keys of the calls, clears \<open>is_initialized\<close>, writes the heap regions and closes the
  descriptor of the log. No mutex keeps the others from the keys and from the descriptor meanwhile.
\<close>

section \<open>Unloading, step by step\<close>

text \<open>
  How far \<open>jm_preload_deinit_\<close> and \<open>jm_tracker_deinit_\<close> have come. \<open>Listing\<close> has the regions that are still to be
  written; the descriptor is one that \<open>open\<close> has returned.
\<close>

datatype stage = Running | Keys_Deleted | Cleared | Listing "(u64 \<times> u64) list" | Closed

text \<open>A line of the log, by a thread in a call or for a heap region.\<close>

datatype log_item = Call_Line entry | Region_Line u64 u64 u64

fun item_event :: "log_item \<Rightarrow> u64 \<times> event" where
  "item_event (Call_Line x) = snd x"
| "item_event (Region_Line t a b) = (t, Heaped a b)"

text \<open>
  \<open>sh_log\<close> of the threads has the lines they have written to the descriptor of the log; those written before it was closed
  are in the file, \<open>lv_file\<close>, the others in \<open>lv_astray\<close>. \<open>lv_bare\<close> are the threads in a call that is not recorded;
  \<open>lv_misused\<close> says that a thread has used a key after its deletion, which POSIX leaves undefined (the steps go on as they do
  with glibc, where such a key has no value and cannot be set).
\<close>

record leaving =
  lv_shared :: shared
  lv_leaver :: "nat option"
  lv_stage :: stage
  lv_bare :: "nat set"
  lv_file :: "log_item list"
  lv_astray :: "entry list"
  lv_misused :: bool

definition leave_start :: leaving where
  "leave_start = \<lparr>lv_shared = threads_start, lv_leaver = None, lv_stage = Running, lv_bare = {}, lv_file = [],
     lv_astray = [], lv_misused = False\<rparr>"

definition lv_initialized :: "leaving \<Rightarrow> bool" where
  "lv_initialized v \<longleftrightarrow> lv_stage v = Running \<or> lv_stage v = Keys_Deleted"

text \<open>What a step of a thread writes goes where the descriptor leads.\<close>

definition acted :: "leaving \<Rightarrow> shared \<Rightarrow> leaving" where
  "acted v s =
     (let new = drop (length (sh_log (lv_shared v))) (sh_log s);
          v = v\<lparr>lv_shared := s, lv_bare := {j \<in> lv_bare v. sh_code s j \<noteq> []}\<rparr>
      in if lv_stage v = Closed then v\<lparr>lv_astray := lv_astray v @ new\<rparr>
         else v\<lparr>lv_file := lv_file v @ map Call_Line new\<rparr>)"

text \<open>A recorded call tests and sets its key when it begins, and resets it before it returns or frees.\<close>

fun resets_key :: "code \<Rightarrow> bool" where
  "resets_key [Give_Back p] \<longleftrightarrow> True"
| "resets_key [Libc_Free p] \<longleftrightarrow> True"
| "resets_key _ \<longleftrightarrow> False"

definition uses_deleted_key :: "leaving \<Rightarrow> nat \<Rightarrow> action \<Rightarrow> bool" where
  "uses_deleted_key v i a \<longleftrightarrow> lv_stage v \<noteq> Running \<and>
     (begins_call a \<or> goes_on a \<and> i \<notin> lv_bare v \<and> resets_key (sh_code (lv_shared v) i))"

datatype leave_action =
    Acts action
  | Acts_Unrecorded action
  | Deletes_Keys
  | Clears
  | Finds "(u64 \<times> u64) list"
  | Lists
  | Closes

inductive leave_step :: "leaving \<Rightarrow> nat \<Rightarrow> leave_action \<Rightarrow> leaving \<Rightarrow> bool" where
  acts: "thread_step (lv_shared v) i a s \<Longrightarrow> (begins_call a \<longrightarrow> lv_initialized v \<and> lv_leaver v \<noteq> Some i) \<Longrightarrow>
    leave_step v i (Acts a) ((acted v s)\<lparr>lv_misused := lv_misused v \<or> uses_deleted_key v i a\<rparr>)"
| acts_unrecorded: "thread_step (lv_shared v) i a s \<Longrightarrow> begins_call a \<Longrightarrow> \<not> lv_initialized v \<Longrightarrow>
    leave_step v i (Acts_Unrecorded a) (v\<lparr>lv_shared := goto i (bare_code a) s, lv_bare := insert i (lv_bare v)\<rparr>)"
| deletes_keys: "lv_stage v = Running \<Longrightarrow> sh_code (lv_shared v) i = [] \<Longrightarrow>
    leave_step v i Deletes_Keys (v\<lparr>lv_leaver := Some i, lv_stage := Keys_Deleted\<rparr>)"
| clears: "lv_stage v = Keys_Deleted \<Longrightarrow> lv_leaver v = Some i \<Longrightarrow>
    leave_step v i Clears (v\<lparr>lv_stage := Cleared\<rparr>)"
| finds: "lv_stage v = Cleared \<Longrightarrow> lv_leaver v = Some i \<Longrightarrow>
    leave_step v i (Finds rs) (v\<lparr>lv_stage := Listing rs\<rparr>)"
| lists: "lv_stage v = Listing ((a, b) # rs) \<Longrightarrow> lv_leaver v = Some i \<Longrightarrow> sh_fd (lv_shared v) = None \<Longrightarrow>
    leave_step v i Lists (v\<lparr>lv_stage := Listing rs, lv_file := lv_file v @ [Region_Line (sh_now (lv_shared v)) a b]\<rparr>)"
| closes: "lv_stage v = Listing [] \<Longrightarrow> lv_leaver v = Some i \<Longrightarrow>
    leave_step v i Closes (v\<lparr>lv_stage := Closed\<rparr>)"

inductive_cases closes_cases: "leave_step v i Closes v'"

inductive leave_run :: "leaving \<Rightarrow> (nat \<times> leave_action) list \<Rightarrow> leaving \<Rightarrow> bool" where
  leave_nil: "leave_run v [] v"
| leave_snoc: "leave_run v ls v' \<Longrightarrow> leave_step v' i x v'' \<Longrightarrow> leave_run v (ls @ [(i, x)]) v''"

interpretation leaves: transition_runs leave_step leave_run
proof unfold_locales
  show "P v ls v'"
    if "leave_run v ls v'" "\<And>v. P v [] v"
      "\<And>v ls v' i x v''. leave_run v ls v' \<Longrightarrow> P v ls v' \<Longrightarrow> leave_step v' i x v'' \<Longrightarrow> P v (ls @ [(i, x)]) v''"
    for P v ls v'
    using that by (induction rule: leave_run.induct) auto
qed (auto intro: leave_run.intros)

text \<open>The steps of the threads in a run, and the addresses of its unrecorded calls.\<close>

fun thread_actions :: "(nat \<times> leave_action) list \<Rightarrow> (nat \<times> action) list" where
  "thread_actions [] = []"
| "thread_actions ((i, Acts a) # ls) = (i, a) # thread_actions ls"
| "thread_actions ((i, _) # ls) = thread_actions ls"

fun addresses :: "action \<Rightarrow> u64 set" where
  "addresses (Allocates p u trace) = {p}"
| "addresses (Frees p trace) = {p}"
| "addresses (Moves p q u trace) = {p, q}"
| "addresses (Reallocs_To_Zero p trace) = {p}"
| "addresses _ = {}"

fun unrecorded_addresses :: "(nat \<times> leave_action) list \<Rightarrow> u64 set" where
  "unrecorded_addresses [] = {}"
| "unrecorded_addresses ((i, Acts_Unrecorded a) # ls) = addresses a \<union> unrecorded_addresses ls"
| "unrecorded_addresses ((i, _) # ls) = unrecorded_addresses ls"

lemma thread_actions_append [simp]: "thread_actions (ls @ ls') = thread_actions ls @ thread_actions ls'"
  by (induction ls rule: thread_actions.induct) auto

lemma unrecorded_addresses_append [simp]:
  "unrecorded_addresses (ls @ ls') = unrecorded_addresses ls \<union> unrecorded_addresses ls'"
  by (induction ls rule: unrecorded_addresses.induct) auto

definition call_lines :: "log_item list \<Rightarrow> entry list" where
  "call_lines file = List.map_filter (\<lambda>x. case x of Call_Line y \<Rightarrow> Some y | _ \<Rightarrow> None) file"

lemma call_lines_simps [simp]:
  "call_lines [] = []" "call_lines (file @ file') = call_lines file @ call_lines file'"
  "call_lines (Call_Line y # file) = y # call_lines file" "call_lines (Region_Line t a b # file) = call_lines file"
  "call_lines (map Call_Line ys) = ys"
  by (simp_all add: call_lines_def map_filter_simps map_filter_append)
    (induction ys; simp add: map_filter_simps)

lemma acted_sel [simp]:
  "lv_shared (acted v s) = s" "lv_leaver (acted v s) = lv_leaver v" "lv_stage (acted v s) = lv_stage v"
  "lv_bare (acted v s) = {j \<in> lv_bare v. sh_code s j \<noteq> []}" "lv_misused (acted v s) = lv_misused v"
  "lv_file (acted v s) = lv_file v @
     (if lv_stage v = Closed then [] else map Call_Line (drop (length (sh_log (lv_shared v))) (sh_log s)))"
  "lv_astray (acted v s) = lv_astray v @
     (if lv_stage v = Closed then drop (length (sh_log (lv_shared v))) (sh_log s) else [])"
  by (simp_all add: acted_def Let_def)

section \<open>The recorded part of a run\<close>

text \<open>
  \<open>s\<close> is the state \<open>t\<close> of the threads as the log knows it: the threads \<open>B\<close> whose calls are not recorded are in no call, and
  what unrecorded calls have done to the blocks \<open>D\<close> has not happened.
\<close>

definition bare_left :: "u64 set \<Rightarrow> code \<Rightarrow> bool" where
  "bare_left D c \<longleftrightarrow> (\<exists>p. (p = 0 \<or> p \<in> D) \<and> (c = [Give_Back p] \<or> c = [Libc_Free p]))"

definition same_shared :: "shared \<Rightarrow> shared \<Rightarrow> bool" where
  "same_shared t s \<longleftrightarrow> sh_unwind s = sh_unwind t \<and> sh_fd s = sh_fd t \<and> sh_dirty_mutex s = sh_dirty_mutex t \<and>
     sh_is_dirty s = sh_is_dirty t \<and> sh_now s = sh_now t \<and> sh_log s = sh_log t"

definition tracks :: "u64 set \<Rightarrow> nat set \<Rightarrow> shared \<Rightarrow> shared \<Rightarrow> bool" where
  "tracks D B t s \<longleftrightarrow> same_shared t s \<and> (\<forall>j. sh_code s j = (if j \<in> B then [] else sh_code t j)) \<and>
     (\<forall>j \<in> B. bare_left D (sh_code t j)) \<and> (\<forall>j p. subjects s j = Some p \<longrightarrow> sh_heap s p = sh_heap t p) \<and>
     (\<forall>p. p \<notin> D \<longrightarrow> (p \<in> sh_owned s \<longleftrightarrow> p \<in> sh_owned t) \<and> sh_heap s p = sh_heap t p)"

lemma tracks_refl: "tracks D {} t t"
  by (simp add: tracks_def same_shared_def)

lemma subjects_of_other:
  assumes "blocks_ok s" "subjects s i = Some p" "subjects s j = Some p"
  shows "j = i"
  using assms by (fastforce simp: blocks_ok_def owners_def owner_at_def)

lemma subject_in_use:
  assumes "blocks_ok s" "subjects s i = Some p"
  shows "sh_heap s p \<noteq> None" "p \<noteq> 0" "p \<notin> sh_owned s"
  using assms owned_block(2) [of "sh_heap s" "sh_owned s" "subjects s" i p]
  by (auto simp: blocks_ok_def owners_def owner_at_def)

lemma owned_in_use:
  assumes "blocks_ok s" "p \<in> sh_owned s"
  shows "sh_heap s p \<noteq> None" "p \<noteq> 0"
  using assms owned_block(1) [of "sh_heap s" "sh_owned s" "subjects s" p] by (auto simp: blocks_ok_def)

lemma tracks_left: "tracks D B t s \<Longrightarrow> j \<in> B \<Longrightarrow> bare_left D (sh_code t j)"
  by (simp add: tracks_def)

lemma tracks_subjects: "tracks D B t s \<Longrightarrow> subjects s j = (if j \<in> B then None else subjects t j)"
  by (simp add: tracks_def subjects_def)

text \<open>What a step does to the heap and to the other threads depends on its instruction only.\<close>

fun takes :: "instr \<Rightarrow> u64 set" where
  "takes (Libc_Free p) = (if p = 0 then {} else {p})"
| "takes _ = {}"

fun gives :: "instr \<Rightarrow> u64 set" where
  "gives (Give_Back p) = (if p = 0 then {} else {p})"
| "gives _ = {}"

lemma next_effect:
  assumes "next_step i ms t = Some t'" "sh_code t i = x # c"
  shows "sh_heap t' = (\<lambda>q. if q \<in> takes x then None else sh_heap t q)" "sh_owned t' = gives x \<union> sh_owned t"
    "j \<noteq> i \<Longrightarrow> sh_code t' j = sh_code t j"
  using assms by (cases x; auto simp: next_step_def fun_eq_iff split: if_splits)+

lemma next_alike:
  assumes "next_step i ms t = Some t'" "sh_code t i = x # c" "sh_code s i = x # c" "same_shared t s"
    and "\<And>b p. x = Measure b p \<Longrightarrow> usable_size s p = usable_size t p"
    and "\<And>p. p \<in> takes x \<Longrightarrow> sh_heap s p \<noteq> None"
  shows "\<exists>s'. next_step i ms s = Some s' \<and> same_shared t' s' \<and> sh_code s' i = sh_code t' i"
proof (cases x)
  case (Measure b p)
  then show ?thesis using assms by (auto simp: next_step_def same_shared_def)
next
  case (Libc_Free p)
  then show ?thesis using assms by (auto simp: next_step_def same_shared_def split: if_splits)
qed (use assms in \<open>auto simp: next_step_def same_shared_def split: if_splits\<close>)

lemma subject_kept:
  assumes "blocks_ok s" "next_step i ms s = Some s'" "subjects s' j = Some p"
  shows "subjects s j = Some p"
proof -
  have "in_order (sh_code s i)" using assms(1) by (simp add: blocks_ok_def)
  note next_changes [OF assms(2) this]
  then obtain ch where ch: "changed ch i s s'" "j \<noteq> i \<Longrightarrow> sh_code s' j = sh_code s j" by blast
  show ?thesis
  proof (cases "j = i")
    case True
    then show ?thesis using ch(1) assms(3) by (cases ch) (auto simp: subjects_def split: if_splits)
  qed (use ch(2) assms(3) in \<open>simp add: subjects_def\<close>)
qed

text \<open>A step of a recorded call is one for the log too.\<close>

lemma tracks_next:
  assumes "tracks D B t s" "blocks_ok s" "next_step i ms t = Some t'" "i \<notin> B"
  shows "\<exists>s'. next_step i ms s = Some s' \<and> tracks D {j \<in> B. sh_code t' j \<noteq> []} t' s'"
proof -
  obtain x c where x: "sh_code t i = x # c" using assms(3) by (auto simp: next_step_def split: list.splits)
  have same: "same_shared t s" "sh_code s i = x # c" using assms(1,4) x by (auto simp: tracks_def)
  have subject: "sh_heap s p = sh_heap t p" if "subjects s j = Some p" for j p using that assms(1) by (simp add: tracks_def)
  have "usable_size s p = usable_size t p" if "x = Measure b p" for b p
    using subject [of i p] that same(2) by (cases "p = 0"; cases b) (simp_all add: usable_size_def subjects_def)
  moreover have takes: "subjects s i = Some p" if "p \<in> takes x" for p
    using that same(2) by (cases x) (auto simp: subjects_def split: if_splits)
  moreover have "sh_heap s p \<noteq> None" if "p \<in> takes x" for p using subject_in_use(1) [OF assms(2) takes [OF that]] .
  ultimately obtain s' where s': "next_step i ms s = Some s'" "same_shared t' s'" "sh_code s' i = sh_code t' i"
    using next_alike [OF assms(3) x same(2,1)] by blast
  note effect = next_effect [OF assms(3) x] next_effect [OF s'(1) same(2)]
  have codes: "sh_code s' j = (if j \<in> {j \<in> B. sh_code t' j \<noteq> []} then [] else sh_code t' j)" for j
    using assms(1,4) effect(3,6) [of j] s'(3) by (cases "j = i") (auto simp: tracks_def)
  have left: "bare_left D (sh_code t' j)" if "j \<in> B" for j
    using that assms(1,4) effect(3) [of j] by (cases "j = i") (auto simp: tracks_def)
  have "sh_heap s' p = sh_heap t' p" if "subjects s' j = Some p" for j p
    using subject [OF subject_kept [OF assms(2) s'(1) that]] effect(1,4) by simp
  then have "tracks D {j \<in> B. sh_code t' j \<noteq> []} t' s'"
    using assms(1) s'(2) codes left effect(1,2,4,5) unfolding tracks_def by simp
  then show ?thesis using s'(1) by blast
qed

text \<open>A step of an unrecorded call is none.\<close>

lemma tracks_bare:
  assumes "tracks D B t s" "blocks_ok t" "next_step i ms t = Some t'" "i \<in> B"
  shows "tracks D {j \<in> B. sh_code t' j \<noteq> []} t' s" "sh_log t' = sh_log t"
proof -
  obtain p x where p: "p = 0 \<or> p \<in> D" "sh_code t i = [x]" "x = Give_Back p \<or> x = Libc_Free p"
    using tracks_left [OF assms(1,4)] unfolding bare_left_def by blast
  note effect = next_effect [OF assms(3) p(2)]
  have t': "same_shared t t'" "sh_code t' i = []"
    using assms(3) p(2,3) by (auto simp: next_step_def same_shared_def split: if_splits)
  then show "sh_log t' = sh_log t" by (simp add: same_shared_def)
  have taken: "takes x \<subseteq> D" "gives x \<subseteq> D" using p(1,3) by (auto split: if_splits)
  have "q \<notin> takes x" if "subjects s j = Some q" for j q
  proof
    assume "q \<in> takes x"
    then have "subjects t i = Some q" using p(2,3) by (auto simp: subjects_def split: if_splits)
    moreover have "subjects t j = Some q" "j \<noteq> i"
      using that assms(4) tracks_subjects [OF assms(1)] by (auto split: if_splits)
    ultimately show False using subjects_of_other [OF assms(2)] by blast
  qed
  moreover have "sh_code s j = (if j \<in> {j \<in> B. sh_code t' j \<noteq> []} then [] else sh_code t' j)" for j
    using assms(1,4) effect(3) [of j] t'(2) by (cases "j = i") (auto simp: tracks_def)
  moreover have "bare_left D (sh_code t' j)" if "j \<in> {j \<in> B. sh_code t' j \<noteq> []}" for j
    using that assms(1) effect(3) [of j] t'(2) by (cases "j = i") (auto simp: tracks_def)
  moreover have "same_shared t' s" using assms(1) t'(1) by (simp add: tracks_def same_shared_def)
  ultimately show "tracks D {j \<in> B. sh_code t' j \<noteq> []} t' s"
    using assms(1) taken effect(1,2) unfolding tracks_def by auto
qed

text \<open>Nor is the beginning of one.\<close>

lemma bare_code_left: "begins_call a \<Longrightarrow> bare_left (addresses a) (bare_code a)"
  by (cases a) (auto simp: bare_left_def)

lemma blocks_bare:
  assumes "blocks_ok t" "thread_step t i a t'" "begins_call a"
  shows "blocks_ok (goto i (bare_code a) t')"
proof -
  have "blocks_ok t'" using blocks_step [OF assms(1,2)] .
  moreover have "subjects (goto i (bare_code a) t') = subjects t'"
    using assms(2,3) by cases (auto simp: subjects_def)
  moreover have "in_order (bare_code a)" by (cases a) auto
  ultimately show ?thesis by (simp add: blocks_ok_def)
qed

lemma tracks_begins_bare:
  assumes "tracks D B t s" "blocks_ok t" "thread_step t i a t'" "begins_call a"
  shows "tracks (D \<union> addresses a) (insert i B) (goto i (bare_code a) t') s"
proof -
  have "sh_code t i = []" using assms(3,4) by cases simp_all
  then have idle: "sh_code t i = []" "sh_code s i = []" using assms(1) by (simp_all add: tracks_def)
  have same: "same_shared t t'" "\<And>j. j \<noteq> i \<Longrightarrow> sh_code t' j = sh_code t j"
    "\<And>p. p \<notin> addresses a \<Longrightarrow> (p \<in> sh_owned t' \<longleftrightarrow> p \<in> sh_owned t) \<and> sh_heap t' p = sh_heap t p"
    using assms(3,4) by (cases; auto simp: same_shared_def)+
  have "sh_heap t' p = sh_heap t p" if "subjects s j = Some p" for j p
  proof -
    have "subjects t j = Some p" using that tracks_subjects [OF assms(1)] by (simp split: if_splits)
    note in_use = subject_in_use [OF assms(2) this]
    show ?thesis using assms(3,4) in_use by cases auto
  qed
  moreover have "bare_left (D \<union> addresses a) (bare_code a)"
    using bare_code_left [OF assms(4)] unfolding bare_left_def by blast
  moreover have "bare_left (D \<union> addresses a) (sh_code t j)" if "j \<in> B" for j
    using tracks_left [OF assms(1) that] unfolding bare_left_def by blast
  moreover have "same_shared (goto i (bare_code a) t') s"
    using assms(1) same(1) by (simp add: tracks_def same_shared_def)
  ultimately show ?thesis
    using assms(1) same(2,3) idle unfolding tracks_def by simp
qed

text \<open>Other steps are the same for both.\<close>

lemma tracks_other:
  assumes "tracks D B t s" "thread_step t i a t'" "\<not> begins_call a" "\<not> goes_on a"
  shows "\<exists>s'. thread_step s i a s' \<and> tracks D {j \<in> B. sh_code t' j \<noteq> []} t' s'" "sh_log t' = sh_log t"
proof -
  have left: "sh_code t j \<noteq> []" if "j \<in> B" for j using that assms(1) by (auto simp: tracks_def bare_left_def)
  show "\<exists>s'. thread_step s i a s' \<and> tracks D {j \<in> B. sh_code t' j \<noteq> []} t' s'"
    using assms(2)
  proof cases
    case loads
    then have "i \<notin> B" "sh_code s i = []" using assms(1) left by (auto simp: tracks_def)
    then have "tracks D {j \<in> B. sh_code t' j \<noteq> []} t' (goto i [Trylock_Set True] s)"
      using loads assms(1) by (auto simp: tracks_def same_shared_def subjects_def)
    then show ?thesis using thread_step.loads [OF \<open>sh_code s i = []\<close>] loads by blast
  next
    case (passes u)
    then have "sh_now s \<le> u" "tracks D {j \<in> B. sh_code t' j \<noteq> []} t' (s\<lparr>sh_now := u\<rparr>)"
      using left assms(1) by (auto simp: tracks_def same_shared_def subjects_def)
    then show ?thesis using thread_step.passes passes by blast
  qed (use assms(3,4) in simp_all)
  show "sh_log t' = sh_log t" using assms(2-4) by cases auto
qed

text \<open>So every run of the threads with an exit has one of recorded calls in it, which wrote the file.\<close>

definition follows :: "u64 set \<Rightarrow> leaving \<Rightarrow> shared \<Rightarrow> bool" where
  "follows D v s \<longleftrightarrow> blocks_ok (lv_shared v) \<and> call_lines (lv_file v) = sh_log s \<and>
     (lv_initialized v \<longrightarrow> s = lv_shared v \<and> lv_bare v = {}) \<and>
     (lv_stage v \<noteq> Closed \<longrightarrow> tracks D (lv_bare v) (lv_shared v) s)"

lemma follows_acts:
  assumes "follows D v s" "blocks_ok s" "thread_step (lv_shared v) i a t" "begins_call a \<longrightarrow> lv_initialized v"
  shows "\<exists>ls s'. threads_run s ls s' \<and> subseq ls [(i, a)] \<and> follows D ((acted v t)\<lparr>lv_misused := m\<rparr>) s'"
proof -
  note ok = blocks_step [OF _ assms(3)]
  have stays: ?thesis if "follows D ((acted v t)\<lparr>lv_misused := m\<rparr>) s"
    using that by (intro exI [of _ "[]"] exI [of _ s]) (simp add: threads_run.run_nil)
  have moves: ?thesis if "thread_step s i a s'" "follows D ((acted v t)\<lparr>lv_misused := m\<rparr>) s'" for s'
    using that threads.run_step by (intro exI [of _ "[(i, a)]"] exI [of _ s']) simp
  obtain log where log: "sh_log t = sh_log (lv_shared v) @ log" using log_grows_step [OF assms(3)] by blast
  consider "lv_stage v = Closed" | "lv_initialized v" | "\<not> lv_initialized v" "lv_stage v \<noteq> Closed" by blast
  then show ?thesis
  proof cases
    case 1
    then show ?thesis using assms(1) ok by (intro stays) (simp add: follows_def lv_initialized_def)
  next
    case 2
    then have "lv_stage v \<noteq> Closed" by (auto simp: lv_initialized_def)
    then have "follows D ((acted v t)\<lparr>lv_misused := m\<rparr>) t"
      using assms(1) 2 ok log by (auto simp: follows_def lv_initialized_def tracks_refl)
    then show ?thesis using assms(1,3) 2 by (intro moves) (auto simp: follows_def)
  next
    case 3
    have t: "tracks D (lv_bare v) (lv_shared v) s" "blocks_ok (lv_shared v)" "sh_log s = sh_log (lv_shared v)"
      using assms(1) 3 by (auto simp: follows_def tracks_def same_shared_def)
    have follows: "follows D ((acted v t)\<lparr>lv_misused := m\<rparr>) s'"
      if "tracks D {j \<in> lv_bare v. sh_code t j \<noteq> []} t s'" for s'
    proof -
      have "sh_log s' = sh_log t" using that by (simp add: tracks_def same_shared_def)
      then show ?thesis using that assms(1) 3 ok log t(3) by (auto simp: follows_def lv_initialized_def)
    qed
    show ?thesis
    proof (cases "goes_on a")
      case True
      then obtain ms where a: "a = Goes ms" by (cases a) auto
      then have next': "next_step i ms (lv_shared v) = Some t" using assms(3) goes_cases by blast
      show ?thesis
      proof (cases "i \<in> lv_bare v")
        case True
        show ?thesis using tracks_bare(1) [OF t(1,2) next' True] by (intro stays follows)
      next
        case False
        then obtain s' where "next_step i ms s = Some s'" "tracks D {j \<in> lv_bare v. sh_code t j \<noteq> []} t s'"
          using tracks_next [OF t(1) assms(2) next'] by blast
        then show ?thesis using thread_step.goes a by (intro moves follows) blast+
      qed
    next
      case False
      then obtain s' where "thread_step s i a s'" "tracks D {j \<in> lv_bare v. sh_code t j \<noteq> []} t s'"
        using tracks_other(1) [OF t(1) assms(3)] assms(4) 3 by blast
      then show ?thesis by (intro moves follows)
    qed
  qed
qed

lemma follows_step:
  assumes "follows D v s" "blocks_ok s" "leave_step v i x v'"
  shows "\<exists>ls s'. threads_run s ls s' \<and> subseq ls (thread_actions [(i, x)]) \<and>
    follows (D \<union> unrecorded_addresses [(i, x)]) v' s'"
proof -
  have stays: ?thesis if "follows (D \<union> unrecorded_addresses [(i, x)]) v' s"
    using that by (intro exI [of _ "[]"] exI [of _ s]) (simp add: threads_run.run_nil)
  show ?thesis
    using assms(3)
  proof cases
    case (acts a t)
    then show ?thesis using follows_acts [OF assms(1,2)] by simp
  next
    case (acts_unrecorded t a)
    then have "follows (D \<union> unrecorded_addresses [(i, x)]) v' s"
      using assms(1) tracks_begins_bare blocks_bare by (auto simp: follows_def lv_initialized_def)
    then show ?thesis by (rule stays)
  qed (rule stays; use assms(1) in \<open>auto simp: follows_def lv_initialized_def\<close>)+
qed

lemma recorded_part:
  "leave_run leave_start ls v \<Longrightarrow>
    \<exists>ls' s. threads_run threads_start ls' s \<and> subseq ls' (thread_actions ls) \<and> follows (unrecorded_addresses ls) v s"
proof (induction leave_start ls v rule: leave_run.induct)
  case leave_nil
  have "follows {} leave_start threads_start" using blocks_start by (simp add: follows_def leave_start_def tracks_refl threads_start_def)
  then show ?case by (intro exI [of _ "[]"] exI [of _ threads_start]) (simp add: threads_run.run_nil)
next
  case (leave_snoc ls v' i x v'')
  then obtain ls' s where s: "threads_run threads_start ls' s" "subseq ls' (thread_actions ls)"
    "follows (unrecorded_addresses ls) v' s" by blast
  obtain ls'' s' where s': "threads_run s ls'' s'" "subseq ls'' (thread_actions [(i, x)])"
    "follows (unrecorded_addresses ls \<union> unrecorded_addresses [(i, x)]) v'' s'"
    using follows_step [OF s(3) blocks_run [OF s(1) blocks_start] leave_snoc.hyps(3)] by blast
  then show ?case
    using threads.run_append [OF s(1) s'(1)] list_emb_append_mono [OF s(2) s'(2)]
    by (intro exI [of _ "ls' @ ls''"] exI [of _ s']) simp
qed

section \<open>The file\<close>

fun plain_leave :: "leave_action \<Rightarrow> bool" where
  "plain_leave (Acts a) \<longleftrightarrow> plain_action a"
| "plain_leave (Finds rs) \<longleftrightarrow> length rs \<le> MAX_REGION_COUNT"
| "plain_leave _ \<longleftrightarrow> True"

lemma plain_thread_actions:
  "list_all (plain_leave \<circ> snd) ls \<Longrightarrow> list_all (plain_action \<circ> snd) (thread_actions ls)"
  by (induction ls rule: thread_actions.induct) auto

lemma allocations_subseq: "subseq ls' ls \<Longrightarrow> subseq (allocations ls') (allocations ls)"
  by (induction rule: list_emb.induct) (auto simp: allocations_def intro: list_emb_append_mono)

lemma subseq_keeps:
  assumes "subseq xs ys"
  shows "distinct ys \<Longrightarrow> distinct xs" "list_all P ys \<Longrightarrow> list_all P xs"
  using assms by (auto simp: subseq_conv_nths list_all_iff dest: in_set_nthsD)

fun regions_left :: "stage \<Rightarrow> nat" where
  "regions_left (Listing rs) = length rs"
| "regions_left _ = 0"

fun is_region :: "log_item \<Rightarrow> bool" where
  "is_region (Region_Line t a b) \<longleftrightarrow> True"
| "is_region _ \<longleftrightarrow> False"

definition regions_fit :: "leaving \<Rightarrow> bool" where
  "regions_fit v \<longleftrightarrow> length (filter is_region (lv_file v)) + regions_left (lv_stage v) \<le> MAX_REGION_COUNT \<and>
     ((\<exists>rs. lv_stage v = Listing rs) \<or> lv_stage v = Closed \<or> filter is_region (lv_file v) = [])"

lemma no_regions [simp]: "filter is_region (map Call_Line ys) = []"
  by (induction ys) auto

lemma regions_fit_step: "regions_fit v \<Longrightarrow> leave_step v i x v' \<Longrightarrow> plain_leave x \<Longrightarrow> regions_fit v'"
  by (cases rule: leave_step.cases) (simp_all add: regions_fit_def, auto)

lemma regions_fit_run:
  assumes "leave_run leave_start ls v" "list_all (plain_leave \<circ> snd) ls"
  shows "length (filter is_region (lv_file v)) \<le> MAX_REGION_COUNT"
proof -
  have "regions_fit v"
    by (rule leaves.invariant_if [OF assms, of regions_fit])
      (simp add: regions_fit_def leave_start_def, rule regions_fit_step)
  then show ?thesis by (simp add: regions_fit_def)
qed

lemma file_closed_step: "leave_step v i x v' \<Longrightarrow> lv_stage v = Closed \<Longrightarrow> lv_stage v' = Closed \<and> lv_file v' = lv_file v"
  by (erule leave_step.cases) auto

lemma file_closed:
  assumes "leave_run v ls v'" "lv_stage v = Closed"
  shows "lv_file v' = lv_file v"
proof -
  have "lv_stage v' = Closed \<and> lv_file v' = lv_file v"
    by (rule leaves.invariant [where I = "\<lambda>v'. lv_stage v' = Closed \<and> lv_file v' = lv_file v"])
      (use assms file_closed_step in auto)
  then show ?thesis by blast
qed

text \<open>The call lines of a file as lines of a log, and the region lines.\<close>

lemma item_lines:
  "\<forall>x \<in> set (call_lines xs). \<not> heaped (snd (snd x)) \<Longrightarrow>
    filter (\<lambda>te. \<not> heaped (snd te)) (map item_event xs) = map snd (call_lines xs) \<and>
    length (filter (\<lambda>te. heaped (snd te)) (map item_event xs)) = length (filter is_region xs)"
proof (induction xs)
  case (Cons x xs)
  then show ?case by (cases x) auto
qed simp

section \<open>Runs with an exit\<close>

text \<open>Steps of the threads as steps with an exit, and where their lines go.\<close>

definition act :: "nat \<times> action \<Rightarrow> nat \<times> leave_action" where
  "act = (\<lambda>(i, a). (i, Acts a))"

lemma run_while_leaving:
  assumes "threads_run t ls t'" "lv_shared v = t" "lv_bare v = {}"
    and "list_all (goes_on \<circ> snd) ls \<or> lv_initialized v \<and> lv_leaver v = None"
  shows "\<exists>v'. leave_run v (map act ls) v' \<and> lv_shared v' = t' \<and> lv_bare v' = {} \<and> lv_stage v' = lv_stage v \<and>
    lv_leaver v' = lv_leaver v \<and>
    (let new = drop (length (sh_log t)) (sh_log t')
     in lv_file v' = lv_file v @ (if lv_stage v = Closed then [] else map Call_Line new) \<and>
        lv_astray v' = lv_astray v @ (if lv_stage v = Closed then new else []))"
  using assms
proof (induction rule: threads_run.induct)
  case (run_nil t)
  then show ?case using leave_run.leave_nil [of v] by (intro exI [of _ v]) (simp add: Let_def)
next
  case (run_snoc t ls t' i a t'')
  then obtain v' where v': "leave_run v (map act ls) v'" "lv_shared v' = t'" "lv_bare v' = {}"
    "lv_stage v' = lv_stage v" "lv_leaver v' = lv_leaver v"
    "lv_file v' = lv_file v @ (if lv_stage v = Closed then [] else map Call_Line (drop (length (sh_log t)) (sh_log t')))"
    "lv_astray v' = lv_astray v @ (if lv_stage v = Closed then drop (length (sh_log t)) (sh_log t') else [])"
    by (auto simp: Let_def)
  have "begins_call a \<longrightarrow> lv_initialized v' \<and> lv_leaver v' \<noteq> Some i"
    using run_snoc.prems(3) v'(4,5) by (cases a) (auto simp: lv_initialized_def)
  then have step: "leave_step v' i (Acts a) ((acted v' t'')\<lparr>lv_misused := lv_misused v' \<or> uses_deleted_key v' i a\<rparr>)"
    using run_snoc.hyps(2) v'(2) by (intro leave_step.acts) simp_all
  obtain log log' where "sh_log t' = sh_log t @ log" "sh_log t'' = sh_log t' @ log'"
    using log_grows [OF run_snoc.hyps(1)] log_grows_step [OF run_snoc.hyps(2)] by blast
  then show ?case
    using leave_run.leave_snoc [OF v'(1) step] v'
    by (intro exI [of _ "(acted v' t'')\<lparr>lv_misused := lv_misused v' \<or> uses_deleted_key v' i a\<rparr>"])
      (simp add: act_def Let_def)
qed

text \<open>A thread allocates a block while another leaves the program without heap regions.\<close>

definition exit_during_call :: "nat \<Rightarrow> nat \<Rightarrow> u64 \<Rightarrow> u64 \<Rightarrow> u64 list \<Rightarrow> (nat \<times> leave_action) list" where
  "exit_during_call i j p u trace =
     [(j, Acts (Allocates p u trace)), (i, Deletes_Keys), (i, Clears), (i, Finds []), (i, Closes)]"

lemma exit_during_call_run:
  fixes u :: u64 and trace :: "u64 list"
  assumes "sh_code (lv_shared v) = (\<lambda>_. [])" "lv_stage v = Running" "lv_leaver v = None" "lv_bare v = {}"
    and "i \<noteq> j" "p \<noteq> 0" "sh_heap (lv_shared v) p = None"
  defines "t \<equiv> goto j (alloc_code True p trace) (lv_shared v\<lparr>sh_heap := (sh_heap (lv_shared v))(p \<mapsto> u)\<rparr>)"
  shows "\<exists>v'. leave_run v (exit_during_call i j p u trace) v' \<and> lv_shared v' = t \<and> lv_stage v' = Closed \<and> lv_bare v' = {} \<and>
    lv_file v' = lv_file v \<and> lv_astray v' = lv_astray v"
proof -
  have "thread_step (lv_shared v) j (Allocates p u trace) t"
    unfolding t_def using assms(1,6,7) by (intro thread_step.allocates) simp_all
  then have 1: "leave_step v j (Acts (Allocates p u trace)) ((acted v t)\<lparr>lv_misused := lv_misused v \<or> False\<rparr>)"
    using leave_step.acts [of v j "Allocates p u trace" t] assms(2,3) by (simp add: lv_initialized_def uses_deleted_key_def)
  let ?v1 = "(acted v t)\<lparr>lv_misused := lv_misused v \<or> False\<rparr>"
  let ?v2 = "?v1\<lparr>lv_leaver := Some i, lv_stage := Keys_Deleted\<rparr>"
  have "leave_step ?v1 i Deletes_Keys ?v2" using assms(1,2,5) by (intro leave_step.deletes_keys) (simp_all add: t_def)
  moreover have "leave_step ?v2 i Clears (?v2\<lparr>lv_stage := Cleared\<rparr>)" by (intro leave_step.clears) simp_all
  moreover have "leave_step (?v2\<lparr>lv_stage := Cleared\<rparr>) i (Finds []) (?v2\<lparr>lv_stage := Listing []\<rparr>)"
    using leave_step.finds [of "?v2\<lparr>lv_stage := Cleared\<rparr>" i "[]"] by simp
  moreover have "leave_step (?v2\<lparr>lv_stage := Listing []\<rparr>) i Closes (?v2\<lparr>lv_stage := Closed\<rparr>)"
    using leave_step.closes [of "?v2\<lparr>lv_stage := Listing []\<rparr>" i] by simp
  ultimately have "leave_run v (exit_during_call i j p u trace) (?v2\<lparr>lv_stage := Closed\<rparr>)"
    unfolding exit_during_call_def by (intro leaves.run_Cons [OF 1]) (blast intro: leaves.run_Cons leave_run.leave_nil)
  then show ?thesis
    using assms(2,4) by (intro exI [of _ "?v2\<lparr>lv_stage := Closed\<rparr>"]) (simp add: t_def)
qed

text \<open>Two threads have made their calls, and the first leaves.\<close>

definition quiet_exit :: "(nat \<times> leave_action) list" where
  "quiet_exit = map act two_threads @ [(0, Deletes_Keys), (0, Clears), (0, Finds [(4096, 8192)]), (0, Lists)]"

lemma quiet_exit_run:
  "\<exists>v v1. leave_run leave_start quiet_exit v \<and> leave_step v 0 Closes v1 \<and>
    sh_owned (lv_shared v) = {128} \<and> dom (sh_heap (lv_shared v)) = {128}"
proof -
  obtain s where s: "threads_run threads_start two_threads s" "at_rest s" "dom (sh_heap s) = {128}"
    using two_threads_rest by blast
  have owned: "sh_owned s = {128}"
    using rest_blocks [OF blocks_run [OF s(1) blocks_start] s(2)] s(2,3) by (simp add: logged_blocks_def at_rest_def)
  obtain v where v: "leave_run leave_start (map act two_threads) v" "lv_shared v = s" "lv_stage v = Running" "lv_leaver v = None"
    using run_while_leaving [OF s(1), of leave_start] by (auto simp: leave_start_def lv_initialized_def Let_def)
  let ?v1 = "v\<lparr>lv_leaver := Some 0, lv_stage := Keys_Deleted\<rparr>"
  let ?v2 = "?v1\<lparr>lv_stage := Cleared\<rparr>" and ?v3 = "?v1\<lparr>lv_stage := Listing [(4096, 8192)]\<rparr>"
  let ?v4 = "?v1\<lparr>lv_stage := Listing [], lv_file := lv_file v @ [Region_Line (sh_now s) 4096 8192]\<rparr>"
  have "leave_step v 0 Deletes_Keys ?v1" using v s(2) by (intro leave_step.deletes_keys) (simp_all add: at_rest_def)
  moreover have "leave_step ?v1 0 Clears ?v2" using leave_step.clears [of ?v1 0] by simp
  moreover have "leave_step ?v2 0 (Finds [(4096, 8192)]) ?v3" using leave_step.finds [of ?v2 0] by simp
  moreover have "leave_step ?v3 0 Lists ?v4"
    using leave_step.lists [of ?v3 4096 8192 "[]" 0] v(2) rest_free(2) [OF s(1,2)] by simp
  ultimately have "leave_run v [(0, Deletes_Keys), (0, Clears), (0, Finds [(4096, 8192)]), (0, Lists)] ?v4"
    by (blast intro: leaves.run_Cons leave_run.leave_nil)
  then have "leave_run leave_start quiet_exit ?v4" unfolding quiet_exit_def by (rule leaves.run_append [OF v(1)])
  moreover have "leave_step ?v4 0 Closes (?v4\<lparr>lv_stage := Closed\<rparr>)" by (intro leave_step.closes) simp_all
  ultimately show ?thesis using owned s(3) v(2) by (intro exI [of _ ?v4] exI [of _ "?v4\<lparr>lv_stage := Closed\<rparr>"]) simp
qed

lemma thread_actions_act [simp]: "thread_actions (map act ls) = ls" "unrecorded_addresses (map act ls) = {}"
  by (induction ls) (auto simp: act_def)

lemma quiet_exit_plain:
  "list_all (plain_leave \<circ> snd) quiet_exit" "distinct (allocations (thread_actions quiet_exit))"
  "unrecorded_addresses quiet_exit = {}"
proof -
  have "list_all (plain_leave \<circ> snd) (map act ls) = list_all (plain_action \<circ> snd) ls" for ls
    by (induction ls) (auto simp: act_def)
  then show "list_all (plain_leave \<circ> snd) quiet_exit" "distinct (allocations (thread_actions quiet_exit))"
    "unrecorded_addresses quiet_exit = {}"
    using two_threads_plain by (simp_all add: quiet_exit_def MAX_REGION_COUNT_def)
qed

section \<open>Properties\<close>

text \<open>C4: However the other threads go on while one of them leaves the program, the lines of calls in the file are those of an
  ordinary run of the threads that takes part of the same steps in the same order; so records are whole and in order up to the
  moment at which the descriptor is closed.
\<close>

theorem exit_cuts_log:
  assumes "leave_run leave_start ls v"
  shows "\<exists>ls' s. threads_run threads_start ls' s \<and> subseq ls' (thread_actions ls) \<and> call_lines (lv_file v) = sh_log s"
  using recorded_part [OF assms] by (auto simp: follows_def)

theorem exit_cuts_log_witness:
  "\<exists>v ls s. leave_run leave_start quiet_exit v \<and> threads_run threads_start ls s \<and>
    subseq ls (thread_actions quiet_exit) \<and> call_lines (lv_file v) = sh_log s"
proof -
  obtain v where v: "leave_run leave_start quiet_exit v" using quiet_exit_run by blast
  then show ?thesis using exit_cuts_log [OF v] by blast
qed



text \<open>C32: A thread that is in a call while another leaves the program goes on with what has been taken from it: from
  every state of the threads at rest, a block can be allocated so that every line of its record is written to the descriptor of the
  log after that has been closed, so that it is not in the file, and the call resets a key that has been deleted, which
  POSIX leaves undefined.
\<close>

theorem exit_leaves_call_astray:
  assumes "threads_run threads_start ls s" "at_rest s" "i \<noteq> j" "p \<noteq> 0" "sh_heap s p = None"
  shows "\<exists>ls' v. leave_run leave_start (map act ls @ exit_during_call i j p u trace @ ls') v \<and>
    call_lines (lv_file v) = sh_log s \<and> lv_misused v \<and> at_rest (lv_shared v) \<and> p \<in> sh_owned (lv_shared v) \<and>
    map (snd \<circ> snd) (lv_astray v) = Allocated p u # map Framed (frames_in trace)"
proof -
  obtain v where v: "leave_run leave_start (map act ls) v" "lv_shared v = s" "lv_bare v = {}" "lv_stage v = Running"
    "lv_leaver v = None" "lv_file v = map Call_Line (sh_log s)" "lv_astray v = []"
    using run_while_leaving [OF assms(1), of leave_start]
    by (auto simp: leave_start_def lv_initialized_def Let_def threads_start_def)
  let ?t = "goto j (alloc_code True p trace) (s\<lparr>sh_heap := (sh_heap s)(p \<mapsto> u)\<rparr>)"
  have idle: "sh_code s = (\<lambda>_. [])" using assms(2) by (auto simp: at_rest_def)
  obtain v1 where v1: "leave_run v (exit_during_call i j p u trace) v1" "lv_shared v1 = ?t" "lv_stage v1 = Closed"
    "lv_bare v1 = {}" "lv_file v1 = lv_file v" "lv_astray v1 = []"
    using exit_during_call_run [of v i j p u trace] idle v assms(3-5) by auto
  note free = rest_free [OF assms(1,2)]
  obtain t1 where t1: "reaches ?t t1" "sh_code t1 = (sh_code ?t)(j := unwind_code True p trace @ [Give_Back p])"
    "same_blocks ?t t1" "sh_log t1 = sh_log s"
    using alone_update [of ?t j "unwind_code True p trace @ [Give_Back p]" "[]"] free(2)
    by (auto simp: alloc_code_def)
  let ?es = "record_event True p u # map Framed (frames_in trace)"
  let ?t2 = "goto j [Give_Back p] (with_lines j ?es t1)"
  have "reaches t1 ?t2"
    using t1(2,3) free assms(4) by (intro alone_unwind) (auto simp: same_blocks_def usable_size_def)
  then obtain ls1 where ls1: "threads_run ?t ls1 ?t2" "list_all (goes_on \<circ> snd) ls1"
    using reaches_trans [OF t1(1)] by (auto simp: reaches_def)
  then obtain v2 where v2: "leave_run v1 (map act ls1) v2" "lv_shared v2 = ?t2" "lv_stage v2 = Closed" "lv_bare v2 = {}"
    "lv_file v2 = map Call_Line (sh_log s)" "map (snd \<circ> snd) (lv_astray v2) = ?es"
    using run_while_leaving [OF ls1(1) v1(2,4)] v1(3,5,6) v(6) t1(4) by (auto simp: Let_def comp_def)
  let ?t3 = "goto j [] (?t2\<lparr>sh_owned := insert p (sh_owned ?t2)\<rparr>)"
  let ?v3 = "(acted v2 ?t3)\<lparr>lv_misused := lv_misused v2 \<or> uses_deleted_key v2 j (Goes [])\<rparr>"
  have "next_step j [] ?t2 = Some ?t3" using assms(4) by (simp add: next_step_def)
  then have "leave_step v2 j (Acts (Goes [])) ?v3" using v2(2) by (intro leave_step.acts thread_step.goes) simp_all
  then have "leave_run leave_start ((map act ls @ exit_during_call i j p u trace) @ map act ls1 @ [(j, Acts (Goes []))]) ?v3"
    using leaves.run_append [OF v(1) v1(1)] leave_run.leave_snoc [OF v2(1)] leaves.run_append by blast
  moreover have "lv_misused ?v3" using v2(2-4) by (simp add: uses_deleted_key_def)
  moreover have "at_rest ?t3" using t1(2) idle by (simp add: at_rest_def)
  ultimately show ?thesis
    using v2 t1(4) by (intro exI [of _ "map act ls1 @ [(j, Acts (Goes []))]"] exI [of _ ?v3]) (simp add: record_event_def)
qed

theorem exit_leaves_call_astray_witness:
  "\<exists>ls v. leave_run leave_start (map act two_threads @ exit_during_call 0 1 256 24 [1, 2] @ ls) v \<and>
    lv_misused v \<and> 256 \<in> sh_owned (lv_shared v) \<and> map (snd \<circ> snd) (lv_astray v) = [Allocated 256 24, Framed 2]"
proof -
  obtain s where s: "threads_run threads_start two_threads s" "at_rest s" "dom (sh_heap s) = {128}"
    using two_threads_rest by blast
  have "(256::u64) \<notin> dom (sh_heap s)" unfolding s(3) by simp
  then have "sh_heap s 256 = None" by blast
  then obtain ls v where "leave_run leave_start (map act two_threads @ exit_during_call 0 1 256 24 [1, 2] @ ls) v"
    "lv_misused v" "256 \<in> sh_owned (lv_shared v)"
    "map (snd \<circ> snd) (lv_astray v) = Allocated 256 24 # map Framed (frames_in [1, 2])"
    using exit_leaves_call_astray [OF s(1,2), of 0 1 256 24 "[1, 2]"] by auto
  then show ?thesis by (intro exI [of _ ls] exI [of _ v]) (simp add: frames_in_def MAX_BACKTRACE_COUNT_def)
qed

end
