(* ===== verification/Lock_Order.thy ===== *)
theory Lock_Order
  imports Threads_Report
begin

text \<open>
  The order in which the library takes its mutexes, as a linear order on them, and why no threads
  wait for each other in a circle.
\<close>

section \<open>The order\<close>

text \<open>\<open>is_dirty_mutex\<close>, \<open>unwind_mutex\<close> and \<open>tracker_fd_mutex\<close>.\<close>

datatype mutex = Is_Dirty | Unwind | Fd

fun rank :: "mutex \<Rightarrow> nat" where
  "rank Is_Dirty = 0"
| "rank Unwind = 1"
| "rank Fd = 2"

lemma rank_inject: "rank m = rank n \<longleftrightarrow> m = n"
  by (cases m; cases n) simp_all

instantiation mutex :: linorder
begin

definition less_eq_mutex :: "mutex \<Rightarrow> mutex \<Rightarrow> bool" where
  "less_eq_mutex m n \<longleftrightarrow> rank m \<le> rank n"

definition less_mutex :: "mutex \<Rightarrow> mutex \<Rightarrow> bool" where
  "less_mutex m n \<longleftrightarrow> rank m < rank n"

instance
  by standard (auto simp: less_eq_mutex_def less_mutex_def rank_inject)

end

lemmas mutex_order = less_eq_mutex_def less_mutex_def

section \<open>Waiting\<close>

fun holder :: "shared \<Rightarrow> mutex \<Rightarrow> nat option" where
  "holder s Is_Dirty = sh_dirty_mutex s"
| "holder s Unwind = sh_unwind s"
| "holder s Fd = sh_fd s"

text \<open>The mutex that a thread waits for; \<open>pthread_mutex_trylock\<close> does not wait.\<close>

definition waits_for :: "shared \<Rightarrow> nat \<Rightarrow> mutex option" where
  "waits_for s i =
     (case sh_code s i of
        Lock_Unwind # _ \<Rightarrow> if sh_unwind s \<noteq> None then Some Unwind else None
      | Lock_Fd # _ \<Rightarrow> if sh_fd s \<noteq> None then Some Fd else None
      | _ \<Rightarrow> None)"

definition waits_on :: "shared \<Rightarrow> (nat \<times> nat) set" where
  "waits_on s = {(i, j). \<exists>m. waits_for s i = Some m \<and> holder s m = Some j}"

text \<open>A thread that waits holds only mutexes before the one it waits for.\<close>

lemma waits_upwards:
  assumes "locks_typed s" "waits_for s i = Some m" "holder s n = Some i"
  shows "n < m"
proof -
  obtain d where "typed (sh_unwind s = Some i) (sh_fd s = Some i) d (sh_code s i)"
    using assms(1) by (auto simp: locks_typed_def)
  then show ?thesis
    using assms(2,3) by (cases n) (auto simp: waits_for_def mutex_order split: list.splits instr.splits if_splits)
qed

lemma waits_acyclic:
  assumes "locks_typed s"
  shows "acyclic (waits_on s)"
proof -
  let ?level = "\<lambda>i. case waits_for s i of None \<Rightarrow> 3 | Some m \<Rightarrow> rank m"
  have "rank m < 3" for m by (cases m) simp_all
  then have "waits_on s \<subseteq> measure ?level"
    using waits_upwards [OF assms] by (auto simp: waits_on_def mutex_order split: option.split)
  then show ?thesis by (meson wf_acyclic wf_measure wf_subset)
qed

text \<open>A call that cannot go on waits for a mutex, or is about a block that is not allocated.\<close>

lemma stuck_waits:
  assumes "next_step i ms s = None" "sh_code s i \<noteq> []"
  shows "waits_for s i \<noteq> None \<or> (\<exists>p. p \<noteq> 0 \<and> sh_heap s p = None \<and>
    (hd (sh_code s i) = Libc_Free p \<or> (\<exists>b. hd (sh_code s i) = Measure b p)))"
  using assms
  by (cases "sh_code s i"; cases "hd (sh_code s i)")
    (auto simp: next_step_def waits_for_def usable_size_def split: if_splits)

section \<open>Properties\<close>

text \<open>C13: Threads take the mutexes of the library in one order, \<open>is_dirty_mutex\<close>, \<open>unwind_mutex\<close>, \<open>tracker_fd_mutex\<close>: in every
  state that several threads reach, a thread that waits for one holds only earlier ones, also where an update that
  found nothing new has left \<open>is_dirty_mutex\<close> locked; so no threads wait for each other in a circle.
\<close>

theorem no_circular_wait:
  assumes "threads_run threads_start ls s"
  shows "(\<forall>i m n. waits_for s i = Some m \<longrightarrow> holder s n = Some i \<longrightarrow> n < m) \<and> acyclic (waits_on s)"
  using waits_upwards waits_acyclic typed_run [OF assms typed_start] by blast

theorem no_circular_wait_witness:
  "\<exists>ls s. threads_run threads_start ls s \<and> (1, 0) \<in> waits_on s \<and> acyclic (waits_on s)"
proof -
  let ?ls = "[(0, Allocates 64 24 [1]), (1, Allocates 128 8 []), (0, Goes []), (1, Goes []), (0, Goes []), (0, Goes []), (0, Goes [])]"
  obtain s where s: "run_schedule ?ls threads_start = Some s" "(1, 0) \<in> waits_on s"
    by (simp add: threads_start_def next_step_def goto_def alloc_code_def unwind_code_def waits_on_def waits_for_def)
  then have run: "threads_run threads_start ?ls s" by (intro run_schedule_run)
  then show ?thesis using no_circular_wait [OF run] s(2) by blast
qed

end
