(* ===== verification/Lifecycle.thy ===== *)
theory Lifecycle
  imports Preload
begin

text \<open>
  The life of a process that the library is loaded into: what its constructor, its functions,
  the handlers of \<open>fork\<close> and its destructor (all in \<open>src/preload.c\<close>) do one after
  the other, in any order the program or the loader brings about, as a step relation on the state of
  \<open>Preload\<close>; and the automaton of four phases that this refines.
\<close>

section \<open>Steps\<close>

datatype event = Loaded | Called request u64 | Forked_Parent | Forked_Child | Unloaded

text \<open>
  The handlers of \<open>fork\<close> and of the end are registered by the initialisation. A call may come
  before the constructor has run, from the constructor of another library.
\<close>

inductive life_step :: "system \<Rightarrow> process \<Rightarrow> event \<Rightarrow> process \<Rightarrow> bool" for sy where
  load: "jm_preload_init sy st = Ok st' \<Longrightarrow> life_step sy st Loaded st'"
| call: "api_call sy c st = Ok (v, st') \<Longrightarrow> life_step sy st (Called (request_of c) v) st'"
| fork_parent: "pr_init_once st \<Longrightarrow>
    life_step sy st Forked_Parent (jm_preload_atfork_parent (jm_preload_atfork_prepare st))"
| fork_child: "pr_init_once st \<Longrightarrow> jm_preload_atfork_child sy (jm_preload_atfork_prepare st) = Ok st' \<Longrightarrow>
    life_step sy st Forked_Child st'"
| unload: "pr_init_once st \<Longrightarrow> jm_preload_deinit sy st = Ok st' \<Longrightarrow> life_step sy st Unloaded st'"

inductive_cases load_cases: "life_step sy st Loaded st'"
inductive_cases call_cases: "life_step sy st (Called r v) st'"
inductive_cases fork_parent_cases: "life_step sy st Forked_Parent st'"
inductive_cases fork_child_cases: "life_step sy st Forked_Child st'"
inductive_cases unload_cases: "life_step sy st Unloaded st'"

inductive_simps fork_parent_iff: "life_step sy st Forked_Parent st'"

inductive reachable :: "system \<Rightarrow> process \<Rightarrow> bool" for sy where
  start: "reachable sy initial_process"
| step: "reachable sy st \<Longrightarrow> life_step sy st e st' \<Longrightarrow> reachable sy st'"

section \<open>Phases\<close>

text \<open>
  Nothing has run yet; calls are recorded; the keys are deleted and calls go through unrecorded;
  and the state a fork after the end leaves in the parent, which records without keys.
\<close>

datatype phase = Pristine | Recording | Ended | Revived

definition phase_of :: "process \<Rightarrow> phase" where
  "phase_of st =
     (if \<not> pr_init_once st then Pristine
      else if \<not> pr_deinit_once st then Recording
      else if pr_is_initialized st then Revived else Ended)"

text \<open>\<open>None\<close> for an event that cannot happen, since the call behind it has no defined result.\<close>

fun next_phase :: "phase \<Rightarrow> event \<Rightarrow> phase option" where
  "next_phase Pristine Loaded = Some Recording"
| "next_phase Pristine (Called r v) = Some Recording"
| "next_phase Pristine e = None"
| "next_phase Recording Forked_Child = Some Ended"
| "next_phase Recording Unloaded = Some Ended"
| "next_phase Recording e = Some Recording"
| "next_phase Ended Forked_Parent = Some Revived"
| "next_phase Ended e = Some Ended"
| "next_phase Revived Forked_Child = Some Ended"
| "next_phase Revived (Called r v) = (if r = Dlopen \<or> r = Dlclose then Some Revived else None)"
| "next_phase Revived e = Some Revived"

definition no_keys :: "process \<Rightarrow> bool" where
  "no_keys st \<longleftrightarrow> pr_calloc_key st = No_Key \<and> pr_malloc_key st = No_Key \<and>
     pr_realloc_key st = No_Key \<and> pr_free_key st = No_Key"

text \<open>The invariant of each phase.\<close>

definition phase_inv :: "process \<Rightarrow> bool" where
  "phase_inv st \<longleftrightarrow>
     (case phase_of st of
        Pristine \<Rightarrow> st = initial_process
      | Recording \<Rightarrow> running st \<and> tk_init_once (pr_tracker st)
      | _ \<Rightarrow> resolved st \<and> no_keys st \<and> \<not> pr_unwind_mutex st \<and> \<not> tk_fd_mutex (pr_tracker st) \<and>
          tk_init_once (pr_tracker st) \<and> tk_deinit_once (pr_tracker st))"

lemma phase_inv_iff: "phase_inv st \<longleftrightarrow>
    (if \<not> pr_init_once st then st = initial_process
     else if \<not> pr_deinit_once st then running st \<and> tk_init_once (pr_tracker st)
     else resolved st \<and> no_keys st \<and> \<not> pr_unwind_mutex st \<and> \<not> tk_fd_mutex (pr_tracker st) \<and>
       tk_init_once (pr_tracker st) \<and> tk_deinit_once (pr_tracker st))"
  by (auto simp: phase_inv_def phase_of_def)

section \<open>Each step keeps the invariant\<close>

lemma shape_phase:
  assumes "shape st' = shape st" "pr_init_once st"
  shows "phase_of st' = phase_of st" "phase_inv st' \<longleftrightarrow> phase_inv st"
proof -
  show p: "phase_of st' = phase_of st" using assms(1) by (simp add: shape_def phase_of_def)
  have "phase_of st \<noteq> Pristine" using assms(2) by (simp add: phase_of_def)
  then show "phase_inv st' \<longleftrightarrow> phase_inv st"
    using assms(1) shape_running [OF assms(1)] shape_resolved [OF assms(1)]
    by (cases "phase_of st") (auto simp: phase_inv_def p no_keys_def shape_def)
qed

lemma tracker_init_frame:
  assumes "jm_tracker_init w tk = Ok tk'"
  shows "tk_init_once tk'" "tk_fd_mutex tk' = tk_fd_mutex tk" "tk_stm tk' = tk_stm tk"
    "tk_deinit_once tk' = tk_deinit_once tk"
  using assms fprintf_frame
  by (fastforce simp: jm_tracker_init_def tracker_open_def and_then_Ok_iff split: if_splits)+

lemma print_regions_frame:
  "print_regions w rs tk = Ok tk' \<Longrightarrow> tk_fd_mutex tk' = tk_fd_mutex tk \<and> tk_deinit_once tk' = tk_deinit_once tk \<and>
     tk_init_once tk' = tk_init_once tk"
proof (induction rs arbitrary: tk)
  case (Cons r rs)
  then obtain t where "print_region w r tk = Ok t" "print_regions w rs t = Ok tk'"
    by (auto simp: and_then_Ok_iff)
  then show ?case using Cons.IH fprintf_frame by (fastforce simp: print_region_def)
qed simp

lemma tracker_deinit_frame:
  assumes "jm_tracker_deinit w tk = Ok tk'"
  shows "tk_deinit_once tk'" "tk_fd_mutex tk' = tk_fd_mutex tk" "tk_init_once tk' = tk_init_once tk"
  using assms print_regions_frame
  by (fastforce simp: jm_tracker_deinit_def tracker_close_def and_then_Ok_iff split: if_splits prod.splits)+

lemma init_from_fresh:
  assumes "plain_system sy" "jm_preload_init sy initial_process = Ok st"
  shows "running st" "phase_of st = Recording" "phase_inv st"
proof -
  let ?st = "initial_process\<lparr>pr_init_once := True\<rparr>"
  obtain s tk where s: "preload_setup sy ?st = Ok s" "jm_tracker_init (sy_world sy) (pr_tracker s) = Ok tk"
    "st = s\<lparr>pr_tracker := tk\<rparr>"
    using assms(2) by (auto simp: jm_preload_init_def and_then_Ok_iff lift_tracker_def initial_process_def)
  have run: "running s" "pr_init_once s" "\<not> pr_deinit_once s"
    using s(1) assms(1)
    by (auto simp: preload_setup_def plain_system_def jm_preload_calloc_init_def jm_preload_malloc_init_def
      jm_preload_realloc_init_def jm_preload_free_init_def jm_preload_dlopen_init_def
      jm_preload_dlclose_init_def resolve_def running_def tracker_ok_def stm_setup_def
      initial_process_def initial_tracker_def)
  note tk = tracker_init_frame [OF s(2)]
  show "running st" using run(1) s(3) tk by (simp add: running_def tracker_ok_def)
  then show "phase_of st = Recording" "phase_inv st"
    using run(2,3) s(3) tk by (auto simp: phase_of_def phase_inv_iff)
qed

lemma load_step:
  assumes "plain_system sy" "phase_inv st" "jm_preload_init sy st = Ok st'"
  shows "phase_inv st' \<and> next_phase (phase_of st) Loaded = Some (phase_of st')"
proof (cases "phase_of st")
  case Pristine
  then have "st = initial_process" using assms(2) by (simp add: phase_inv_def)
  then show ?thesis using init_from_fresh [OF assms(1)] assms(3) Pristine by simp
next
  case Recording
  then have "st' = st" using assms(2,3)
    by (auto simp: phase_inv_iff phase_of_def jm_preload_init_def lift_tracker_def jm_tracker_init_def split: if_splits)
  then show ?thesis using assms(2) Recording by simp
next
  case Ended
  then have "st' = st" using assms(2,3)
    by (auto simp: phase_inv_iff phase_of_def jm_preload_init_def lift_tracker_def jm_tracker_init_def split: if_splits)
  then show ?thesis using assms(2) Ended by simp
next
  case Revived
  then have "st' = st" using assms(2,3)
    by (auto simp: phase_inv_iff phase_of_def jm_preload_init_def lift_tracker_def jm_tracker_init_def split: if_splits)
  then show ?thesis using assms(2) Revived by simp
qed

text \<open>In the revived phase a call of the allocator reaches for a deleted key.\<close>

lemma keyless_call:
  assumes "resolved st" "pr_is_initialized st" "no_keys st" "request_of c \<noteq> Dlopen" "request_of c \<noteq> Dlclose"
  shows "run_call init w c st = Fail Undefined_Behaviour"
proof -
  obtain r result usable trace nested where c: "c = Call r result usable trace nested" by (cases c)
  have "guarded r body st = Fail Undefined_Behaviour" for body
    using assms(2,3) by (cases r) (simp_all add: guarded_def no_keys_def)
  then show ?thesis
    using assms(1,4,5) by (cases r) (simp_all add: c request_of_def preload_calloc_def
        preload_malloc_def preload_realloc_def preload_free_def)
qed

lemma resolved_call:
  assumes "resolved st" "pr_init_once st" "phase_inv st" "run_call init w c st = Ok (v, st')"
  shows "phase_inv st' \<and> next_phase (phase_of st) (Called (request_of c) v) = Some (phase_of st')"
proof -
  have "shape st' = shape st" using run_call_shape(1) assms(1,4) by blast
  note same = shape_phase [OF this assms(2)]
  have "request_of c = Dlopen \<or> request_of c = Dlclose" if "phase_of st = Revived"
    using that keyless_call [OF assms(1)] assms(3,4) by (fastforce simp: phase_inv_iff phase_of_def split: if_splits)
  then show ?thesis
    using same assms(2,3) by (cases "phase_of st") (auto simp: phase_of_def split: if_splits)
qed

lemma call_step:
  assumes "plain_system sy" "phase_inv st" "api_call sy c st = Ok (v, st')"
  shows "phase_inv st' \<and> next_phase (phase_of st) (Called (request_of c) v) = Some (phase_of st')"
proof (cases "phase_of st = Pristine")
  case True
  then have st: "st = initial_process" using assms(2) by (simp add: phase_inv_def)
  obtain r result usable trace nested where c: "c = Call r result usable trace nested" by (cases c)
  have "ensure_init (jm_preload_init sy) r st = jm_preload_init sy st"
    by (cases r) (simp_all add: ensure_init_def st initial_process_def)
  then obtain s where s: "jm_preload_init sy st = Ok s"
    "run_call (jm_preload_init sy) (sy_world sy) c s = Ok (v, st')"
    using assms(3) init_from_fresh(1) [OF assms(1)] st
    by (auto simp: api_call_def c and_then_Ok_iff running_iff)
  note fresh = init_from_fresh [OF assms(1) s(1) [unfolded st]]
  have "pr_init_once s" "resolved s" using fresh(1,2) by (auto simp: phase_of_def running_iff split: if_splits)
  then show ?thesis using resolved_call [OF _ _ fresh(3) s(2)] fresh(2) True by simp
next
  case False
  then have "resolved st" "pr_init_once st"
    using assms(2) by (auto simp: phase_inv_iff phase_of_def running_iff split: if_splits)
  then show ?thesis using resolved_call [OF _ _ assms(2)] assms(3) by (simp add: api_call_def)
qed

lemma fork_parent_step:
  assumes "phase_inv st" "pr_init_once st"
  defines "st' \<equiv> jm_preload_atfork_parent (jm_preload_atfork_prepare st)"
  shows "phase_inv st' \<and> next_phase (phase_of st) Forked_Parent = Some (phase_of st')"
  unfolding st'_def using assms(1,2)
  by (auto simp: phase_inv_iff phase_of_def jm_preload_atfork_parent_def jm_preload_atfork_prepare_def
      running_def resolved_def no_keys_def)

text \<open>The end, from a state in which recording may have been switched off by \<open>fork\<close>.\<close>

lemma deinit_step:
  assumes "phase_inv st" "pr_init_once st" "jm_preload_deinit sy (st\<lparr>pr_is_initialized := b\<rparr>) = Ok st'"
  shows "phase_inv st'"
    and "phase_of st' = (if phase_of st = Recording then Ended else phase_of (st\<lparr>pr_is_initialized := b\<rparr>))"
proof -
  let ?st = "st\<lparr>pr_is_initialized := b\<rparr>"
  have "phase_inv st' \<and> phase_of st' = (if phase_of st = Recording then Ended else phase_of ?st)"
  proof (cases "pr_deinit_once st")
    case True
    then have "tk_deinit_once (pr_tracker st)"
      using assms(1,2) by (auto simp: phase_inv_iff phase_of_def split: if_splits)
    then have "st' = ?st"
      using assms(3) True by (auto simp: jm_preload_deinit_def lift_tracker_def jm_tracker_deinit_def)
    then show ?thesis
      using True assms(1,2) by (auto simp: phase_inv_iff phase_of_def resolved_def no_keys_def)
  next
    case False
    then have run: "running st" "tk_init_once (pr_tracker st)"
      using assms(1,2) by (auto simp: phase_inv_iff phase_of_def)
    let ?s = "?st\<lparr>pr_deinit_once := True, pr_calloc_key := No_Key, pr_malloc_key := No_Key,
        pr_realloc_key := No_Key, pr_free_key := No_Key, pr_is_initialized := False\<rparr>"
    have "preload_teardown (?st\<lparr>pr_deinit_once := True\<rparr>) = Ok ?s"
      using run(1) by (simp add: preload_teardown_def delete_key_def running_def)
    then obtain tk where tk: "jm_tracker_deinit (sy_world sy) (pr_tracker ?s) = Ok tk" "st' = ?s\<lparr>pr_tracker := tk\<rparr>"
      using assms(3) False by (auto simp: jm_preload_deinit_def lift_tracker_def and_then_Ok_iff)
    show ?thesis
      using tracker_deinit_frame [OF tk(1)] tk(2) run False assms(2)
      by (simp add: phase_inv_def phase_of_def running_def resolved_def no_keys_def tracker_ok_def)
  qed
  then show "phase_inv st'" "phase_of st' = (if phase_of st = Recording then Ended else phase_of ?st)"
    by auto
qed

lemma step_phase:
  assumes "plain_system sy" "phase_inv st" "life_step sy st e st'"
  shows "phase_inv st' \<and> next_phase (phase_of st) e = Some (phase_of st')"
  using assms(3)
proof cases
  case load
  then show ?thesis using load_step [OF assms(1,2)] by simp
next
  case (call c v)
  then show ?thesis using call_step [OF assms(1,2)] by simp
next
  case fork_parent
  then show ?thesis using fork_parent_step [OF assms(2)] by simp
next
  case fork_child
  then show ?thesis
    using deinit_step [OF assms(2), of sy False st']
    by (cases "phase_of st") (auto simp: jm_preload_atfork_child_def jm_preload_atfork_prepare_def phase_of_def
        split: if_splits)
next
  case unload
  then show ?thesis
    using deinit_step [OF assms(2), of sy "pr_is_initialized st" st']
    by (cases "phase_of st") (auto simp: phase_of_def split: if_splits)
qed

lemma reachable_inv:
  assumes "plain_system sy" "reachable sy st"
  shows "phase_inv st"
  using assms(2)
proof induction
  case start
  show ?case by (simp add: phase_inv_def phase_of_def initial_process_def)
next
  case (step st e st')
  then show ?case using step_phase [OF assms(1)] by blast
qed

section \<open>Properties\<close>

lemma reachable_loaded:
  "\<exists>st. life_step quiet_system initial_process Loaded st \<and> reachable quiet_system st \<and>
     running st \<and> phase_of st = Recording"
proof -
  obtain st where st: "jm_preload_init quiet_system initial_process = Ok st"
    using init_running [OF quiet_plain, of "''/bin/app''"] by (auto simp: quiet_system_def quiet_world_def)
  then have "life_step quiet_system initial_process Loaded st" by (rule load)
  moreover from this have "reachable quiet_system st" by (rule step [OF start])
  ultimately show ?thesis using init_from_fresh [OF quiet_plain st] by blast
qed

text \<open>C24: In every state that a process reaches, by loading and unloading the library, calls, and
  forks followed on either side, in any order: between two steps neither lock is held, no guard is set, the keys
  exist exactly while calls are recorded, and all functions of the C library are resolved once the
  library has been initialised.
\<close>

theorem lifecycle_safe:
  assumes "plain_system sy" "reachable sy st"
  shows "\<not> pr_unwind_mutex st \<and> \<not> tk_fd_mutex (pr_tracker st) \<and>
    (if phase_of st = Recording
     then (pr_calloc_key st, pr_malloc_key st, pr_realloc_key st, pr_free_key st) =
       (Key False, Key False, Key False, Key False) \<and> pr_is_initialized st
     else no_keys st) \<and> (resolved st \<longleftrightarrow> phase_of st \<noteq> Pristine)"
  using reachable_inv [OF assms]
  by (auto simp: phase_inv_iff phase_of_def running_iff tracker_ok_def no_keys_def initial_process_def
      initial_tracker_def resolved_def split: if_splits)

theorem lifecycle_safe_witness:
  "\<exists>st. reachable quiet_system st \<and> phase_of st = Recording \<and> \<not> pr_unwind_mutex st \<and> resolved st"
proof -
  obtain st where "reachable quiet_system st" "phase_of st = Recording" using reachable_loaded by blast
  then show ?thesis using lifecycle_safe [OF quiet_plain, of st] by (intro exI [of _ st]) simp
qed

text \<open>C25: Every step of a process is a step of the automaton of the four phases: the library is
  initialised once, recording ends for good in the forked child and at unloading, and a fork in
  the parent after that brings about the revived phase, in which only \<open>dlopen\<close> and \<open>dlclose\<close> return.
\<close>

theorem lifecycle_refines_phases:
  assumes "plain_system sy" "reachable sy st" "life_step sy st e st'"
  shows "next_phase (phase_of st) e = Some (phase_of st')"
  using step_phase [OF assms(1) reachable_inv [OF assms(1,2)] assms(3)] by blast

theorem lifecycle_refines_phases_witness:
  "\<exists>st. life_step quiet_system st Forked_Parent (jm_preload_atfork_parent (jm_preload_atfork_prepare st)) \<and>
     phase_of (jm_preload_atfork_parent (jm_preload_atfork_prepare st)) = Recording"
proof -
  obtain st where st: "reachable quiet_system st" "phase_of st = Recording" using reachable_loaded by blast
  then have step: "life_step quiet_system st Forked_Parent (jm_preload_atfork_parent (jm_preload_atfork_prepare st))"
    by (simp add: fork_parent_iff phase_of_def split: if_splits)
  then show ?thesis using lifecycle_refines_phases [OF quiet_plain st(1) step] st(2) by auto
qed

text \<open>What a call of the allocator does in the phases in which nothing should be recorded: once
  recording has ended, in a forked child or after unloading, it returns what the C library
  returned and changes nothing; in the revived phase it uses a deleted key.
\<close>

theorem calls_by_phase:
  assumes "plain_system sy" "reachable sy st" "request_of c \<noteq> Dlopen" "request_of c \<noteq> Dlclose"
    and "phase_of st \<in> {Ended, Revived}"
  shows "api_call sy c st =
    (if phase_of st = Ended then Ok (result_of c, st) else Fail Undefined_Behaviour)"
proof -
  have inv: "resolved st" "no_keys st" "pr_is_initialized st \<longleftrightarrow> phase_of st = Revived"
    using reachable_inv [OF assms(1,2)] assms(5) by (auto simp: phase_inv_iff phase_of_def split: if_splits)
  show ?thesis
    using uninitialized_call [OF inv(1) _ assms(3,4)] keyless_call [OF inv(1) _ inv(2) assms(3,4)] inv(3) assms(5)
    by (auto simp: api_call_def)
qed

lemma reachable_ended: "\<exists>st. reachable quiet_system st \<and> phase_of st = Ended"
proof -
  obtain st where st: "reachable quiet_system st" "running st" "phase_of st = Recording"
    using reachable_loaded by blast
  have "scan_rows n [] hs = Ok hs" for n hs by (simp add: scan_rows_nil)
  then have "\<exists>tk'. jm_tracker_deinit quiet_world tk = Ok tk'" for tk
    by (auto simp: jm_tracker_deinit_def tracker_close_def find_heap_regions_def quiet_world_def)
  then obtain tk where "jm_tracker_deinit quiet_world (pr_tracker st) = Ok tk" by blast
  moreover have "running (st\<lparr>pr_deinit_once := True\<rparr>)" "\<not> pr_deinit_once st"
    using st(2,3) by (auto simp: running_def phase_of_def split: if_splits)
  ultimately obtain st' where "jm_preload_deinit quiet_system st = Ok st'"
    using teardown_running [of "st\<lparr>pr_deinit_once := True\<rparr>"]
    by (auto simp: jm_preload_deinit_def lift_tracker_def quiet_system_def)
  then have step: "life_step quiet_system st Unloaded st'"
    using st(3) by (intro unload) (auto simp: phase_of_def split: if_splits)
  then have "phase_of st' = Ended"
    using step_phase [OF quiet_plain reachable_inv [OF quiet_plain st(1)] step] st(3) by simp
  then show ?thesis using reachable.step [OF st(1) step] by blast
qed

theorem calls_by_phase_witness:
  "\<exists>st. phase_of st = Ended \<and> api_call quiet_system (Call (Malloc 8) 64 24 [] []) st = Ok (64, st)"
proof -
  obtain st where st: "reachable quiet_system st" "phase_of st = Ended" using reachable_ended by blast
  then show ?thesis
    using calls_by_phase [OF quiet_plain st(1), of "Call (Malloc 8) 64 24 [] []"]
    by (auto simp: request_of_def result_of_def)
qed

end
