(* ===== verification/Perfmon.thy ===== *)
theory Perfmon
  imports Tracker
begin

text \<open>
  The second program of the repository, \<open>src/perfmon.c\<close>, which opens a group of performance counters,
  enables them and closes them again. The kernel and \<open>libpfm\<close> are a parameter: what they answer may
  depend on every call made before, so the state keeps the calls in order.
\<close>

section \<open>Calls of the system\<close>

text \<open>
  \<open>struct perf_event_attr\<close>, with the fields the program sets by name and all others in one;
  \<open>attr_size\<close> of the kernel below is its size in the headers of the system.
\<close>

record perf_event_attr =
  pa_type :: u32
  pa_size :: u32
  pa_config :: u64
  pa_sample_type :: u64
  pa_read_format :: u64
  pa_exclude_kernel :: bool
  pa_exclude_hv :: bool
  pa_others :: nat

datatype os_call =
    Pfm_Initialize
  | Pfm_Terminate
  | Perf_Event_Open perf_event_attr int int int u64
  | Ioctl_Id int
  | Ioctl_Reset int u64
  | Ioctl_Enable int u64
  | Ioctl_Disable int u64
  | Fcntl_Getfd int
  | Close int

record kernel =
  attr_size :: u32
  answer :: "os_call list \<Rightarrow> os_call \<Rightarrow> int"
  event_id :: "os_call list \<Rightarrow> int \<Rightarrow> u64 option"
  pfm_get_os_event_encoding :: "string \<Rightarrow> perf_event_attr \<Rightarrow> int \<times> perf_event_attr"
  stack_attr :: "nat \<Rightarrow> perf_event_attr"
  errno_message :: "os_call list \<Rightarrow> string"

record event_counter =
  ec_fd :: int
  ec_id :: u64
  ec_name :: string

record perfmon =
  pm_counters :: "event_counter list"
  pm_calls :: "os_call list"

definition syscall :: "kernel \<Rightarrow> os_call \<Rightarrow> perfmon \<Rightarrow> int \<times> perfmon" where
  "syscall k c s = (answer k (pm_calls s) c, s\<lparr>pm_calls := pm_calls s @ [c]\<rparr>)"

section \<open>The program\<close>

definition counters :: "event_counter list" where
  "counters =
     [\<lparr>ec_fd = - 1, ec_id = 0, ec_name = ''LLC_MISSES:u''\<rparr>,
      \<lparr>ec_fd = - 1, ec_id = 0, ec_name = ''MEM_LOAD_RETIRED:L3_MISS:u''\<rparr>]"

definition perfmon_start :: perfmon where
  "perfmon_start = \<lparr>pm_counters = counters, pm_calls = []\<rparr>"

definition PERF_TYPE_MAX :: u32 where "PERF_TYPE_MAX = 6"
definition PFM_SUCCESS :: int where "PFM_SUCCESS = 0"
definition PERF_FLAG_FD_CLOEXEC :: u64 where "PERF_FLAG_FD_CLOEXEC = 8"
definition PERF_IOC_FLAG_GROUP :: u64 where "PERF_IOC_FLAG_GROUP = 1"

text \<open>\<open>PERF_SAMPLE_IP | PERF_SAMPLE_TIME | PERF_SAMPLE_ADDR | ...\<close> and \<open>PERF_FORMAT_ID | ...\<close>.\<close>

definition wanted_samples :: u64 where
  "wanted_samples = 2 ^ 0 OR 2 ^ 2 OR 2 ^ 3 OR 2 ^ 14 OR 2 ^ 19"

definition wanted_format :: u64 where
  "wanted_format = 2 ^ 2 OR 2 ^ 3"

definition zeroed_attr :: "kernel \<Rightarrow> perf_event_attr" where
  "zeroed_attr k =
     \<lparr>pa_type = 0, pa_size = attr_size k, pa_config = 0, pa_sample_type = wanted_samples,
      pa_read_format = wanted_format, pa_exclude_kernel = True, pa_exclude_hv = True, pa_others = 0\<rparr>"

text \<open>Pointers to the name and to the result, which is what the memory holds afterwards.\<close>

fun jm_perfmon_get_event_attr ::
    "kernel \<Rightarrow> string option \<Rightarrow> perf_event_attr option \<Rightarrow> perf_event_attr option" where
  "jm_perfmon_get_event_attr k None attr = attr"
| "jm_perfmon_get_event_attr k (Some str) None = None"
| "jm_perfmon_get_event_attr k (Some str) (Some attr) =
     (let attr = attr\<lparr>pa_type := PERF_TYPE_MAX\<rparr>;
          (ret, hw_event) = pfm_get_os_event_encoding k str (zeroed_attr k)
      in if ret \<noteq> PFM_SUCCESS then Some attr else Some hw_event)"

text \<open>The attributes that counter \<open>i\<close> is opened with: \<open>hw_event\<close> is not initialised before.\<close>

definition event_attr :: "kernel \<Rightarrow> nat \<Rightarrow> string \<Rightarrow> perf_event_attr" where
  "event_attr k i name = the (jm_perfmon_get_event_attr k (Some name) (Some (stack_attr k i)))"

definition set_counter :: "nat \<Rightarrow> (event_counter \<Rightarrow> event_counter) \<Rightarrow> perfmon \<Rightarrow> perfmon" where
  "set_counter i f s = s\<lparr>pm_counters := (pm_counters s)[i := f (pm_counters s ! i)]\<rparr>"

text \<open>One round of the loop of \<open>jm_perfmon_init\<close>; \<open>False\<close> for its \<open>return false\<close>.\<close>

definition open_counter :: "kernel \<Rightarrow> nat \<Rightarrow> perfmon \<Rightarrow> bool \<times> perfmon" where
  "open_counter k i s =
     (let hw_event = event_attr k i (ec_name (pm_counters s ! i));
          group_fd = (if 0 < i then ec_fd (pm_counters s ! 0) else - 1);
          (fd, s) = syscall k (Perf_Event_Open hw_event 0 (- 1) group_fd PERF_FLAG_FD_CLOEXEC) s;
          s = set_counter i (\<lambda>c. c\<lparr>ec_fd := fd\<rparr>) s
      in if fd < 0 then (False, s)
         else
           (let id = event_id k (pm_calls s) fd;
                (_, s) = syscall k (Ioctl_Id fd) s
            in (True, set_counter i (\<lambda>c. c\<lparr>ec_id := (case id of None \<Rightarrow> ec_id c | Some n \<Rightarrow> n)\<rparr>) s)))"

fun open_counters :: "kernel \<Rightarrow> nat list \<Rightarrow> perfmon \<Rightarrow> bool \<times> perfmon" where
  "open_counters k [] s = (True, s)"
| "open_counters k (i # js) s =
     (case open_counter k i s of
        (False, s) \<Rightarrow> (False, s)
      | (True, s) \<Rightarrow> open_counters k js s)"

definition jm_perfmon_init :: "kernel \<Rightarrow> perfmon \<Rightarrow> bool \<times> perfmon" where
  "jm_perfmon_init k s =
     (let (_, s) = syscall k Pfm_Initialize s
      in case open_counters k [0..<length (pm_counters s)] s of
           (False, s) \<Rightarrow> (False, s)
         | (True, s) \<Rightarrow>
             (let (_, s) = syscall k (Ioctl_Reset (ec_fd (pm_counters s ! 0)) PERF_IOC_FLAG_GROUP) s;
                  (_, s) = syscall k (Ioctl_Enable (ec_fd (pm_counters s ! 0)) PERF_IOC_FLAG_GROUP) s
              in (True, s)))"

fun close_counters :: "kernel \<Rightarrow> int list \<Rightarrow> perfmon \<Rightarrow> bool \<times> perfmon" where
  "close_counters k [] s = (True, s)"
| "close_counters k (fd # fds) s =
     (let (valid, s) = syscall k (Fcntl_Getfd fd) s
      in if valid < 0 then close_counters k fds s
         else
           (let (_, s) = syscall k (Ioctl_Disable fd PERF_IOC_FLAG_GROUP) s;
                (closed, s) = syscall k (Close fd) s
            in if closed < 0 then (False, s) else close_counters k fds s))"

definition jm_perfmon_deinit :: "kernel \<Rightarrow> perfmon \<Rightarrow> bool \<times> perfmon" where
  "jm_perfmon_deinit k s =
     (let (_, s) = syscall k Pfm_Terminate s
      in close_counters k (map ec_fd (pm_counters s)) s)"

text \<open>The function that is to read the counters is still empty, and not called.\<close>

definition jm_perfmon_read_events :: "perfmon \<Rightarrow> perfmon" where
  "jm_perfmon_read_events s = s"

text \<open>The loop over the message of the error: \<open>tolower\<close> in the \<open>C\<close> locale.\<close>

definition tolower :: "char \<Rightarrow> char" where
  "tolower c = (if of_char c \<in> {65..90 :: nat} then char_of (of_char c + 32 :: nat) else c)"

fun lower_loop :: "string \<Rightarrow> string" where
  "lower_loop [] = []"
| "lower_loop (c # cs) =
     (if c = NUL then c # cs
      else if tolower c = NUL then tolower c # cs else tolower c # lower_loop cs)"

text \<open>The exit status, what is printed to \<open>stderr\<close>, and the state.\<close>

definition perfmon_main :: "kernel \<Rightarrow> string \<Rightarrow> int \<times> string \<times> perfmon" where
  "perfmon_main k argv0 =
     (case jm_perfmon_init k perfmon_start of
        (False, s) \<Rightarrow>
          (let buffer = take (MAX_BUFFER_SIZE - 1) (errno_message k (pm_calls s))
           in (1, argv0 @ '': error: jm_perfmon_init(): '' @ lower_loop buffer @ [CHR 0x0A], s))
      | (True, s) \<Rightarrow> (0, [], snd (jm_perfmon_deinit k s)))"

section \<open>Descriptors\<close>

text \<open>The descriptors that the calls so far have opened and not closed.\<close>

definition after_call :: "kernel \<Rightarrow> os_call list \<Rightarrow> os_call \<Rightarrow> int list \<Rightarrow> int list" where
  "after_call k past c fds =
     (case c of
        Perf_Event_Open _ _ _ _ _ \<Rightarrow> if 0 \<le> answer k past c then answer k past c # fds else fds
      | Close fd \<Rightarrow> if answer k past c = 0 then removeAll fd fds else fds
      | _ \<Rightarrow> fds)"

fun descriptors_from :: "kernel \<Rightarrow> os_call list \<Rightarrow> os_call list \<Rightarrow> int list \<Rightarrow> int list" where
  "descriptors_from k past [] fds = fds"
| "descriptors_from k past (c # cs) fds = descriptors_from k (past @ [c]) cs (after_call k past c fds)"

definition descriptors :: "kernel \<Rightarrow> os_call list \<Rightarrow> int list" where
  "descriptors k calls = descriptors_from k [] calls []"

lemma descriptors_from_snoc:
  "descriptors_from k past (cs @ [c]) fds = after_call k (past @ cs) c (descriptors_from k past cs fds)"
  by (induction cs arbitrary: past fds) simp_all

lemma descriptors_simps [simp]:
  "descriptors k [] = []"
  "descriptors k (cs @ [c]) = after_call k cs c (descriptors k cs)"
  by (simp_all add: descriptors_def descriptors_from_snoc)

text \<open>
  What POSIX says of descriptors: a new one is none of those that are open, an open one is
  valid, and can be closed.
\<close>

definition kernel_law :: "kernel \<Rightarrow> bool" where
  "kernel_law k \<longleftrightarrow>
     (\<forall>past e p c g f. answer k past (Perf_Event_Open e p c g f) \<notin> set (descriptors k past)) \<and>
     (\<forall>past. \<forall>fd \<in> set (descriptors k past).
        0 \<le> answer k past (Fcntl_Getfd fd) \<and> answer k past (Close fd) = 0)"

section \<open>Opening\<close>

lemma syscall_simps [simp]:
  "fst (syscall k c s) = answer k (pm_calls s) c"
  "pm_counters (snd (syscall k c s)) = pm_counters s"
  "pm_calls (snd (syscall k c s)) = pm_calls s @ [c]"
  by (simp_all add: syscall_def)

lemma set_counter_simps [simp]:
  "pm_calls (set_counter i f s) = pm_calls s"
  "length (pm_counters (set_counter i f s)) = length (pm_counters s)"
  "i < length (pm_counters s) \<Longrightarrow>
     pm_counters (set_counter i f s) ! j = (if j = i then f (pm_counters s ! i) else pm_counters s ! j)"
  by (simp_all add: set_counter_def nth_list_update)

abbreviation fd_of :: "perfmon \<Rightarrow> nat \<Rightarrow> int" where
  "fd_of s i \<equiv> ec_fd (pm_counters s ! i)"

definition open_call :: "kernel \<Rightarrow> perfmon \<Rightarrow> nat \<Rightarrow> os_call" where
  "open_call k s i = Perf_Event_Open (event_attr k i (ec_name (pm_counters s ! i))) 0 (- 1)
     (if 0 < i then fd_of s 0 else - 1) PERF_FLAG_FD_CLOEXEC"

text \<open>One round: only the counter itself is changed, and its name is kept.\<close>

lemma open_counter_step:
  assumes "open_counter k i s = (ok, s')" "i < length (pm_counters s)"
  shows "ok \<longleftrightarrow> 0 \<le> answer k (pm_calls s) (open_call k s i)"
    and "fd_of s' i = answer k (pm_calls s) (open_call k s i)"
    and "pm_calls s' = pm_calls s @ open_call k s i # (if ok then [Ioctl_Id (fd_of s' i)] else [])"
    and "length (pm_counters s') = length (pm_counters s)"
    and "\<And>j. j \<noteq> i \<Longrightarrow> pm_counters s' ! j = pm_counters s ! j"
    and "\<And>j. ec_name (pm_counters s' ! j) = ec_name (pm_counters s ! j)"
  using assms
  by (auto simp: open_counter_def open_call_def syscall_def Let_def split: if_splits)

text \<open>The calls for a list of counters, in terms of the state at the end.\<close>

definition open_calls :: "kernel \<Rightarrow> perfmon \<Rightarrow> nat \<Rightarrow> os_call list" where
  "open_calls k s i = [open_call k s i, Ioctl_Id (fd_of s i)]"

lemma open_counters_steps:
  assumes "open_counters k [i..<n] s = (True, s')" "n = length (pm_counters s)"
  shows "length (pm_counters s') = n"
    and "\<And>j. j < i \<Longrightarrow> pm_counters s' ! j = pm_counters s ! j"
    and "\<And>j. ec_name (pm_counters s' ! j) = ec_name (pm_counters s ! j)"
    and "\<And>j. i \<le> j \<Longrightarrow> j < n \<Longrightarrow> 0 \<le> fd_of s' j"
    and "pm_calls s' = pm_calls s @ concat (map (open_calls k s') [i..<n])"
proof -
  have "length (pm_counters s') = n \<and> (\<forall>j < i. pm_counters s' ! j = pm_counters s ! j) \<and>
      (\<forall>j. ec_name (pm_counters s' ! j) = ec_name (pm_counters s ! j)) \<and>
      (\<forall>j. i \<le> j \<and> j < n \<longrightarrow> 0 \<le> fd_of s' j) \<and>
      pm_calls s' = pm_calls s @ concat (map (open_calls k s') [i..<n])"
    using assms
  proof (induction "n - i" arbitrary: i s)
    case 0
    then show ?case by simp
  next
    case (Suc m)
    then have i: "i < n" "[i..<n] = i # [Suc i..<n]" by (simp_all add: upt_conv_Cons)
    obtain s1 where s1: "open_counter k i s = (True, s1)" "open_counters k [Suc i..<n] s1 = (True, s')"
      using Suc.prems(1) i(2) by (auto split: prod.splits bool.splits)
    note step = open_counter_step [OF s1(1)]
    have IH: "length (pm_counters s') = n" "\<And>j. j < Suc i \<Longrightarrow> pm_counters s' ! j = pm_counters s1 ! j"
      "\<And>j. ec_name (pm_counters s' ! j) = ec_name (pm_counters s1 ! j)"
      "\<And>j. Suc i \<le> j \<Longrightarrow> j < n \<Longrightarrow> 0 \<le> fd_of s' j"
      "pm_calls s' = pm_calls s1 @ concat (map (open_calls k s') [Suc i..<n])"
      using Suc.hyps(1) [OF _ s1(2)] Suc.hyps(2) step(4) i(1) Suc.prems(2) by auto
    have here: "fd_of s' i = fd_of s1 i" "open_call k s' i = open_call k s i"
      using IH(2,3) step(5,6) i(1) Suc.prems(2) by (auto simp: open_call_def)
    have "0 \<le> fd_of s' j" if "i \<le> j" "j < n" for j
      using that IH(4) here(1) step(1,2) i(1) Suc.prems(2) by (cases "j = i") auto
    moreover have "pm_calls s' = pm_calls s @ concat (map (open_calls k s') [i..<n])"
      using IH(5) step(3) here i Suc.prems(2) by (simp add: open_calls_def)
    ultimately show ?case using IH(1-3) step(5,6) i(1) Suc.prems(2) by auto
  qed
  then show "length (pm_counters s') = n"
    and "\<And>j. j < i \<Longrightarrow> pm_counters s' ! j = pm_counters s ! j"
    and "\<And>j. ec_name (pm_counters s' ! j) = ec_name (pm_counters s ! j)"
    and "\<And>j. i \<le> j \<Longrightarrow> j < n \<Longrightarrow> 0 \<le> fd_of s' j"
    and "pm_calls s' = pm_calls s @ concat (map (open_calls k s') [i..<n])"
    by blast+
qed

lemma kernel_law_distinct: "kernel_law k \<Longrightarrow> distinct (descriptors k calls)"
proof (induction calls rule: rev_induct)
  case (snoc c cs)
  then show ?case
    by (cases c) (auto simp: after_call_def kernel_law_def distinct_removeAll)
qed simp

text \<open>
  Whether or not the loop is left early: the open descriptors are those the counters hold.
\<close>

definition held :: "perfmon \<Rightarrow> int list" where
  "held s = filter (\<lambda>fd. 0 \<le> fd) (map ec_fd (pm_counters s))"

lemma held_set_counter:
  assumes "i < length (pm_counters s)" "\<forall>j. i \<le> j \<and> j < length (pm_counters s) \<longrightarrow> fd_of s j < 0"
    and "length (pm_counters s') = length (pm_counters s)"
    and "\<And>j. j \<noteq> i \<Longrightarrow> pm_counters s' ! j = pm_counters s ! j"
  shows "held s' = held s @ (if 0 \<le> fd_of s' i then [fd_of s' i] else [])"
proof -
  have split: "map ec_fd (pm_counters t) =
      map (fd_of t) [0..<i] @ fd_of t i # map (fd_of t) [Suc i..<length (pm_counters s)]"
    if "length (pm_counters t) = length (pm_counters s)" for t
  proof -
    have "map ec_fd (pm_counters t) = map (fd_of t) [0..<length (pm_counters s)]"
      using that by (intro nth_equalityI) simp_all
    also have "[0..<length (pm_counters s)] = [0..<i] @ [i..<length (pm_counters s)]"
      using assms(1) by (metis upt_add_eq_append le_add_diff_inverse less_imp_le zero_le)
    also have "[i..<length (pm_counters s)] = i # [Suc i..<length (pm_counters s)]"
      using assms(1) by (rule upt_conv_Cons)
    finally show ?thesis by simp
  qed
  have "map (fd_of s') [0..<i] = map (fd_of s) [0..<i]"
    using assms(4) by (intro map_cong) auto
  then have "filter (\<lambda>fd. 0 \<le> fd) (map (fd_of s') [0..<i]) = filter (\<lambda>fd. 0 \<le> fd) (map (fd_of s) [0..<i])"
    by (simp only:)
  moreover have "filter (\<lambda>fd. 0 \<le> fd) (map (fd_of t) [Suc i..<length (pm_counters s)]) = []"
    if "t = s \<or> t = s'" for t
    using that assms(2,4) by (auto simp: filter_empty_conv not_le)
  ultimately show ?thesis
    using assms(1) spec [OF assms(2), of i]
    by (simp add: held_def split [of s] split [of s'] assms(3) not_le del: filter_map)
qed

lemma open_counters_held:
  assumes "open_counters k [i..<n] s = (ok, s')" "n = length (pm_counters s)"
    and "descriptors k (pm_calls s) = rev (held s)" "\<forall>j. i \<le> j \<and> j < n \<longrightarrow> fd_of s j < 0"
  shows "descriptors k (pm_calls s') = rev (held s') \<and> length (pm_counters s') = n"
  using assms
proof (induction "n - i" arbitrary: i s)
  case 0
  then show ?case by simp
next
  case (Suc m)
  then have i: "i < length (pm_counters s)" "[i..<n] = i # [Suc i..<n]" by (simp_all add: upt_conv_Cons)
  obtain b s1 where s1: "open_counter k i s = (b, s1)" by fastforce
  note step = open_counter_step [OF s1 i(1)]
  have held: "held s1 = held s @ (if 0 \<le> fd_of s1 i then [fd_of s1 i] else [])"
    using Suc.prems(2,4) by (intro held_set_counter i step) auto
  have calls: "pm_calls s1 = (pm_calls s @ [open_call k s i]) @ (if b then [Ioctl_Id (fd_of s1 i)] else [])"
    using step(3) by simp
  have opened: "after_call k (pm_calls s) (open_call k s i) fds = (if b then fd_of s1 i # fds else fds)" for fds
    using step(1,2) by (auto simp: after_call_def open_call_def)
  have now: "descriptors k (pm_calls s1) = rev (held s1)"
  proof (cases b)
    case True
    then have "descriptors k (pm_calls s1) = descriptors k (pm_calls s @ [open_call k s i])"
      using descriptors_simps(2) [of k "pm_calls s @ [open_call k s i]" "Ioctl_Id (fd_of s1 i)"]
      unfolding calls by (simp add: after_call_def del: descriptors_simps)
    then show ?thesis using True held opened step(1,2) Suc.prems(3) by simp
  next
    case False
    then show ?thesis unfolding calls using held opened step(1,2) Suc.prems(3) by simp
  qed
  show ?case
  proof (cases b)
    case True
    then have "open_counters k [Suc i..<n] s1 = (ok, s')" using Suc.prems(1) s1 i(2) by simp
    then show ?thesis
      using Suc.hyps Suc.prems(2,4) now step(4,5) i(1) by (intro Suc.hyps(1) [of "Suc i" s1]) auto
  next
    case False
    then show ?thesis using Suc.prems(1,2) s1 i(2) now step(4) by simp
  qed
qed

lemma close_counters_closes:
  assumes "kernel_law k" "distinct fds" "set fds \<subseteq> set (descriptors k (pm_calls s))"
  shows "\<exists>s'. close_counters k fds s = (True, s') \<and>
    set (descriptors k (pm_calls s')) = set (descriptors k (pm_calls s)) - set fds"
  using assms(2,3)
proof (induction fds arbitrary: s)
  case (Cons fd fds)
  define s1 where "s1 = snd (syscall k (Ioctl_Disable fd PERF_IOC_FLAG_GROUP) (snd (syscall k (Fcntl_Getfd fd) s)))"
  define s2 where "s2 = snd (syscall k (Close fd) s1)"
  have calls: "pm_calls s2 = ((pm_calls s @ [Fcntl_Getfd fd]) @ [Ioctl_Disable fd PERF_IOC_FLAG_GROUP]) @ [Close fd]"
    by (simp add: s1_def s2_def)
  have same: "descriptors k (pm_calls s1) = descriptors k (pm_calls s)"
    using descriptors_simps(2) [of k "pm_calls s @ [Fcntl_Getfd fd]" "Ioctl_Disable fd PERF_IOC_FLAG_GROUP"]
    by (simp add: s1_def after_call_def del: descriptors_simps(2)) (simp add: after_call_def)
  have valid: "0 \<le> answer k (pm_calls s) (Fcntl_Getfd fd)" "answer k (pm_calls s1) (Close fd) = 0"
    using assms(1) Cons.prems(2) same by (auto simp: kernel_law_def)
  have gone: "descriptors k (pm_calls s2) = removeAll fd (descriptors k (pm_calls s))"
    using valid(2) same by (simp add: s2_def after_call_def)
  obtain s' where s': "close_counters k fds s2 = (True, s')"
      "set (descriptors k (pm_calls s')) = set (descriptors k (pm_calls s2)) - set fds"
    using Cons.IH [of s2] Cons.prems gone by auto
  have "close_counters k (fd # fds) s = close_counters k fds s2"
    using valid by (simp add: s1_def s2_def syscall_def)
  then show ?case using s' gone by auto
qed simp

section \<open>A kernel that grants everything\<close>

definition steady_kernel :: kernel where
  "steady_kernel =
     \<lparr>attr_size = 136,
      answer = (\<lambda>past c. case c of Perf_Event_Open _ _ _ _ _ \<Rightarrow> 3 + int (length past) | _ \<Rightarrow> 0),
      event_id = (\<lambda>past fd. Some (of_int fd)),
      pfm_get_os_event_encoding = (\<lambda>name attr. (0, attr\<lparr>pa_type := 4\<rparr>)),
      stack_attr = (\<lambda>i. \<lparr>pa_type = 77, pa_size = 1, pa_config = 0, pa_sample_type = 0, pa_read_format = 0,
         pa_exclude_kernel = False, pa_exclude_hv = False, pa_others = 5\<rparr>),
      errno_message = (\<lambda>past. ''No such file or directory'')\<rparr>"

lemma steady_kernel_descriptors: "fd \<in> set (descriptors steady_kernel past) \<Longrightarrow> fd < 3 + int (length past)"
proof (induction past rule: rev_induct)
  case (snoc c cs)
  then show ?case by (cases c) (fastforce simp: after_call_def steady_kernel_def split: if_splits)+
qed simp

lemma steady_kernel_law: "kernel_law steady_kernel"
proof -
  have "answer steady_kernel past (Perf_Event_Open e p c g f) = 3 + int (length past)"
    "answer steady_kernel past (Fcntl_Getfd fd) = 0" "answer steady_kernel past (Close fd) = 0" for past e p c g f fd
    by (simp_all add: steady_kernel_def)
  then show ?thesis by (fastforce simp: kernel_law_def dest: steady_kernel_descriptors)
qed

section \<open>Properties\<close>

lemma jm_perfmon_init_cases:
  assumes "jm_perfmon_init k s = (ok, s')"
  obtains s1 where "open_counters k [0..<length (pm_counters s)] (snd (syscall k Pfm_Initialize s)) = (ok, s1)"
    and "pm_counters s' = pm_counters s1"
    and "pm_calls s' = pm_calls s1 @ (if ok then [Ioctl_Reset (fd_of s1 0) PERF_IOC_FLAG_GROUP,
           Ioctl_Enable (fd_of s1 0) PERF_IOC_FLAG_GROUP] else [])"
  using assms by (auto simp: jm_perfmon_init_def syscall_def split: prod.splits bool.splits)

text \<open>
  An event that \<open>libpfm\<close> cannot encode is not noticed: the kernel is handed a structure of which
  only the type has been set.
\<close>

lemma event_attr_cases:
  "event_attr k i name =
     (case pfm_get_os_event_encoding k name (zeroed_attr k) of (ret, hw_event) \<Rightarrow>
        if ret = PFM_SUCCESS then hw_event else (stack_attr k i)\<lparr>pa_type := PERF_TYPE_MAX\<rparr>)"
  by (simp add: event_attr_def split: prod.split)

lemma open_counter_extends: "\<exists>rest. pm_calls (snd (open_counter k i s)) =
    pm_calls s @ open_call k s i # rest"
  by (auto simp: open_counter_def open_call_def syscall_def Let_def)

lemma open_counters_extends: "\<exists>rest. pm_calls (snd (open_counters k js s)) = pm_calls s @ rest"
proof (induction js arbitrary: s)
  case (Cons j js)
  obtain ok s1 where s1: "open_counter k j s = (ok, s1)" by fastforce
  then obtain r1 where "pm_calls s1 = pm_calls s @ r1"
    using open_counter_extends [of k j s] by auto
  then show ?case using s1 Cons.IH [of s1] by (cases ok) auto
qed simp

lemma unencodable_event_opened:
  assumes "fst (pfm_get_os_event_encoding k ''LLC_MISSES:u'' (zeroed_attr k)) \<noteq> PFM_SUCCESS"
  shows "\<exists>rest. pm_calls (snd (jm_perfmon_init k perfmon_start)) = Pfm_Initialize #
    Perf_Event_Open ((stack_attr k 0)\<lparr>pa_type := PERF_TYPE_MAX\<rparr>) 0 (- 1) (- 1) PERF_FLAG_FD_CLOEXEC # rest"
proof -
  define s where "s = snd (syscall k Pfm_Initialize perfmon_start)"
  have "event_attr k 0 ''LLC_MISSES:u'' = (stack_attr k 0)\<lparr>pa_type := PERF_TYPE_MAX\<rparr>"
    using assms by (auto simp: event_attr_cases split: prod.split)
  then have call: "open_call k s 0 =
      Perf_Event_Open ((stack_attr k 0)\<lparr>pa_type := PERF_TYPE_MAX\<rparr>) 0 (- 1) (- 1) PERF_FLAG_FD_CLOEXEC"
    by (simp add: open_call_def s_def perfmon_start_def counters_def)
  obtain ok s1 where s1: "open_counter k 0 s = (ok, s1)" by fastforce
  obtain r1 where r1: "pm_calls s1 = pm_calls s @ open_call k s 0 # r1"
    using open_counter_extends [of k 0 s] s1 by auto
  obtain ok2 s2 where s2: "open_counters k [0, 1] s = (ok2, s2)" by fastforce
  obtain r2 where r2: "pm_calls s2 = pm_calls s1 @ r2"
    using s2 s1 open_counters_extends [of k "[1]" s1] by (cases ok) auto
  have two: "[0..<2] = [0, 1 :: nat]" by (simp add: upt_rec)
  obtain ok3 s3 where s3: "jm_perfmon_init k perfmon_start = (ok3, s3)" by fastforce
  have "\<exists>r3. pm_calls s3 = pm_calls s2 @ r3"
    by (rule jm_perfmon_init_cases [OF s3])
      (use s2 two in \<open>auto simp: s_def perfmon_start_def counters_def numeral_2_eq_2\<close>)
  then show ?thesis using s3 r1 r2 by (auto simp: call) (simp add: s_def perfmon_start_def)
qed

lemma tolower_NUL:
  assumes "tolower c = NUL"
  shows "c = NUL"
proof (rule ccontr)
  assume "c \<noteq> NUL"
  then have big: "65 \<le> (of_char c :: nat)" "of_char c \<le> (90 :: nat)" and eq: "char_of (of_char c + 32 :: nat) = NUL"
    using assms by (auto simp: tolower_def split: if_splits)
  have "(of_char c + 32) mod 256 = (of_char NUL :: nat)"
    unfolding eq [symmetric] by (simp add: of_char_of)
  then show False using big by simp
qed

lemma lower_loop_map: "NUL \<notin> set cs \<Longrightarrow> lower_loop cs = map tolower cs"
proof (induction cs)
  case (Cons c cs)
  have "tolower c \<noteq> NUL" using Cons.prems tolower_NUL by fastforce
  then show ?case using Cons by auto
qed simp

text \<open>When \<open>jm_perfmon_init\<close> returns true, every counter has been opened, in order, each but the
  first in the group of the first, with the attributes of its own name; each has been asked for its id; and then the
  group has been reset and enabled. No other call was made, and the names are kept.
\<close>

theorem perfmon_opens_group:
  assumes "jm_perfmon_init k s = (True, s')"
  shows "pm_calls s' = pm_calls s @ Pfm_Initialize #
      concat (map (\<lambda>i. [Perf_Event_Open (event_attr k i (ec_name (pm_counters s ! i))) 0 (- 1)
                          (if i = 0 then - 1 else ec_fd (pm_counters s' ! 0)) PERF_FLAG_FD_CLOEXEC,
                        Ioctl_Id (ec_fd (pm_counters s' ! i))]) [0..<length (pm_counters s)]) @
      [Ioctl_Reset (ec_fd (pm_counters s' ! 0)) PERF_IOC_FLAG_GROUP,
       Ioctl_Enable (ec_fd (pm_counters s' ! 0)) PERF_IOC_FLAG_GROUP] \<and>
    map ec_name (pm_counters s') = map ec_name (pm_counters s) \<and>
    (\<forall>c \<in> set (pm_counters s'). 0 \<le> ec_fd c)"
proof -
  obtain s1 where s1: "open_counters k [0..<length (pm_counters s)] (snd (syscall k Pfm_Initialize s)) = (True, s1)"
    "pm_counters s' = pm_counters s1"
    "pm_calls s' = pm_calls s1 @ [Ioctl_Reset (fd_of s1 0) PERF_IOC_FLAG_GROUP,
       Ioctl_Enable (fd_of s1 0) PERF_IOC_FLAG_GROUP]"
    using jm_perfmon_init_cases [OF assms] by auto
  note steps = open_counters_steps [OF s1(1), simplified]
  have names: "map ec_name (pm_counters s1) = map ec_name (pm_counters s)"
    using steps(1,3) by (intro nth_equalityI) simp_all
  have "\<forall>c \<in> set (pm_counters s1). 0 \<le> ec_fd c"
    using steps(1,4) by (auto simp: in_set_conv_nth)
  moreover have calls: "map (open_calls k s1) [0..<length (pm_counters s)] =
      map (\<lambda>i. [Perf_Event_Open (event_attr k i (ec_name (pm_counters s ! i))) 0 (- 1)
                  (if i = 0 then - 1 else ec_fd (pm_counters s1 ! 0)) PERF_FLAG_FD_CLOEXEC,
                Ioctl_Id (ec_fd (pm_counters s1 ! i))]) [0..<length (pm_counters s)]"
    using steps(3) by (intro map_cong) (auto simp: open_calls_def open_call_def)
  ultimately show ?thesis unfolding s1(2) using s1(3) steps(5) names by (simp add: calls)
qed

theorem perfmon_opens_group_witness:
  "map ec_fd (pm_counters (snd (jm_perfmon_init steady_kernel perfmon_start))) = [4, 6] \<and>
   length (pm_calls (snd (jm_perfmon_init steady_kernel perfmon_start))) = 7"
proof -
  have run: "jm_perfmon_init steady_kernel perfmon_start =
      (True, snd (jm_perfmon_init steady_kernel perfmon_start))"
    "map ec_fd (pm_counters (snd (jm_perfmon_init steady_kernel perfmon_start))) = [4, 6]"
    by code_simp+
  have "length (pm_calls (snd (jm_perfmon_init steady_kernel perfmon_start))) = 7"
    using perfmon_opens_group [OF run(1)] by (simp add: perfmon_start_def counters_def)
  then show ?thesis using run(2) by simp
qed



end
