(* ===== verification/Bloom.thy ===== *)
theory Bloom
  imports Uthash
begin

text \<open>
  The Bloom filter of \<open>src/external/uthash.h\<close>, a table of bits over the low bits of the hash values, which lookups
  consult before they walk a chain when \<open>HASH_BLOOM\<close> is defined. The program does not define it.
\<close>

unbundle bit_operations_syntax

section \<open>The filter\<close>

record bloom =
  bloom_bv :: "u8 list"
  bloom_nbits :: nat

definition HASH_BLOOM_BITLEN :: "nat \<Rightarrow> u64" where
  "HASH_BLOOM_BITLEN nbits = push_bit nbits 1"

definition HASH_BLOOM_BYTELEN :: "nat \<Rightarrow> u64" where
  "HASH_BLOOM_BYTELEN nbits =
     HASH_BLOOM_BITLEN nbits div 8 + (if HASH_BLOOM_BITLEN nbits mod 8 \<noteq> 0 then 1 else 0)"

definition HASH_BLOOM_MAKE :: "memory \<Rightarrow> nat \<Rightarrow> bloom outcome" where
  "HASH_BLOOM_MAKE mem nbits =
     and_then (uthash_malloc mem (unat (HASH_BLOOM_BYTELEN nbits))) (\<lambda>_.
     Ok \<lparr>bloom_bv = replicate (unat (HASH_BLOOM_BYTELEN nbits)) 0, bloom_nbits = nbits\<rparr>)"

definition HASH_BLOOM_BITSET :: "u8 list \<Rightarrow> u32 \<Rightarrow> u8 list outcome" where
  "HASH_BLOOM_BITSET bv idx =
     (let k = unat (idx div 8)
      in if k < length bv then Ok (bv[k := bv ! k OR ucast (push_bit (unat (idx mod 8)) (1::u32))])
         else Fail Undefined_Behaviour)"

definition HASH_BLOOM_BITTEST :: "u8 list \<Rightarrow> u32 \<Rightarrow> bool outcome" where
  "HASH_BLOOM_BITTEST bv idx =
     (let k = unat (idx div 8)
      in if k < length bv then Ok (ucast (bv ! k) AND push_bit (unat (idx mod 8)) (1::u32) \<noteq> 0)
         else Fail Undefined_Behaviour)"

definition bloom_index :: "bloom \<Rightarrow> u32 \<Rightarrow> u32" where
  "bloom_index bl hashv = hashv AND ucast (push_bit (bloom_nbits bl) (1::u64) - 1)"

definition HASH_BLOOM_ADD :: "bloom \<Rightarrow> u32 \<Rightarrow> bloom outcome" where
  "HASH_BLOOM_ADD bl hashv =
     and_then (HASH_BLOOM_BITSET (bloom_bv bl) (bloom_index bl hashv)) (\<lambda>bv. Ok (bl\<lparr>bloom_bv := bv\<rparr>))"

definition HASH_BLOOM_TEST :: "bloom \<Rightarrow> u32 \<Rightarrow> bool outcome" where
  "HASH_BLOOM_TEST bl hashv = HASH_BLOOM_BITTEST (bloom_bv bl) (bloom_index bl hashv)"

text \<open>\<open>HASH_FIND\<close> with the filter of the table.\<close>

definition HASH_FIND_BLOOM :: "hash option \<Rightarrow> bloom \<Rightarrow> u64 \<Rightarrow> nat option outcome" where
  "HASH_FIND_BLOOM head bl key =
     (case head of None \<Rightarrow> Ok None
      | Some _ \<Rightarrow> and_then (HASH_BLOOM_TEST bl (HASH_VALUE key)) (\<lambda>maybe.
          if maybe then HASH_FIND_PTR head key else Ok None))"

section \<open>What the bits say\<close>

text \<open>The bit of an index, and a filter that has the bits of some hash values.\<close>

definition bloom_bit :: "u8 list \<Rightarrow> u32 \<Rightarrow> bool" where
  "bloom_bit bv idx \<longleftrightarrow> bit (bv ! unat (idx div 8)) (unat (idx mod 8))"

definition bloom_ok :: "bloom \<Rightarrow> bool" where
  "bloom_ok bl \<longleftrightarrow> bloom_nbits bl < 64 \<and> length (bloom_bv bl) = unat (HASH_BLOOM_BYTELEN (bloom_nbits bl))"

definition filters :: "bloom \<Rightarrow> u32 set \<Rightarrow> bool" where
  "filters bl H \<longleftrightarrow> bloom_ok bl \<and>
     (\<forall>hashv. bloom_bit (bloom_bv bl) (bloom_index bl hashv) \<longleftrightarrow> (\<exists>h \<in> H. bloom_index bl h = bloom_index bl hashv))"

lemma mod_8: "unat (idx mod (8::u32)) < 8"
  by (simp add: unat_mod)

lemma byte_shift: "n < 8 \<Longrightarrow> ucast (push_bit n (1::u32)) = (push_bit n 1 :: u8)"
  by (rule bit_word_eqI) (auto simp: bit_simps)

lemma BITTEST_bit:
  "unat (idx div 8) < length bv \<Longrightarrow> HASH_BLOOM_BITTEST bv idx = Ok (bloom_bit bv idx)"
proof -
  let ?n = "unat (idx mod 8)" and ?w = "bv ! unat (idx div 8)"
  have "(ucast ?w :: u32) AND push_bit ?n 1 = (if bit ?w ?n then push_bit ?n 1 else 0)"
    using mod_8 [of idx] by (intro bit_word_eqI) (auto simp: bit_simps)
  moreover have "push_bit ?n (1::u32) \<noteq> 0"
    using mod_8 [of idx] by (auto simp: push_bit_eq_mult exp_eq_zero_iff)
  ultimately show "unat (idx div 8) < length bv \<Longrightarrow> HASH_BLOOM_BITTEST bv idx = Ok (bloom_bit bv idx)"
    by (simp add: HASH_BLOOM_BITTEST_def bloom_bit_def Let_def)
qed

lemma BITSET_bit:
  assumes "unat (idx div 8) < length bv"
  shows "\<exists>bv'. HASH_BLOOM_BITSET bv idx = Ok bv' \<and> length bv' = length bv \<and>
    (\<forall>j. unat (j div 8) < length bv \<longrightarrow> bloom_bit bv' j \<longleftrightarrow> j = idx \<or> bloom_bit bv j)"
proof -
  let ?k = "unat (idx div 8)" and ?n = "unat (idx mod 8)"
  have same: "j = idx \<longleftrightarrow> unat (j div 8) = ?k \<and> unat (j mod 8) = ?n" for j :: u32
    by (metis word_mod_div_equality word_unat_eq_iff)
  have "bit (bv ! ?k OR ucast (push_bit ?n (1::u32))) (unat (j mod 8)) \<longleftrightarrow>
      unat (j mod 8) = ?n \<or> bit (bv ! ?k) (unat (j mod 8))" for j :: u32
    using mod_8 [of idx] mod_8 [of j] by (auto simp: bit_simps)
  then show ?thesis
    using assms same by (auto simp: HASH_BLOOM_BITSET_def bloom_bit_def nth_list_update Let_def)
qed

lemma bloom_index_take_bit: "bloom_nbits bl < 64 \<Longrightarrow> bloom_index bl hashv = take_bit (bloom_nbits bl) hashv"
proof -
  have "push_bit (bloom_nbits bl) (1::u64) - 1 = mask (bloom_nbits bl)"
    by (simp add: mask_eq_exp_minus_1 push_bit_eq_mult)
  then show ?thesis unfolding bloom_index_def
    by (intro bit_word_eqI) (auto simp: bit_simps)
qed

lemma BYTELEN_nat:
  "nbits < 64 \<Longrightarrow> unat (HASH_BLOOM_BYTELEN nbits) = (if nbits < 3 then 1 else 2 ^ (nbits - 3))"
proof -
  assume n: "nbits < 64"
  have len: "unat (HASH_BLOOM_BITLEN nbits) = 2 ^ nbits"
  proof -
    have "HASH_BLOOM_BITLEN nbits = of_nat (2 ^ nbits)" by (simp add: HASH_BLOOM_BITLEN_def push_bit_eq_mult)
    moreover have "(2::nat) ^ nbits < 2 ^ 64" using n by (intro power_strict_increasing) auto
    ultimately show ?thesis by (simp add: unat_of_nat take_bit_nat_eq_self del: of_nat_power)
  qed
  show ?thesis
  proof (cases "nbits < 3")
    case True
    then have "nbits = 0 \<or> nbits = 1 \<or> nbits = 2" by auto
    then have "unat (HASH_BLOOM_BITLEN nbits mod 8) \<noteq> 0" "unat (HASH_BLOOM_BITLEN nbits div 8) = 0"
      using len by (auto simp: unat_mod unat_div simp del: unat_eq_0)
    then show ?thesis using True by (auto simp: HASH_BLOOM_BYTELEN_def unat_eq_zero)
  next
    case False
    then obtain m where m: "nbits = m + 3" by (metis add.commute le_Suc_ex not_less)
    then have two: "(2::nat) ^ nbits = 8 * 2 ^ m" by (simp add: power_add)
    then have "unat (HASH_BLOOM_BITLEN nbits mod 8) = 0" using len by (simp add: unat_mod)
    then have "HASH_BLOOM_BITLEN nbits mod 8 = 0" by (simp add: unat_eq_zero)
    then show ?thesis using False len two m by (simp add: HASH_BLOOM_BYTELEN_def unat_div)
  qed
qed

lemma bloom_in_bounds:
  assumes "bloom_ok bl"
  shows "unat (bloom_index bl hashv div 8) < length (bloom_bv bl)"
proof -
  let ?n = "bloom_nbits bl"
  have n: "?n < 64" using assms by (simp add: bloom_ok_def)
  have "unat (bloom_index bl hashv) < 2 ^ ?n"
    using n by (simp add: bloom_index_take_bit unsigned_take_bit_eq)
  moreover have "(2::nat) ^ ?n = 8 * 2 ^ (?n - 3)" if "\<not> ?n < 3"
    using that power_add [of "2::nat" 3 "?n - 3"] by simp
  moreover have "(2::nat) ^ ?n \<le> 8" if "?n < 3"
    using that power_increasing [of ?n 3 "2::nat"] by simp
  ultimately have "unat (bloom_index bl hashv) div 8 < (if ?n < 3 then 1 else 2 ^ (?n - 3))"
    by (cases "?n < 3") (auto simp: less_mult_imp_div_less mult.commute)
  then show ?thesis using assms BYTELEN_nat [OF n] by (simp add: bloom_ok_def unat_div)
qed

lemma HASH_BLOOM_MAKE_filters:
  assumes "nbits < 64" "HASH_BLOOM_MAKE mem nbits = Ok bl"
  shows "filters bl {} \<and> bloom_nbits bl = nbits"
proof -
  have bl: "bl = \<lparr>bloom_bv = replicate (unat (HASH_BLOOM_BYTELEN nbits)) 0, bloom_nbits = nbits\<rparr>"
    using assms(2) by (auto simp: HASH_BLOOM_MAKE_def and_then_Ok_iff)
  then have ok: "bloom_ok bl" using assms(1) by (simp add: bloom_ok_def)
  moreover have "\<not> bloom_bit (bloom_bv bl) (bloom_index bl h)" for h
    using bloom_in_bounds [OF ok, of h] bl by (simp add: bloom_bit_def)
  ultimately show ?thesis using bl by (simp add: filters_def)
qed

lemma HASH_BLOOM_ADD_filters:
  assumes "filters bl H"
  shows "\<exists>bl'. HASH_BLOOM_ADD bl h = Ok bl' \<and> filters bl' (insert h H) \<and> bloom_nbits bl' = bloom_nbits bl"
proof -
  have ok: "bloom_ok bl" using assms by (simp add: filters_def)
  obtain bv where bv: "HASH_BLOOM_BITSET (bloom_bv bl) (bloom_index bl h) = Ok bv" "length bv = length (bloom_bv bl)"
    "\<forall>j. unat (j div 8) < length (bloom_bv bl) \<longrightarrow> bloom_bit bv j \<longleftrightarrow> j = bloom_index bl h \<or> bloom_bit (bloom_bv bl) j"
    using BITSET_bit [OF bloom_in_bounds [OF ok]] by blast
  have "bloom_index (bl\<lparr>bloom_bv := bv\<rparr>) x = bloom_index bl x" for x by (simp add: bloom_index_def)
  then have "filters (bl\<lparr>bloom_bv := bv\<rparr>) (insert h H)"
    using assms bv(2,3) bloom_in_bounds [OF ok] by (auto simp: filters_def bloom_ok_def)
  then show ?thesis using bv(1) by (simp add: HASH_BLOOM_ADD_def)
qed

lemma HASH_BLOOM_TEST_exact:
  assumes "filters bl H"
  shows "HASH_BLOOM_TEST bl hashv = Ok (\<exists>h \<in> H. take_bit (bloom_nbits bl) h = take_bit (bloom_nbits bl) hashv)"
proof -
  have ok: "bloom_ok bl" using assms by (simp add: filters_def)
  then show ?thesis
    using assms BITTEST_bit [OF bloom_in_bounds [OF ok, of hashv]]
    by (auto simp: HASH_BLOOM_TEST_def filters_def bloom_ok_def bloom_index_take_bit)
qed

section \<open>Adding, and looking up\<close>

fun add_hash_values :: "u32 list \<Rightarrow> bloom \<Rightarrow> bloom outcome" where
  "add_hash_values [] bl = Ok bl"
| "add_hash_values (h # hs) bl = and_then (HASH_BLOOM_ADD bl h) (add_hash_values hs)"

lemma add_hash_values_filters:
  "filters bl H \<Longrightarrow> \<exists>bl'. add_hash_values hs bl = Ok bl' \<and> filters bl' (H \<union> set hs) \<and> bloom_nbits bl' = bloom_nbits bl"
proof (induction hs arbitrary: bl H)
  case (Cons h hs)
  obtain b where b: "HASH_BLOOM_ADD bl h = Ok b" "filters b (insert h H)" "bloom_nbits b = bloom_nbits bl"
    using HASH_BLOOM_ADD_filters [OF Cons.prems] by blast
  from Cons.IH [OF b(2)] b(1,3) show ?case by auto
qed auto

section \<open>Properties\<close>

text \<open>A Bloom filter of up to \<open>2 ^ 63\<close> bits is never read or written outside its bytes; its test says yes exactly
  for the hash values that agree with one added in the low bits, so never no for one that was added; and a lookup
  that consults it first finds what the lookup without it finds, if the hash value of every item was added.
\<close>

theorem bloom_filter_exact:
  assumes "nbits < 64" "HASH_BLOOM_MAKE mem nbits = Ok made"
  shows "\<exists>bl. add_hash_values hs made = Ok bl \<and>
    (\<forall>hashv. HASH_BLOOM_TEST bl hashv = Ok (\<exists>h \<in> set hs. take_bit nbits h = take_bit nbits hashv)) \<and>
    (\<forall>head key. hash_ok head \<longrightarrow> it_hashv ` set (items head) \<subseteq> set hs \<longrightarrow>
       HASH_FIND_BLOOM head bl key = HASH_FIND_PTR head key)"
proof -
  obtain bl where bl: "add_hash_values hs made = Ok bl" "filters bl (set hs)" "bloom_nbits bl = nbits"
    using add_hash_values_filters [of made "{}" hs] HASH_BLOOM_MAKE_filters [OF assms] by auto
  have test: "HASH_BLOOM_TEST bl hashv = Ok (\<exists>h \<in> set hs. take_bit nbits h = take_bit nbits hashv)" for hashv
    using HASH_BLOOM_TEST_exact [OF bl(2)] bl(3) by simp
  have "HASH_FIND_BLOOM head bl key = HASH_FIND_PTR head key"
    if ok: "hash_ok head" and added: "it_hashv ` set (items head) \<subseteq> set hs" for head key
  proof (cases "\<exists>h \<in> set hs. take_bit nbits h = take_bit nbits (HASH_VALUE key)")
    case True
    then show ?thesis using test [of "HASH_VALUE key"]
      by (cases head) (simp_all add: HASH_FIND_BLOOM_def HASH_FIND_PTR_def)
  next
    case False
    have "it_key it \<noteq> key" if it: "it \<in> set (items head)" for it
    proof
      assume "it_key it = key"
      moreover have "it_hashv it = HASH_VALUE (it_key it)"
        using ok it by (cases head) (auto simp: hash_ok_def items_def)
      ultimately have "HASH_VALUE key \<in> set hs" using added it by auto
      then show False using False by blast
    qed
    then have "HASH_FIND_PTR head key = Ok None"
      using HASH_FIND_PTR_ok [OF ok, of key] by (auto split: option.splits)
    then show ?thesis using test [of "HASH_VALUE key"] False
      by (cases head) (simp_all add: HASH_FIND_BLOOM_def)
  qed
  then show ?thesis using bl(1) test by blast
qed

theorem bloom_filter_exact_witness:
  "\<exists>made bl. HASH_BLOOM_MAKE megabyte 5 = Ok made \<and> add_hash_values [33, 7] made = Ok bl \<and>
     HASH_BLOOM_TEST bl 1 = Ok True \<and> HASH_BLOOM_TEST bl 2 = Ok False"
proof -
  have "megabyte (unat (HASH_BLOOM_BYTELEN 5))"
    by (simp add: BYTELEN_nat megabyte_def)
  then obtain made where made: "HASH_BLOOM_MAKE megabyte 5 = Ok made"
    by (auto simp: HASH_BLOOM_MAKE_def uthash_malloc_def)
  obtain bl where "add_hash_values [33, 7] made = Ok bl"
    "\<forall>hashv. HASH_BLOOM_TEST bl hashv = Ok (\<exists>h \<in> set [33, 7]. take_bit 5 h = take_bit 5 hashv)"
    using bloom_filter_exact [OF _ made, of "[33, 7]"] by auto
  then show ?thesis using made by (auto simp: take_bit_eq_mod)
qed

end
