(* ===== verification/Hash_Functions.thy ===== *)
theory Hash_Functions
  imports Uthash
begin

text \<open>
  The hash functions that \<open>src/external/uthash.h\<close> offers in place of Jenkins', on the bytes of a key: Bernstein's,
  shift-add-xor, Fowler-Noll-Vo, one-at-a-time and Hsieh's. No code of the program selects one of them.
\<close>

section \<open>The functions\<close>

definition HASH_BER :: "u8 list \<Rightarrow> u32" where
  "HASH_BER key = foldl (\<lambda>hashv k. (push_bit 5 hashv + hashv) + ucast k) 0 key"

definition HASH_SAX :: "u8 list \<Rightarrow> u32" where
  "HASH_SAX key = foldl (\<lambda>hashv k. hashv XOR (push_bit 5 hashv + drop_bit 2 hashv + ucast k)) 0 key"

definition HASH_FNV :: "u8 list \<Rightarrow> u32" where
  "HASH_FNV key =
     foldl (\<lambda>hashv k. let hashv = hashv XOR ucast k; hashv = hashv * 16777619 in hashv) 2166136261 key"

definition OAT_STEP :: "u32 \<Rightarrow> u8 \<Rightarrow> u32" where
  "OAT_STEP hashv k =
     (let hashv = hashv + ucast k; hashv = hashv + push_bit 10 hashv; hashv = hashv XOR drop_bit 6 hashv in hashv)"

definition HASH_OAT :: "u8 list \<Rightarrow> u32" where
  "HASH_OAT key =
     (let hashv = foldl OAT_STEP 0 key;
          hashv = hashv + push_bit 3 hashv;
          hashv = hashv XOR drop_bit 11 hashv;
          hashv = hashv + push_bit 15 hashv
      in hashv)"

definition get16bits :: "u8 list \<Rightarrow> u32" where
  "get16bits d = push_bit 8 (ucast (d ! 1)) + ucast (d ! 0)"

text \<open>The main loop of Hsieh's function: what is left of the key, and the hash value.\<close>

fun sfh_blocks :: "nat \<Rightarrow> u8 list \<Rightarrow> u32 \<Rightarrow> u8 list \<times> u32" where
  "sfh_blocks 0 key hashv = (key, hashv)"
| "sfh_blocks (Suc len) key hashv =
     (let hashv = hashv + get16bits key;
          tmp = push_bit 11 (get16bits (drop 2 key)) XOR hashv;
          hashv = push_bit 16 hashv XOR tmp;
          hashv = hashv + drop_bit 11 hashv
      in sfh_blocks len (drop 4 key) hashv)"

definition sfh_end :: "u8 list \<Rightarrow> nat \<Rightarrow> u32 \<Rightarrow> u32" where
  "sfh_end key rem hashv =
     (if rem = 3 then
        (let hashv = hashv + get16bits key;
             hashv = hashv XOR push_bit 16 hashv;
             hashv = hashv XOR push_bit 18 (ucast (key ! 2))
         in hashv + drop_bit 11 hashv)
      else if rem = 2 then
        (let hashv = hashv + get16bits key; hashv = hashv XOR push_bit 11 hashv in hashv + drop_bit 17 hashv)
      else if rem = 1 then
        (let hashv = hashv + ucast (key ! 0); hashv = hashv XOR push_bit 10 hashv in hashv + drop_bit 1 hashv)
      else hashv)"

definition HASH_SFH :: "u8 list \<Rightarrow> u32" where
  "HASH_SFH key =
     (let rem = length key mod 4;
          (rest, hashv) = sfh_blocks (length key div 4) key 0xcafebabe;
          hashv = sfh_end rest rem hashv;
          hashv = hashv XOR push_bit 3 hashv;
          hashv = hashv + drop_bit 5 hashv;
          hashv = hashv XOR push_bit 4 hashv;
          hashv = hashv + drop_bit 17 hashv;
          hashv = hashv XOR push_bit 25 hashv
      in hashv + drop_bit 6 hashv)"

text \<open>Published values.\<close>

lemma hash_test_vectors:
  "HASH_FNV [97] = 0xE40C292C" "HASH_FNV [102, 111, 111, 98, 97, 114] = 0xBF9CF968"
  "HASH_OAT [97] = 0xCA2E9442" "HASH_BER [97, 98] = 97 * 33 + 98"
  by code_simp+

text \<open>What is left after the main loop is what the end cases read: no byte outside the key is read.\<close>

lemma length_sfh_rest:
  "4 * len \<le> length key \<Longrightarrow> length (fst (sfh_blocks len key hashv)) = length key - 4 * len"
  by (induction len key hashv rule: sfh_blocks.induct) (auto simp: Let_def)

lemma sfh_rest_in_key: "length (fst (sfh_blocks (length key div 4) key hashv)) = length key mod 4"
  using length_sfh_rest [of "length key div 4" key hashv] by (simp add: minus_mult_div_eq_mod)

section \<open>Steps that lose nothing\<close>

lemma xor_drop_bit_step:
  assumes "(x :: 'a :: len word) XOR drop_bit n x = y XOR drop_bit n y" "bit x (n + i) = bit y (n + i)"
  shows "bit x i = bit y i"
proof -
  have "bit (x XOR drop_bit n x) i = bit (y XOR drop_bit n y) i" using assms(1) by (rule arg_cong)
  then show ?thesis using assms(2) unfolding bit_xor_iff bit_drop_bit_eq comp_def by blast
qed

lemma xor_drop_inj:
  assumes "(x :: 'a :: len word) XOR drop_bit n x = y XOR drop_bit n y" "0 < n"
  shows "x = y"
proof -
  have "bit x i = bit y i" if "LENGTH('a) - i \<le> k" for k i
    using that
  proof (induction k arbitrary: i)
    case 0
    then have "\<not> bit x i" "\<not> bit y i" using bit_imp_le_length by fastforce+
    then show ?case by simp
  next
    case (Suc k)
    then have "LENGTH('a) - (n + i) \<le> k" using assms(2) by linarith
    then show ?case using xor_drop_bit_step [OF assms(1) Suc.IH] by blast
  qed
  then show ?thesis by (intro bit_word_eqI) blast
qed

lemma odd_times_inj:
  assumes "(x :: 'a :: len word) * c = y * c" "c * d = 1"
  shows "x = y"
proof -
  have "x = x * c * d" using assms(2) by (simp add: mult.assoc)
  also have "\<dots> = y" using assms by (simp add: mult.assoc)
  finally show ?thesis .
qed

lemma unat_byte: "unat (ucast (a :: u8) :: u32) = unat a"
  using unsigned_less [of a, where ?'a = nat] by (simp add: unsigned_ucast_eq take_bit_eq_mod)

lemma ucast_byte_inj: "(ucast (a :: u8) :: u32) = ucast b \<Longrightarrow> a = b"
  using unat_byte [of a] unat_byte [of b] by (simp add: word_unat_eq_iff)

text \<open>A hash that folds a step over the bytes, where the step loses neither the hash so far nor the byte.\<close>

lemma foldl_inj:
  assumes "\<And>h h' k. f h k = f h' k \<Longrightarrow> h = h'" "foldl f h ks = foldl f h' ks"
  shows "h = h'"
  using assms(2)
proof (induction ks arbitrary: h h')
  case (Cons k ks)
  then have "f h k = f h' k" by simp
  then show ?case by (rule assms(1))
qed simp

lemma foldl_byte:
  assumes "\<And>h h' k. f h k = f h' k \<Longrightarrow> h = h'" "\<And>h k k'. f h k = f h k' \<Longrightarrow> k = k'"
  shows "foldl f h (xs @ a # ys) = foldl f h (xs @ b # ys) \<longleftrightarrow> a = b"
proof
  assume "foldl f h (xs @ a # ys) = foldl f h (xs @ b # ys)"
  then have "foldl f (f (foldl f h xs) a) ys = foldl f (f (foldl f h xs) b) ys" by simp
  then have "f (foldl f h xs) a = f (foldl f h xs) b"
    by (rule foldl_inj [rotated]) (rule assms(1))
  then show "a = b" by (rule assms(2))
qed simp

lemma shift_as_times:
  "push_bit 5 (h :: u32) + h = h * 33" "h + push_bit 10 h = h * 1025" "h + push_bit 3 h = h * 9"
  "h + push_bit 15 h = h * 32769"
  by (simp_all add: push_bit_eq_mult)

lemma odd_factors:
  "(33 :: u32) * 1041204193 = 1" "(16777619 :: u32) * 899433627 = 1" "(1025 :: u32) * 3222273025 = 1"
  "(9 :: u32) * 954437177 = 1" "(32769 :: u32) * 1073709057 = 1"
  by simp_all


section \<open>Bernstein's hash is a number in base 33\<close>

lemma ber_step: "(push_bit 5 h + h) + ucast (k :: u8) = h * 33 + (of_nat (unat k) :: u32)"
  unfolding shift_as_times by (simp add: unat_byte [symmetric])

lemma HASH_BER_base_33:
  "HASH_BER key = of_nat (foldl (\<lambda>n k. n * 33 + unat k) 0 key)"
  unfolding HASH_BER_def ber_step by (induction key rule: rev_induct) simp_all

lemma ber_inj: "(push_bit 5 h + h) + ucast (k :: u8) = (push_bit 5 h' + h') + ucast k \<Longrightarrow> (h :: u32) = h'"
  unfolding shift_as_times by (rule odd_times_inj [OF _ odd_factors(1)]) simp

lemma xor_twice: "(x XOR y) XOR y = (x :: u32)"
  by (simp add: xor.assoc)

lemma fnv_inj: "(h XOR ucast (k :: u8)) * 16777619 = (h' XOR ucast k') * 16777619 \<Longrightarrow>
    (h :: u32) XOR ucast k = h' XOR ucast k'"
  by (rule odd_times_inj [OF _ odd_factors(2)])

lemma xor_right_inj: "h XOR u = h' XOR u \<Longrightarrow> (h :: u32) = h'"
  by (metis xor_twice)

lemma xor_left_inj: "h XOR u = h XOR v \<Longrightarrow> (u :: u32) = v"
  using xor_right_inj [of u h v] by (simp add: xor.commute)

lemma oat_inj: "OAT_STEP h k = OAT_STEP h' k' \<Longrightarrow> h + ucast k = h' + ucast k'"
  unfolding OAT_STEP_def Let_def shift_as_times
  by (drule xor_drop_inj, simp) (rule odd_times_inj [OF _ odd_factors(3)])

lemma oat_end_inj:
  assumes "(let h = h + push_bit 3 h; h = h XOR drop_bit 11 h; h = h + push_bit 15 h in h) =
    (let h = h' + push_bit 3 h'; h = h XOR drop_bit 11 h; h = h + push_bit 15 h in h)"
  shows "(h :: u32) = h'"
proof -
  have "h * 9 XOR drop_bit 11 (h * 9) = h' * 9 XOR drop_bit 11 (h' * 9)"
    using assms odd_times_inj [OF _ odd_factors(5)] unfolding Let_def shift_as_times by blast
  then have "h * 9 = h' * 9" by (rule xor_drop_inj) simp
  then show ?thesis by (rule odd_times_inj [OF _ odd_factors(4)])
qed

section \<open>Jenkins' mixing\<close>

text \<open>The mixing step of the function that is in use, in its nine parts, each of which can be undone.\<close>

fun mix_a :: "nat \<Rightarrow> u32 \<times> u32 \<times> u32 \<Rightarrow> u32 \<times> u32 \<times> u32" where
  "mix_a n (a, b, c) = ((a - b - c) XOR drop_bit n c, b, c)"

fun mix_b :: "nat \<Rightarrow> u32 \<times> u32 \<times> u32 \<Rightarrow> u32 \<times> u32 \<times> u32" where
  "mix_b n (a, b, c) = (a, (b - c - a) XOR push_bit n a, c)"

fun mix_c :: "nat \<Rightarrow> u32 \<times> u32 \<times> u32 \<Rightarrow> u32 \<times> u32 \<times> u32" where
  "mix_c n (a, b, c) = (a, b, (c - a - b) XOR drop_bit n b)"

fun unmix_a :: "nat \<Rightarrow> u32 \<times> u32 \<times> u32 \<Rightarrow> u32 \<times> u32 \<times> u32" where
  "unmix_a n (a, b, c) = ((a XOR drop_bit n c) + c + b, b, c)"

fun unmix_b :: "nat \<Rightarrow> u32 \<times> u32 \<times> u32 \<Rightarrow> u32 \<times> u32 \<times> u32" where
  "unmix_b n (a, b, c) = (a, (b XOR push_bit n a) + a + c, c)"

fun unmix_c :: "nat \<Rightarrow> u32 \<times> u32 \<times> u32 \<Rightarrow> u32 \<times> u32 \<times> u32" where
  "unmix_c n (a, b, c) = (a, b, (c XOR drop_bit n b) + b + a)"

lemma unmix_parts [simp]: "unmix_a n (mix_a n t) = t" "unmix_b n (mix_b n t) = t" "unmix_c n (mix_c n t) = t"
  by (cases t; simp add: xor_twice)+

lemma HASH_JEN_MIX_parts:
  "HASH_JEN_MIX t = mix_c 15 (mix_b 10 (mix_a 3 (mix_c 5 (mix_b 16 (mix_a 12 (mix_c 13 (mix_b 8 (mix_a 13 t))))))))"
  by (cases t) (simp only: HASH_JEN_MIX_def Let_def split mix_a.simps mix_b.simps mix_c.simps)

definition unmix :: "u32 \<times> u32 \<times> u32 \<Rightarrow> u32 \<times> u32 \<times> u32" where
  "unmix t = unmix_a 13 (unmix_b 8 (unmix_c 13 (unmix_a 12 (unmix_b 16 (unmix_c 5 (unmix_a 3 (unmix_b 10 (unmix_c 15 t))))))))"

lemma unmix_mix: "unmix (HASH_JEN_MIX t) = t"
  by (simp add: unmix_def HASH_JEN_MIX_parts)

section \<open>Properties\<close>

text \<open>Keys that differ in one byte never collide under Bernstein's, the Fowler-Noll-Vo and the one-at-a-time hash, of
  whatever length and at whatever place: each step of these functions loses neither the hash so far nor the byte. Jenkins'
  mixing, of the function that is in use, loses nothing of its three words.\<close>

theorem one_byte_tells_keys_apart:
  "(HASH_BER (xs @ a # ys) = HASH_BER (xs @ b # ys) \<longleftrightarrow> a = b) \<and>
   (HASH_FNV (xs @ a # ys) = HASH_FNV (xs @ b # ys) \<longleftrightarrow> a = b) \<and>
   (HASH_OAT (xs @ a # ys) = HASH_OAT (xs @ b # ys) \<longleftrightarrow> a = b) \<and>
   inj HASH_JEN_MIX"
proof (intro conjI)
  show "inj HASH_JEN_MIX" by (rule inj_on_inverseI [of _ unmix]) (rule unmix_mix)
  show "HASH_BER (xs @ a # ys) = HASH_BER (xs @ b # ys) \<longleftrightarrow> a = b"
    unfolding HASH_BER_def by (rule foldl_byte [OF ber_inj]) (auto dest: ucast_byte_inj)
  show "HASH_FNV (xs @ a # ys) = HASH_FNV (xs @ b # ys) \<longleftrightarrow> a = b"
    unfolding HASH_FNV_def Let_def by (rule foldl_byte) (blast dest: fnv_inj xor_right_inj xor_left_inj ucast_byte_inj)+
  have step: "foldl OAT_STEP 0 (xs @ a # ys) = foldl OAT_STEP 0 (xs @ b # ys) \<longleftrightarrow> a = b"
    by (rule foldl_byte) (auto dest!: oat_inj intro: ucast_byte_inj)
  show "HASH_OAT (xs @ a # ys) = HASH_OAT (xs @ b # ys) \<longleftrightarrow> a = b"
    using oat_end_inj step unfolding HASH_OAT_def Let_def by metis
qed

end
