(* ===== verification/Linked_List.thy ===== *)
theory Linked_List
  imports Prelude
begin

text \<open>
  Doubly linked lists in a heap that keeps each link in a function of its own, so that a write
  to one link leaves the lists along the others alone. \<open>uthash.h\<close> threads two such lists
  through every hash handle. The lemmas give the effect of the three writes the header makes: putting
  a node in front, behind, and taking one out.
\<close>

type_synonym links = "nat \<Rightarrow> nat option"

text \<open>
  \<open>dll P N pr p ks pr' p'\<close>: from \<open>p\<close> the links \<open>N\<close> lead through the nodes \<open>ks\<close> to
  \<open>p'\<close>, the links \<open>P\<close> lead back to \<open>pr\<close>, and \<open>pr'\<close> is the last node.
\<close>

fun dll :: "links \<Rightarrow> links \<Rightarrow> nat option \<Rightarrow> nat option \<Rightarrow> nat list \<Rightarrow> nat option \<Rightarrow> nat option \<Rightarrow> bool" where
  "dll P N pr p [] pr' p' \<longleftrightarrow> pr' = pr \<and> p' = p"
| "dll P N pr p (i # ks) pr' p' \<longleftrightarrow> p = Some i \<and> P i = pr \<and> dll P N (Some i) (N i) ks pr' p'"

lemma dll_append:
  "dll P N pr p (xs @ ys) pr'' p'' \<longleftrightarrow> (\<exists>pr' p'. dll P N pr p xs pr' p' \<and> dll P N pr' p' ys pr'' p'')"
  by (induction xs arbitrary: pr p) auto

lemma dll_cong:
  assumes "\<And>i. i \<in> set ks \<Longrightarrow> P' i = P i" "\<And>i. i \<in> set ks \<Longrightarrow> N' i = N i"
  shows "dll P' N' pr p ks pr' p' \<longleftrightarrow> dll P N pr p ks pr' p'"
  using assms by (induction ks arbitrary: pr p) auto

lemma dll_frame [simp]:
  "j \<notin> set ks \<Longrightarrow> dll (P(j := v)) N pr p ks pr' p' \<longleftrightarrow> dll P N pr p ks pr' p'"
  "j \<notin> set ks \<Longrightarrow> dll P (N(j := v)) pr p ks pr' p' \<longleftrightarrow> dll P N pr p ks pr' p'"
  by (rule dll_cong; auto)+

text \<open>The end of a list determines its last node, and its start its first.\<close>

lemma dll_last: "dll P N pr p ks pr' p' \<Longrightarrow> pr' = (if ks = [] then pr else Some (last ks))"
  by (induction ks arbitrary: pr p) auto

lemma dll_first: "dll P N pr p ks pr' p' \<Longrightarrow> ks \<noteq> [] \<Longrightarrow> p = Some (hd ks) \<and> P (hd ks) = pr"
  by (cases ks) auto

lemma dll_end: "dll P N pr p (ks @ [i]) pr' p' \<Longrightarrow> N i = p'"
  by (auto simp: dll_append)

section \<open>A node of a list\<close>

lemma dll_node:
  assumes "dll P N None p (xs @ i # ys) e None"
  shows "P i = (if xs = [] then None else Some (last xs))"
    and "N i = (if ys = [] then None else Some (hd ys))"
    and "p = Some (if xs = [] then i else hd xs)"
    and "e = Some (if ys = [] then i else last ys)"
proof -
  obtain q r where s: "dll P N None p xs q r" "dll P N q r (i # ys) e None"
    using assms by (auto simp: dll_append)
  show "P i = (if xs = [] then None else Some (last xs))" using s dll_last [OF s(1)] by simp
  show "N i = (if ys = [] then None else Some (hd ys))" using s(2) by (cases ys) auto
  show "p = Some (if xs = [] then i else hd xs)" using s by (cases xs) auto
  show "e = Some (if ys = [] then i else last ys)" using dll_last [OF s(2)] by simp
qed

section \<open>Putting a node in front\<close>

definition push_prev :: "nat \<Rightarrow> nat option \<Rightarrow> links \<Rightarrow> links" where
  "push_prev i p P = (case p of None \<Rightarrow> P(i := None) | Some q \<Rightarrow> P(i := None, q := Some i))"

lemma dll_push:
  assumes "dll P N None p ks e None" "distinct ks" "i \<notin> set ks"
  shows "\<exists>e. dll (push_prev i p P) (N(i := p)) None (Some i) (i # ks) e None"
proof (cases ks)
  case Nil
  then have "p = None" using assms(1) by simp
  then show ?thesis using Nil by (simp add: push_prev_def)
next
  case (Cons q qs)
  then have "p = Some q" "q \<noteq> i" "q \<notin> set qs" "i \<notin> set qs" "dll P N (Some q) (N q) qs e None"
    using assms by auto
  then show ?thesis using Cons by (auto simp: push_prev_def)
qed

text \<open>What it leaves alone.\<close>

lemma push_prev_other: "j \<noteq> i \<Longrightarrow> p \<noteq> Some j \<Longrightarrow> push_prev i p P j = P j"
  by (auto simp: push_prev_def split: option.split)

section \<open>Putting a node behind\<close>

lemma dll_snoc:
  assumes "dll P N None p ks (Some t) None" "distinct ks" "i \<notin> set ks" "ks \<noteq> []"
  shows "dll (P(i := Some t)) (N(i := None, t := Some i)) None p (ks @ [i]) (Some i) None"
proof -
  obtain js where ks: "ks = js @ [t]" "t \<notin> set js"
    using dll_last [OF assms(1)] assms(2,4) by (metis append_butlast_last_id distinct_butlast
        not_distinct_conv_prefix option.inject distinct_append disjoint_iff list.set_intros(1))
  have "i \<noteq> t" "i \<notin> set js" using assms(3) ks by auto
  then show ?thesis using assms(1) ks by (auto simp: dll_append)
qed

section \<open>Putting a node before another\<close>

definition before_next :: "nat \<Rightarrow> nat \<Rightarrow> links \<Rightarrow> links \<Rightarrow> links" where
  "before_next i j P N = (case P j of None \<Rightarrow> N(i := Some j) | Some q \<Rightarrow> N(i := Some j, q := Some i))"

lemma dll_insert:
  assumes "dll P N None p (xs @ j # ys) e None" "distinct (xs @ j # ys)" "i \<notin> set (xs @ j # ys)"
  shows "dll (P(i := P j, j := Some i)) (before_next i j P N) None (if P j = None then Some i else p)
    (xs @ i # j # ys) e None"
proof -
  note node = dll_node [OF assms(1)]
  obtain q r where s: "dll P N None p xs q r" "r = Some j" "P j = q" "dll P N (Some j) (N j) ys e None"
    using assms(1) by (auto simp: dll_append)
  have fresh: "i \<noteq> j" "i \<notin> set xs" "i \<notin> set ys" "j \<notin> set xs" "j \<notin> set ys" "set xs \<inter> set ys = {}" "distinct xs"
    using assms(2,3) by auto
  have same: "before_next i j P N k = N k" if "k \<in> set (j # ys)" for k
  proof (cases "xs = []")
    case True
    then show ?thesis using that node(1) fresh(1,3) by (auto simp: before_next_def)
  next
    case False
    then have "P j = Some (last xs)" "last xs \<in> set xs" using node(1) by simp_all
    moreover have "k \<noteq> last xs" using that calculation(2) fresh(4,6) by auto
    ultimately show ?thesis using that fresh(1,3) by (auto simp: before_next_def)
  qed
  then have "dll (P(i := P j, j := Some i)) (before_next i j P N) (Some j) (N j) ys e None"
    using s(4) fresh(3,5) by (subst dll_cong [where P = P and N = N]) auto
  moreover have "P j \<noteq> Some i" using node(1) fresh(2) last_in_set [of xs] by (cases "xs = []") auto
  then have "before_next i j P N i = Some j" by (auto simp: before_next_def split: option.split)
  ultimately have rear: "dll (P(i := P j, j := Some i)) (before_next i j P N) q (Some i) (i # j # ys) e None"
    using s(3) fresh(1) same [of j] by simp
  show ?thesis
  proof (cases xs rule: rev_cases)
    case Nil
    then show ?thesis using rear s(1,3) fresh(1) by simp
  next
    case (snoc xs' x)
    have front: "dll P N None p xs' (P x) (Some x)" "q = Some x"
      using s(1) snoc dll_last by (auto simp: dll_append)
    have "dll (P(i := P j, j := Some i)) (before_next i j P N) None p xs' (P x) (Some x)"
      using front s(3) fresh snoc by (subst dll_cong [where P = P and N = N]) (auto simp: before_next_def)
    then show ?thesis using rear front(2) s(3) fresh snoc by (auto simp: dll_append before_next_def)
  qed
qed

section \<open>Taking a node out\<close>

definition unlink_prev :: "nat \<Rightarrow> links \<Rightarrow> links \<Rightarrow> links" where
  "unlink_prev i N P = (case N i of None \<Rightarrow> P | Some r \<Rightarrow> P(r := P i))"

definition unlink_next :: "nat \<Rightarrow> links \<Rightarrow> links \<Rightarrow> links" where
  "unlink_next i P N = (case P i of None \<Rightarrow> N | Some q \<Rightarrow> N(q := N i))"

lemma dll_unlink:
  assumes "dll P N None p (xs @ i # ys) e None" "distinct (xs @ i # ys)"
  shows "dll (unlink_prev i N P) (unlink_next i P N) None (if p = Some i then N i else p) (xs @ ys)
    (if e = Some i then P i else e) None"
proof -
  note node = dll_node [OF assms(1)]
  obtain q r where s: "dll P N None p xs q r" "r = Some i" "P i = q" "dll P N (Some i) (N i) ys e None"
    using assms(1) by (auto simp: dll_append)
  have dist: "i \<notin> set xs" "i \<notin> set ys" "set xs \<inter> set ys = {}" "distinct xs" "distinct ys"
    using assms(2) by auto
  have rear: "dll (unlink_prev i N P) (unlink_next i P N) (P i) (N i) ys (if e = Some i then P i else e) None"
  proof (cases ys)
    case Nil
    then show ?thesis using node(2,4) by simp
  next
    case (Cons y ys')
    have e: "e \<noteq> Some i" using node(4) dist(2) Cons by auto
    have "dll P N (Some y) (N y) ys' e None" using s(4) Cons by simp
    moreover have "unlink_next i P N j = N j" "j \<noteq> y \<Longrightarrow> unlink_prev i N P j = P j" if "j \<in> set ys" for j
      using that node(1,2) dist(3) Cons
      by (auto simp: unlink_next_def unlink_prev_def split: if_splits dest: last_in_set)
    moreover from this have "dll (unlink_prev i N P) (unlink_next i P N) (Some y) (N y) ys' e None \<longleftrightarrow>
        dll P N (Some y) (N y) ys' e None"
      using Cons dist(5) by (intro dll_cong) auto
    ultimately show ?thesis using Cons node(2) e by (simp add: unlink_prev_def)
  qed
  show ?thesis
  proof (cases xs rule: rev_cases)
    case Nil
    then show ?thesis using rear node(1,3) by simp
  next
    case (snoc xs' x)
    have front: "dll P N None p xs' (P x) (Some x)" "q = Some x"
      using s(1) snoc dll_last by (auto simp: dll_append)
    have "hd (xs' @ [x]) \<in> set xs" using snoc by (cases xs') auto
    then have x: "x \<notin> set xs'" "p \<noteq> Some i" using dist snoc node(3) by auto
    have "unlink_prev i N P j = P j" "j \<noteq> x \<Longrightarrow> unlink_next i P N j = N j" if "j \<in> set xs" for j
      using that node(1,2) dist(3) snoc
      by (auto simp: unlink_next_def unlink_prev_def split: if_splits dest: hd_in_set)
    moreover from this have "dll (unlink_prev i N P) (unlink_next i P N) None p xs' (P x) (Some x)"
      using front(1) x(1) snoc by (subst dll_cong [where P = P and N = N]) auto
    moreover have "unlink_next i P N x = N i" using node(1) snoc by (simp add: unlink_next_def)
    ultimately show ?thesis using rear x(2) snoc s(3) front(2) by (auto simp: dll_append)
  qed
qed

end
