(* ===== verification/Uthash_Heap.thy ===== *)
theory Uthash_Heap
  imports Uthash Linked_List
begin

text \<open>
  The macros of \<open>src/external/uthash.h\<close> as they are written: on handles that are linked by pointers, in
  a heap of entries. An entry is named by the number its item has in \<open>Uthash\<close>; its
  handle is at a fixed offset, so that \<open>ELMT_FROM_HH\<close> and \<open>HH_FROM_ELMT\<close> are the identity. Every
  dereference of a null pointer or of a freed entry or table is undefined behaviour. A loop along the links is a
  \<open>partial_function (option)\<close>, which is \<open>None\<close> where the links are circular.
\<close>

section \<open>The heap\<close>

record chain_head =
  ch_head :: "nat option"
  ch_count :: u32
  ch_expand_mult :: u32

record table_object =
  to_buckets :: "chain_head list"
  to_num_buckets :: u32
  to_log2_num_buckets :: u32
  to_num_items :: u32
  to_tail :: "nat option"
  to_ideal_chain_maxlen :: u32
  to_nonideal_items :: u32
  to_ineff_expands :: u32
  to_noexpand :: bool

text \<open>
  The fields of \<open>UT_hash_handle\<close>, each as a function of the entry, with the entries
  that are allocated, and the tables. \<open>ar_key\<close> is what \<open>hh.key\<close> points to.
\<close>

record arena =
  ar_live :: "nat \<Rightarrow> bool"
  ar_tbl :: links
  ar_prev :: links
  ar_next :: links
  ar_hh_prev :: links
  ar_hh_next :: links
  ar_key :: "nat \<Rightarrow> u64"
  ar_keylen :: "nat \<Rightarrow> u32"
  ar_hashv :: "nat \<Rightarrow> u32"
  ar_tables :: "nat \<Rightarrow> table_object option"
  ar_new_table :: nat

definition element :: "arena \<Rightarrow> nat option \<Rightarrow> nat outcome" where
  "element a p =
     (case p of None \<Rightarrow> Fail Undefined_Behaviour
      | Some i \<Rightarrow> if ar_live a i then Ok i else Fail Undefined_Behaviour)"

text \<open>\<open>(i)->hh.tbl\<close>, and what it points to.\<close>

definition table_at :: "arena \<Rightarrow> nat \<Rightarrow> (nat \<times> table_object) outcome" where
  "table_at a i =
     and_then (element a (Some i)) (\<lambda>i.
     and_then (defined (ar_tbl a i)) (\<lambda>t.
     and_then (defined (ar_tables a t)) (\<lambda>pt. Ok (t, pt))))"

definition put_table :: "nat \<Rightarrow> table_object option \<Rightarrow> arena \<Rightarrow> arena" where
  "put_table t pt a = a\<lparr>ar_tables := (ar_tables a)(t := pt)\<rparr>"

text \<open>Sequencing where a step may also not return.\<close>

definition then_run :: "'a outcome option \<Rightarrow> ('a \<Rightarrow> 'b outcome option) \<Rightarrow> 'b outcome option" where
  "then_run m f =
     (case m of None \<Rightarrow> None | Some (Fail e) \<Rightarrow> Some (Fail e) | Some (Ok x) \<Rightarrow> f x)"

lemma then_run_simps [simp]:
  "then_run None f = None" "then_run (Some (Fail e)) f = Some (Fail e)" "then_run (Some (Ok x)) f = f x"
  by (simp_all add: then_run_def)

section \<open>Adding\<close>

definition no_chain :: chain_head where
  "no_chain = \<lparr>ch_head = None, ch_count = 0, ch_expand_mult = 0\<rparr>"

definition HASH_MAKE_TABLE_at :: "memory \<Rightarrow> nat \<Rightarrow> arena \<Rightarrow> arena outcome" where
  "HASH_MAKE_TABLE_at mem i a =
     and_then (uthash_malloc mem sizeof_table) (\<lambda>_.
     and_then (uthash_malloc mem (unat HASH_INITIAL_NUM_BUCKETS * sizeof_bucket)) (\<lambda>_.
     let t = ar_new_table a;
         pt = \<lparr>to_buckets = replicate (unat HASH_INITIAL_NUM_BUCKETS) no_chain,
               to_num_buckets = HASH_INITIAL_NUM_BUCKETS,
               to_log2_num_buckets = HASH_INITIAL_NUM_BUCKETS_LOG2,
               to_num_items = 0, to_tail = Some i, to_ideal_chain_maxlen = 0, to_nonideal_items = 0,
               to_ineff_expands = 0, to_noexpand = False\<rparr>
     in Ok (put_table t (Some pt) (a\<lparr>ar_tbl := (ar_tbl a)(i := Some t), ar_new_table := t + 1\<rparr>))))"

definition HASH_APPEND_LIST :: "nat \<Rightarrow> nat \<Rightarrow> arena \<Rightarrow> arena outcome" where
  "HASH_APPEND_LIST head i a =
     and_then (table_at a head) (\<lambda>(t, pt).
     let a = a\<lparr>ar_next := (ar_next a)(i := None)\<rparr>;
         a = a\<lparr>ar_prev := (ar_prev a)(i := to_tail pt)\<rparr>
     in and_then (element a (to_tail pt)) (\<lambda>l.
        Ok (put_table t (Some (pt\<lparr>to_tail := Some i\<rparr>)) (a\<lparr>ar_next := (ar_next a)(l := Some i)\<rparr>))))"

text \<open>\<open>hh_prev\<close> of the node that is the first of a chain, if there is one.\<close>

definition set_hh_prev :: "nat option \<Rightarrow> nat option \<Rightarrow> arena \<Rightarrow> arena outcome" where
  "set_hh_prev p v a =
     (case p of None \<Rightarrow> Ok a
      | Some q \<Rightarrow> and_then (element a p) (\<lambda>q. Ok (a\<lparr>ar_hh_prev := (ar_hh_prev a)(q := v)\<rparr>)))"

definition set_hh_next :: "nat option \<Rightarrow> nat option \<Rightarrow> arena \<Rightarrow> arena outcome" where
  "set_hh_next p v a =
     (case p of None \<Rightarrow> Ok a
      | Some q \<Rightarrow> and_then (element a p) (\<lambda>q. Ok (a\<lparr>ar_hh_next := (ar_hh_next a)(q := v)\<rparr>)))"

record redistribution =
  re_arena :: arena
  re_buckets :: "chain_head list"
  re_nonideal :: u32

text \<open>One round of the loop over a chain of the old buckets.\<close>

definition move_item :: "u32 \<Rightarrow> u32 \<Rightarrow> nat \<Rightarrow> redistribution \<Rightarrow> redistribution outcome" where
  "move_item ideal num_bkts i re =
     and_then (element (re_arena re) (Some i)) (\<lambda>i.
     let b = HASH_TO_BKT (ar_hashv (re_arena re) i) num_bkts
     in if length (re_buckets re) \<le> b then Fail Undefined_Behaviour
        else
          (let a = re_arena re;
               bk = re_buckets re ! b;
               count = ch_count bk + 1;
               over = ideal < count;
               mult = (if over \<and> ch_expand_mult bk * ideal < count then ch_expand_mult bk + 1
                       else ch_expand_mult bk);
               a = a\<lparr>ar_hh_prev := (ar_hh_prev a)(i := None)\<rparr>;
               a = a\<lparr>ar_hh_next := (ar_hh_next a)(i := ch_head bk)\<rparr>
           in and_then (set_hh_prev (ch_head bk) (Some i) a) (\<lambda>a.
              Ok \<lparr>re_arena = a,
                  re_buckets = (re_buckets re)[b := \<lparr>ch_head = Some i, ch_count = count, ch_expand_mult = mult\<rparr>],
                  re_nonideal = (if over then re_nonideal re + 1 else re_nonideal re)\<rparr>)))"

partial_function (option) move_chain ::
    "u32 \<Rightarrow> u32 \<Rightarrow> nat option \<Rightarrow> redistribution \<Rightarrow> redistribution outcome option" where
  "move_chain ideal num_bkts thh re =
     (case thh of None \<Rightarrow> Some (Ok re)
      | Some i \<Rightarrow>
          (let nxt = ar_hh_next (re_arena re) i
           in case move_item ideal num_bkts i re of
                Fail e \<Rightarrow> Some (Fail e)
              | Ok re \<Rightarrow> move_chain ideal num_bkts nxt re))"

fun move_chains :: "u32 \<Rightarrow> u32 \<Rightarrow> chain_head list \<Rightarrow> redistribution \<Rightarrow> redistribution outcome option" where
  "move_chains ideal num_bkts [] re = Some (Ok re)"
| "move_chains ideal num_bkts (bk # bks) re =
     then_run (move_chain ideal num_bkts (ch_head bk) re) (move_chains ideal num_bkts bks)"

definition HASH_EXPAND_BUCKETS_at :: "memory \<Rightarrow> nat \<Rightarrow> table_object \<Rightarrow> arena \<Rightarrow> arena outcome option" where
  "HASH_EXPAND_BUCKETS_at mem t pt a =
     then_run (Some (uthash_malloc mem (sizeof_bucket * unat (to_num_buckets pt) * 2))) (\<lambda>_.
     let new_num = to_num_buckets pt * 2;
         ideal = drop_bit (unat (to_log2_num_buckets pt + 1)) (to_num_items pt) +
                   (if to_num_items pt AND (new_num - 1) \<noteq> 0 then 1 else 0)
     in if length (to_buckets pt) < unat (to_num_buckets pt) then Some (Fail Undefined_Behaviour)
        else
          then_run (move_chains ideal new_num (take (unat (to_num_buckets pt)) (to_buckets pt))
            \<lparr>re_arena = a, re_buckets = replicate (unat (to_num_buckets pt) * 2) no_chain,
             re_nonideal = 0\<rparr>) (\<lambda>re.
          let ineff = (if drop_bit 1 (to_num_items pt) < re_nonideal re then to_ineff_expands pt + 1 else 0)
          in Some (Ok (put_table t (Some (pt\<lparr>to_buckets := re_buckets re, to_num_buckets := new_num,
                 to_log2_num_buckets := to_log2_num_buckets pt + 1,
                 to_ideal_chain_maxlen := ideal, to_nonideal_items := re_nonideal re,
                 to_ineff_expands := ineff, to_noexpand := to_noexpand pt \<or> 1 < ineff\<rparr>)) (re_arena re)))))"

definition HASH_ADD_TO_BKT_at :: "memory \<Rightarrow> nat \<Rightarrow> table_object \<Rightarrow> nat \<Rightarrow> nat \<Rightarrow> arena \<Rightarrow> arena outcome option" where
  "HASH_ADD_TO_BKT_at mem t pt b i a =
     (if length (to_buckets pt) \<le> b then Some (Fail Undefined_Behaviour)
      else
        (let bk = to_buckets pt ! b;
             count = ch_count bk + 1;
             a = a\<lparr>ar_hh_next := (ar_hh_next a)(i := ch_head bk)\<rparr>;
             a = a\<lparr>ar_hh_prev := (ar_hh_prev a)(i := None)\<rparr>
         in then_run (Some (set_hh_prev (ch_head bk) (Some i) a)) (\<lambda>a.
            let pt = pt\<lparr>to_buckets := (to_buckets pt)[b := bk\<lparr>ch_head := Some i, ch_count := count\<rparr>]\<rparr>;
                a = put_table t (Some pt) a
            in if (ch_expand_mult bk + 1) * HASH_BKT_CAPACITY_THRESH \<le> count
               then then_run (Some (table_at a i)) (\<lambda>(t, pt).
                 if \<not> to_noexpand pt then HASH_EXPAND_BUCKETS_at mem t pt a else Some (Ok a))
               else Some (Ok a))))"

definition HASH_ADD_TO_TABLE_at :: "memory \<Rightarrow> nat \<Rightarrow> nat \<Rightarrow> arena \<Rightarrow> arena outcome option" where
  "HASH_ADD_TO_TABLE_at mem head i a =
     then_run (Some (table_at a head)) (\<lambda>(t, pt).
     let pt = pt\<lparr>to_num_items := to_num_items pt + 1\<rparr>
     in HASH_ADD_TO_BKT_at mem t pt (HASH_TO_BKT (ar_hashv a i) (to_num_buckets pt)) i (put_table t (Some pt) a))"

section \<open>Checking\<close>

text \<open>The loops of \<open>HASH_FSCK\<close>: along a chain, and along the application order.\<close>

partial_function (option) check_links ::
    "arena \<Rightarrow> links \<Rightarrow> links \<Rightarrow> nat option \<Rightarrow> nat option \<Rightarrow> u32 \<Rightarrow> u32 outcome option" where
  "check_links a P N prev thh cnt =
     (case thh of None \<Rightarrow> Some (Ok cnt)
      | Some i \<Rightarrow>
          (if \<not> ar_live a i then Some (Fail Undefined_Behaviour)
           else if prev \<noteq> P i then Some (Fail Exit_Called)
           else check_links a P N (Some i) (N i) (cnt + 1)))"

fun check_buckets :: "arena \<Rightarrow> chain_head list \<Rightarrow> u32 \<Rightarrow> u32 outcome option" where
  "check_buckets a [] cnt = Some (Ok cnt)"
| "check_buckets a (bk # bks) cnt =
     then_run (check_links a (ar_hh_prev a) (ar_hh_next a) None (ch_head bk) 0) (\<lambda>bkt_count.
     if ch_count bk \<noteq> bkt_count then Some (Fail Exit_Called)
     else check_buckets a bks (cnt + bkt_count))"

definition HASH_FSCK_at :: "arena \<Rightarrow> nat option \<Rightarrow> arena outcome option" where
  "HASH_FSCK_at a head =
     (case head of None \<Rightarrow> Some (Ok a)
      | Some h \<Rightarrow>
          then_run (Some (table_at a h)) (\<lambda>(t, pt).
          if length (to_buckets pt) < unat (to_num_buckets pt) then Some (Fail Undefined_Behaviour)
          else
            then_run (check_buckets a (take (unat (to_num_buckets pt)) (to_buckets pt)) 0) (\<lambda>count.
            if count \<noteq> to_num_items pt then Some (Fail Exit_Called)
            else
              then_run (check_links a (ar_prev a) (ar_next a) None head 0) (\<lambda>count.
              if count \<noteq> to_num_items pt then Some (Fail Exit_Called) else Some (Ok a)))))"

text \<open>\<open>HASH_ADD_PTR\<close>, for an entry \<open>i\<close> that the program has allocated; the new head.\<close>

definition HASH_ADD_PTR_at ::
    "memory \<Rightarrow> nat \<Rightarrow> u64 \<Rightarrow> arena \<Rightarrow> nat option \<Rightarrow> (arena \<times> nat option) outcome option" where
  "HASH_ADD_PTR_at mem i key a head =
     then_run (Some (element a (Some i))) (\<lambda>i.
     let a = a\<lparr>ar_hashv := (ar_hashv a)(i := HASH_VALUE key)\<rparr>;
         a = a\<lparr>ar_key := (ar_key a)(i := key)\<rparr>;
         a = a\<lparr>ar_keylen := (ar_keylen a)(i := 8)\<rparr>
     in then_run (Some (case head of
            None \<Rightarrow>
              (let a = a\<lparr>ar_next := (ar_next a)(i := None)\<rparr>;
                   a = a\<lparr>ar_prev := (ar_prev a)(i := None)\<rparr>
               in and_then (HASH_MAKE_TABLE_at mem i a) (\<lambda>a. Ok (a, i)))
          | Some h \<Rightarrow>
              and_then (table_at a h) (\<lambda>(t, _).
              let a = a\<lparr>ar_tbl := (ar_tbl a)(i := Some t)\<rparr>
              in and_then (HASH_APPEND_LIST h i a) (\<lambda>a. Ok (a, h))))) (\<lambda>(a, h).
        then_run (HASH_ADD_TO_TABLE_at mem h i a) (\<lambda>a.
        then_run (HASH_FSCK_at a (Some h)) (\<lambda>a. Some (Ok (a, Some h))))))"

section \<open>Finding and deleting\<close>

partial_function (option) HASH_FIND_IN_BKT_at ::
    "arena \<Rightarrow> nat option \<Rightarrow> u64 \<Rightarrow> u32 \<Rightarrow> nat option outcome option" where
  "HASH_FIND_IN_BKT_at a out key hashv =
     (case out of None \<Rightarrow> Some (Ok None)
      | Some i \<Rightarrow>
          (if \<not> ar_live a i then Some (Fail Undefined_Behaviour)
           else if ar_hashv a i = hashv \<and> ar_keylen a i = 8 \<and> ar_key a i = key then Some (Ok (Some i))
           else HASH_FIND_IN_BKT_at a (ar_hh_next a i) key hashv))"

definition HASH_FIND_PTR_at :: "arena \<Rightarrow> nat option \<Rightarrow> u64 \<Rightarrow> nat option outcome option" where
  "HASH_FIND_PTR_at a head key =
     (case head of None \<Rightarrow> Some (Ok None)
      | Some h \<Rightarrow>
          then_run (Some (table_at a h)) (\<lambda>(t, pt).
          let hashv = HASH_VALUE key; b = HASH_TO_BKT hashv (to_num_buckets pt)
          in if length (to_buckets pt) \<le> b then Some (Fail Undefined_Behaviour)
             else HASH_FIND_IN_BKT_at a (ch_head (to_buckets pt ! b)) key hashv))"

definition HASH_DEL_IN_BKT_at :: "nat \<Rightarrow> table_object \<Rightarrow> nat \<Rightarrow> nat \<Rightarrow> arena \<Rightarrow> arena outcome" where
  "HASH_DEL_IN_BKT_at t pt b i a =
     (if length (to_buckets pt) \<le> b then Fail Undefined_Behaviour
      else
        (let bk = to_buckets pt ! b;
             bk = bk\<lparr>ch_count := ch_count bk - 1\<rparr>;
             bk = (if ch_head bk = Some i then bk\<lparr>ch_head := ar_hh_next a i\<rparr> else bk)
         in and_then (set_hh_next (ar_hh_prev a i) (ar_hh_next a i) a) (\<lambda>a.
            and_then (set_hh_prev (ar_hh_next a i) (ar_hh_prev a i) a) (\<lambda>a.
            Ok (put_table t (Some (pt\<lparr>to_buckets := (to_buckets pt)[b := bk]\<rparr>)) a)))))"

text \<open>The two neighbours in the application order; without a previous one, the head moves.\<close>

definition relink_next :: "nat \<Rightarrow> arena \<Rightarrow> nat \<Rightarrow> (arena \<times> nat option) outcome" where
  "relink_next i a head =
     (if ar_prev a i \<noteq> None then
        and_then (element a (ar_prev a i)) (\<lambda>q.
        Ok (a\<lparr>ar_next := (ar_next a)(q := ar_next a i)\<rparr>, Some head))
      else Ok (a, ar_next a i))"

definition relink_prev :: "nat \<Rightarrow> arena \<Rightarrow> arena outcome" where
  "relink_prev i a =
     (if ar_next a i \<noteq> None then
        and_then (element a (ar_next a i)) (\<lambda>r.
        Ok (a\<lparr>ar_prev := (ar_prev a)(r := ar_prev a i)\<rparr>))
      else Ok a)"

text \<open>
  \<open>(head)->hh.tbl\<close> is read again after each change of \<open>head\<close> or of the table.
\<close>

definition HASH_DELETE_HH :: "nat \<Rightarrow> arena \<Rightarrow> nat \<Rightarrow> (arena \<times> nat option) outcome" where
  "HASH_DELETE_HH i a head =
     and_then (element a (Some i)) (\<lambda>i.
     and_then (table_at a head) (\<lambda>(t, pt).
     if ar_prev a i = None \<and> ar_next a i = None then Ok (put_table t None a, None)
     else
       (let pt = (if to_tail pt = Some i then pt\<lparr>to_tail := ar_prev a i\<rparr> else pt);
            a = put_table t (Some pt) a
        in and_then (relink_next i a head) (\<lambda>(a, head).
           and_then (relink_prev i a) (\<lambda>a.
           and_then (element a head) (\<lambda>h.
           and_then (table_at a h) (\<lambda>(t, pt).
           and_then (HASH_DEL_IN_BKT_at t pt (HASH_TO_BKT (ar_hashv a i) (to_num_buckets pt)) i a) (\<lambda>a.
           and_then (table_at a h) (\<lambda>(t, pt).
           Ok (put_table t (Some (pt\<lparr>to_num_items := to_num_items pt - 1\<rparr>)) a, head))))))))))"

definition HASH_DELETE_at :: "nat \<Rightarrow> arena \<Rightarrow> nat \<Rightarrow> (arena \<times> nat option) outcome option" where
  "HASH_DELETE_at i a head =
     then_run (Some (HASH_DELETE_HH i a head)) (\<lambda>(a, head).
     then_run (HASH_FSCK_at a head) (\<lambda>a. Some (Ok (a, head))))"

text \<open>
  \<open>HASH_ITER\<close>, whose body deletes the entry and frees it: \<open>jm_symbols_alloc_delete_entry\<close>.
\<close>

definition next_of :: "arena \<Rightarrow> nat option \<Rightarrow> nat option outcome" where
  "next_of a p = (case p of None \<Rightarrow> Ok None | Some i \<Rightarrow> and_then (element a p) (\<lambda>i. Ok (ar_next a i)))"

definition delete_entry :: "nat \<Rightarrow> arena \<Rightarrow> nat option \<Rightarrow> (arena \<times> nat option) outcome option" where
  "delete_entry i a head =
     then_run (Some (element a head)) (\<lambda>h.
     then_run (HASH_DELETE_at i a h) (\<lambda>(a, head).
     Some (Ok (a\<lparr>ar_live := (ar_live a)(i := False)\<rparr>, head))))"

partial_function (option) clear_loop ::
    "nat option \<Rightarrow> nat option \<Rightarrow> arena \<Rightarrow> nat option \<Rightarrow> (arena \<times> nat option) outcome option" where
  "clear_loop el tmp a head =
     (case el of None \<Rightarrow> Some (Ok (a, head))
      | Some i \<Rightarrow>
          (case delete_entry i a head of
             None \<Rightarrow> None
           | Some (Fail e) \<Rightarrow> Some (Fail e)
           | Some (Ok (a, head)) \<Rightarrow>
               (case next_of a tmp of
                  Fail e \<Rightarrow> Some (Fail e)
                | Ok tmp' \<Rightarrow> clear_loop tmp tmp' a head)))"

definition HASH_CLEAR_ALL_at :: "arena \<Rightarrow> nat option \<Rightarrow> (arena \<times> nat option) outcome option" where
  "HASH_CLEAR_ALL_at a head =
     then_run (Some (next_of a head)) (\<lambda>tmp. clear_loop head tmp a head)"

section \<open>What a heap represents\<close>

text \<open>A chain of handles represents a bucket, along the links given by \<open>P\<close> and \<open>N\<close>.\<close>

definition bucket_rep :: "links \<Rightarrow> links \<Rightarrow> chain_head \<Rightarrow> bucket \<Rightarrow> bool" where
  "bucket_rep P N c bk \<longleftrightarrow> ch_count c = bk_count bk \<and> ch_expand_mult c = bk_expand_mult bk \<and>
     (\<exists>e. dll P N None (ch_head c) (map it_id (bk_chain bk)) e None)"

definition node_rep :: "arena \<Rightarrow> nat \<Rightarrow> item \<Rightarrow> bool" where
  "node_rep a t it \<longleftrightarrow> ar_live a (it_id it) \<and> ar_tbl a (it_id it) = Some t \<and>
     ar_hashv a (it_id it) = it_hashv it \<and> ar_key a (it_id it) = it_key it \<and> ar_keylen a (it_id it) = 8"

definition table_rep :: "links \<Rightarrow> links \<Rightarrow> table_object \<Rightarrow> hash_table \<Rightarrow> bool" where
  "table_rep P N pt t \<longleftrightarrow> list_all2 (bucket_rep P N) (to_buckets pt) (ht_buckets t) \<and>
     to_num_buckets pt = ht_num_buckets t \<and> to_log2_num_buckets pt = ht_log2_num_buckets t \<and>
     to_num_items pt = ht_num_items t \<and> to_ideal_chain_maxlen pt = ht_ideal_chain_maxlen t \<and>
     to_nonideal_items pt = ht_nonideal_items t \<and> to_ineff_expands pt = ht_ineff_expands t \<and>
     to_noexpand pt = ht_noexpand t"

text \<open>
  The application order is a doubly linked list from the head to the tail of the table, each bucket is one
  from its head; every entry is allocated, and knows its key, hash value and table.
\<close>

definition hash_rep :: "arena \<Rightarrow> nat option \<Rightarrow> hash option \<Rightarrow> bool" where
  "hash_rep a head hs \<longleftrightarrow>
     (case hs of None \<Rightarrow> head = None
      | Some h \<Rightarrow> \<exists>t pt. ar_tables a t = Some pt \<and> (\<forall>it \<in> set (h_items h). node_rep a t it) \<and>
          distinct (map it_id (h_items h)) \<and>
          dll (ar_prev a) (ar_next a) None head (map it_id (h_items h)) (to_tail pt) None \<and>
          table_rep (ar_hh_prev a) (ar_hh_next a) pt (h_tbl h))"

text \<open>The same, but that the tail of the table may be any.\<close>

definition untailed_rep :: "arena \<Rightarrow> nat option \<Rightarrow> hash option \<Rightarrow> bool" where
  "untailed_rep a head hs \<longleftrightarrow>
     (case hs of None \<Rightarrow> head = None
      | Some h \<Rightarrow> \<exists>t pt e. ar_tables a t = Some pt \<and> (\<forall>it \<in> set (h_items h). node_rep a t it) \<and>
          distinct (map it_id (h_items h)) \<and>
          dll (ar_prev a) (ar_next a) None head (map it_id (h_items h)) e None \<and>
          table_rep (ar_hh_prev a) (ar_hh_next a) pt (h_tbl h))"

lemma hash_rep_untailed: "hash_rep a head hs \<Longrightarrow> untailed_rep a head hs"
  by (auto simp: hash_rep_def untailed_rep_def split: option.splits)

lemma distinct_concat_nth:
  "distinct (concat (map f xs)) \<Longrightarrow> b < length xs \<Longrightarrow> c < length xs \<Longrightarrow> b \<noteq> c \<Longrightarrow>
     set (f (xs ! b)) \<inter> set (f (xs ! c)) = {}"
proof (induction xs arbitrary: b c)
  case (Cons x xs)
  then have "set (f x) \<inter> set (f (xs ! n)) = {}" if "n < length xs" for n
    using that nth_mem [OF that] by fastforce
  then show ?case using Cons by (cases b; cases c) (auto simp: Int_commute)
qed simp

lemma ids_items_of: "map it_id (items_of bks) = concat (map (\<lambda>bk. map it_id (bk_chain bk)) bks)"
  by (simp add: items_of_def map_concat comp_def)

lemma chain_in_items: "b < length bks \<Longrightarrow> set (bk_chain (bks ! b)) \<subseteq> set (items_of bks)"
  by (auto simp: items_of_def intro!: bexI [OF _ nth_mem])

lemma bucket_rep_frame:
  assumes "\<And>i. i \<in> it_id ` set (bk_chain bk) \<Longrightarrow> P' i = P i \<and> N' i = N i"
  shows "bucket_rep P' N' c bk \<longleftrightarrow> bucket_rep P N c bk"
proof -
  have "dll P' N' None (ch_head c) (map it_id (bk_chain bk)) e None \<longleftrightarrow>
      dll P N None (ch_head c) (map it_id (bk_chain bk)) e None" for e
    using assms by (intro dll_cong) auto
  then show ?thesis by (simp add: bucket_rep_def)
qed

lemma buckets_rep_frame:
  assumes "list_all2 (bucket_rep P N) cs bks"
    and "\<And>i. i \<in> it_id ` set (items_of bks) \<Longrightarrow> P' i = P i \<and> N' i = N i"
  shows "list_all2 (bucket_rep P' N') cs bks"
  using assms
proof (induction rule: list_all2_induct)
  case (Cons c cs bk bks)
  then have "bucket_rep P' N' c bk"
    by (subst bucket_rep_frame [where P = P and N = N]) (auto simp: items_of_def)
  then show ?case using Cons by (auto simp: items_of_def)
qed simp

lemma buckets_rep_update:
  assumes "list_all2 (bucket_rep P N) cs bks" "distinct (map it_id (items_of bks))" "b < length bks"
    and "bucket_rep P' N' c bk"
    and "\<And>i. i \<in> it_id ` set (items_of bks) \<Longrightarrow> i \<notin> it_id ` set (bk_chain (bks ! b)) \<Longrightarrow>
           P' i = P i \<and> N' i = N i"
  shows "list_all2 (bucket_rep P' N') (cs[b := c]) (bks[b := bk])"
proof -
  have "bucket_rep P' N' (cs ! d) (bks ! d)" if "d < length bks" "d \<noteq> b" for d
  proof (subst bucket_rep_frame [where P = P and N = N])
    fix i assume i: "i \<in> it_id ` set (bk_chain (bks ! d))"
    have "set (map it_id (bk_chain (bks ! d))) \<inter> set (map it_id (bk_chain (bks ! b))) = {}"
      using distinct_concat_nth [of "\<lambda>bk. map it_id (bk_chain bk)" bks d b] assms(2,3) that
      by (simp add: ids_items_of)
    then show "P' i = P i \<and> N' i = N i"
      using i assms(5) [of i] chain_in_items [OF that(1)] by auto
  qed (use assms(1) that in \<open>simp add: list_all2_conv_all_nth\<close>)
  then show ?thesis
    using assms(1,3,4) by (auto simp: list_all2_conv_all_nth nth_list_update)
qed

section \<open>Putting an entry into a chain\<close>

lemma chain_first:
  assumes "bucket_rep P N c bk"
  shows "ch_head c = (case bk_chain bk of [] \<Rightarrow> None | it # its \<Rightarrow> Some (it_id it))"
  using assms by (auto simp: bucket_rep_def split: list.split)

lemma buckets_push:
  assumes rep: "list_all2 (bucket_rep P N) cs bks" and dist: "distinct (map it_id (items_of bks))"
    and "it_id it \<notin> it_id ` set (items_of bks)" "b < length bks"
    and "c = \<lparr>ch_head = Some (it_id it), ch_count = bk_count bk, ch_expand_mult = bk_expand_mult bk\<rparr>"
    and "bk_chain bk = it # bk_chain (bks ! b)"
  shows "list_all2 (bucket_rep (push_prev (it_id it) (ch_head (cs ! b)) P) (N(it_id it := ch_head (cs ! b))))
    (cs[b := c]) (bks[b := bk])"
proof (rule buckets_rep_update [OF rep dist assms(4)])
  have old: "bucket_rep P N (cs ! b) (bks ! b)"
    using rep assms(4) by (simp add: list_all2_conv_all_nth)
  have "distinct (map it_id (bk_chain (bks ! b)))"
    using dist assms(4) by (auto simp: ids_items_of distinct_concat_iff)
  moreover have "it_id it \<notin> set (map it_id (bk_chain (bks ! b)))"
    using assms(3) chain_in_items [OF assms(4)] by auto
  ultimately have "\<exists>e. dll (push_prev (it_id it) (ch_head (cs ! b)) P) (N(it_id it := ch_head (cs ! b)))
      None (Some (it_id it)) (it_id it # map it_id (bk_chain (bks ! b))) e None"
    using old by (auto simp: bucket_rep_def simp del: dll.simps intro: dll_push)
  then show "bucket_rep (push_prev (it_id it) (ch_head (cs ! b)) P)
      (N(it_id it := ch_head (cs ! b))) c bk"
    by (simp add: bucket_rep_def assms(5,6) del: dll.simps)
  fix i assume i: "i \<in> it_id ` set (items_of bks)" "i \<notin> it_id ` set (bk_chain (bks ! b))"
  have "i \<noteq> it_id it" using i(1) assms(3) by metis
  moreover have "ch_head (cs ! b) \<noteq> Some i"
    using i(2) chain_first [OF old] by (auto split: list.splits)
  ultimately show "push_prev (it_id it) (ch_head (cs ! b)) P i = P i \<and> (N(it_id it := ch_head (cs ! b))) i = N i"
    by (simp add: push_prev_other)
qed

text \<open>The first handle of a chain is allocated, so the store into it is defined.\<close>

lemma set_hh_prev_push:
  assumes "\<And>q. p = Some q \<Longrightarrow> ar_live a q"
  shows "set_hh_prev p (Some i) (a\<lparr>ar_hh_prev := (ar_hh_prev a)(i := None), ar_hh_next := N\<rparr>) =
    Ok (a\<lparr>ar_hh_prev := push_prev i p (ar_hh_prev a), ar_hh_next := N\<rparr>)"
  using assms by (cases p) (auto simp: set_hh_prev_def element_def push_prev_def)

lemma head_live:
  assumes "list_all2 (bucket_rep P N) cs bks" "b < length bks"
    and "\<And>x. x \<in> set (items_of bks) \<Longrightarrow> L (it_id x)"
  shows "ch_head (cs ! b) = Some q \<Longrightarrow> L q"
  using assms(1,2) chain_first [of P N "cs ! b" "bks ! b"] chain_in_items [OF assms(2)] assms(3)
  by (auto simp: list_all2_conv_all_nth split: list.splits)

section \<open>Expansion\<close>

lemma expand_item_Ok:
  assumes "expand_item ideal n it ex = Ok ex'"
  defines "b \<equiv> HASH_TO_BKT (it_hashv it) n"
  shows "b < length (ex_buckets ex)"
    and "\<exists>bk. ex_buckets ex' = (ex_buckets ex)[b := bk] \<and> bk_chain bk = it # bk_chain (ex_buckets ex ! b)"
    and "mset (items_of (ex_buckets ex')) = add_mset it (mset (items_of (ex_buckets ex)))"
proof -
  show b: "b < length (ex_buckets ex)"
    using assms(1) by (auto simp: expand_item_def b_def Let_def split: if_splits)
  show ex: "\<exists>bk. ex_buckets ex' = (ex_buckets ex)[b := bk] \<and> bk_chain bk = it # bk_chain (ex_buckets ex ! b)"
    using assms(1) by (auto simp: expand_item_def b_def Let_def split: if_splits)
  then show "mset (items_of (ex_buckets ex')) = add_mset it (mset (items_of (ex_buckets ex)))"
    using b items_of_push by fastforce
qed

text \<open>The two levels of a running expansion; the heap differs from \<open>a\<close> in the chains alone.\<close>

definition moving :: "arena \<Rightarrow> links \<Rightarrow> links \<Rightarrow> redistribution \<Rightarrow> expansion \<Rightarrow> bool" where
  "moving a P N re ex \<longleftrightarrow> re_arena re = a\<lparr>ar_hh_prev := P, ar_hh_next := N\<rparr> \<and>
     list_all2 (bucket_rep P N) (re_buckets re) (ex_buckets ex) \<and> re_nonideal re = ex_nonideal ex"

definition known :: "arena \<Rightarrow> item set \<Rightarrow> bool" where
  "known a its \<longleftrightarrow> (\<forall>it \<in> its. ar_live a (it_id it) \<and> ar_hashv a (it_id it) = it_hashv it)"

lemma move_item_refines:
  assumes "expand_item ideal n it ex = Ok ex'" "moving a P N re ex"
    and "known a (insert it (set (items_of (ex_buckets ex))))"
    and "distinct (it_id it # map it_id (items_of (ex_buckets ex)))"
  shows "\<exists>re' P' N'. move_item ideal n (it_id it) re = Ok re' \<and> moving a P' N' re' ex' \<and>
    (\<forall>j. j \<noteq> it_id it \<longrightarrow> N' j = N j) \<and>
    (\<forall>j. j \<noteq> it_id it \<and> j \<notin> it_id ` set (items_of (ex_buckets ex)) \<longrightarrow> P' j = P j)"
proof -
  let ?b = "HASH_TO_BKT (it_hashv it) n" and ?i = "it_id it"
  note b = expand_item_Ok(1) [OF assms(1)]
  have re: "re_arena re = a\<lparr>ar_hh_prev := P, ar_hh_next := N\<rparr>"
    "list_all2 (bucket_rep P N) (re_buckets re) (ex_buckets ex)" "re_nonideal re = ex_nonideal ex"
    using assms(2) by (auto simp: moving_def)
  have len: "length (re_buckets re) = length (ex_buckets ex)" using re(2) by (rule list_all2_lengthD)
  have "bucket_rep P N (re_buckets re ! ?b) (ex_buckets ex ! ?b)"
    using re(2) b by (simp add: list_all2_conv_all_nth)
  then have eq: "ch_count (re_buckets re ! ?b) = bk_count (ex_buckets ex ! ?b)"
    "ch_expand_mult (re_buckets re ! ?b) = bk_expand_mult (ex_buckets ex ! ?b)"
    by (auto simp: bucket_rep_def)
  let ?p = "ch_head (re_buckets re ! ?b)"
  define bk where "bk = ex_buckets ex' ! ?b"
  define c where "c = \<lparr>ch_head = Some ?i, ch_count = bk_count bk, ch_expand_mult = bk_expand_mult bk\<rparr>"
  have upd: "ex_buckets ex' = (ex_buckets ex)[?b := bk]" "bk_chain bk = it # bk_chain (ex_buckets ex ! ?b)"
    using expand_item_Ok(2) [OF assms(1)] b by (auto simp: bk_def)
  have live: "ar_live a q" if "?p = Some q" for q
    using head_live [OF re(2) b _ that, where L = "ar_live a"] assms(3) by (simp add: known_def)
  let ?P = "push_prev ?i ?p P" and ?N = "N(?i := ?p)"
  have store: "set_hh_prev ?p (Some ?i) (a\<lparr>ar_hh_prev := P(?i := None), ar_hh_next := ?N\<rparr>) =
      Ok (a\<lparr>ar_hh_prev := ?P, ar_hh_next := ?N\<rparr>)"
    using set_hh_prev_push [of ?p "a\<lparr>ar_hh_prev := P\<rparr>" ?i ?N] live by simp
  have "ar_live a ?i" "ar_hashv a ?i = it_hashv it" using assms(3) by (auto simp: known_def)
  then have "move_item ideal n ?i re = Ok \<lparr>re_arena = a\<lparr>ar_hh_prev := ?P, ar_hh_next := ?N\<rparr>,
      re_buckets = (re_buckets re)[?b := c], re_nonideal = ex_nonideal ex'\<rparr>"
    using assms(1) b len
    by (auto simp: move_item_def re(1,3) element_def Let_def store eq expand_item_def c_def bk_def not_le)
  moreover have "moving a ?P ?N \<lparr>re_arena = a\<lparr>ar_hh_prev := ?P, ar_hh_next := ?N\<rparr>,
      re_buckets = (re_buckets re)[?b := c], re_nonideal = ex_nonideal ex'\<rparr> ex'"
    using assms(4) by (auto simp: moving_def upd intro: buckets_push [OF re(2) _ _ b c_def upd(2)])
  moreover have "?P j = P j" if "j \<noteq> ?i" "j \<notin> it_id ` set (items_of (ex_buckets ex))" for j
    using that head_live [OF re(2) b, of "\<lambda>i. i \<in> it_id ` set (items_of (ex_buckets ex))"]
    by (intro push_prev_other) auto
  ultimately show ?thesis by (intro exI conjI) auto
qed

text \<open>
  The loop along one old chain: the links behind the current node have not been written yet, and
  only nodes of the chain and of the new buckets are.
\<close>

lemma move_chain_refines:
  assumes "expand_items ideal n its ex = Ok ex'" "moving a P N re ex"
    and "dll P N pr p (map it_id its) e None"
    and "known a (set its \<union> set (items_of (ex_buckets ex)))"
    and "distinct (map it_id its @ map it_id (items_of (ex_buckets ex)))"
  shows "\<exists>re' P' N'. move_chain ideal n p re = Some (Ok re') \<and> moving a P' N' re' ex' \<and>
    mset (items_of (ex_buckets ex')) = mset its + mset (items_of (ex_buckets ex)) \<and>
    (\<forall>j. j \<notin> it_id ` (set its \<union> set (items_of (ex_buckets ex))) \<longrightarrow> P' j = P j \<and> N' j = N j)"
  using assms
proof (induction its arbitrary: ex p pr P N re)
  case Nil
  then show ?case by (auto simp: move_chain.simps)
next
  case (Cons it its)
  let ?i = "it_id it"
  obtain ex1 where ex1: "expand_item ideal n it ex = Ok ex1" "expand_items ideal n its ex1 = Ok ex'"
    using Cons.prems(1) by (auto simp: and_then_Ok_iff)
  have p: "p = Some ?i" "dll P N (Some ?i) (N ?i) (map it_id its) e None" using Cons.prems(3) by auto
  obtain re1 P1 N1 where re1: "move_item ideal n ?i re = Ok re1" "moving a P1 N1 re1 ex1"
    and frame: "\<And>j. j \<noteq> ?i \<Longrightarrow> N1 j = N j"
      "\<And>j. j \<noteq> ?i \<Longrightarrow> j \<notin> it_id ` set (items_of (ex_buckets ex)) \<Longrightarrow> P1 j = P j"
    using move_item_refines [OF ex1(1) Cons.prems(2)] Cons.prems(4,5) by (auto simp: known_def)
  have ms: "mset (items_of (ex_buckets ex1)) = add_mset it (mset (items_of (ex_buckets ex)))"
    by (rule expand_item_Ok(3) [OF ex1(1)])
  then have items1: "set (items_of (ex_buckets ex1)) = insert it (set (items_of (ex_buckets ex)))"
    by (metis set_mset_mset set_mset_add_mset_insert)
  have "mset (map it_id (items_of (ex_buckets ex1))) = mset (?i # map it_id (items_of (ex_buckets ex)))"
    using ms by simp
  moreover have "distinct (?i # map it_id (items_of (ex_buckets ex)))" using Cons.prems(5) by auto
  ultimately have "distinct (map it_id (items_of (ex_buckets ex1)))"
    by (metis mset_eq_imp_distinct_iff)
  then have dist: "distinct (map it_id its @ map it_id (items_of (ex_buckets ex1)))"
    using Cons.prems(5) items1 by auto
  have rest: "dll P1 N1 (Some ?i) (N ?i) (map it_id its) e None" if "its = [] \<or> P1 (hd (map it_id its)) = Some ?i"
  proof -
    have "j \<noteq> ?i \<and> j \<notin> it_id ` set (items_of (ex_buckets ex))" if "j \<in> set (map it_id its)" for j
      using that Cons.prems(5) by (cases "j = ?i") auto
    then have "dll P1 N1 (Some ?i) (N ?i) (map it_id its) e None \<longleftrightarrow>
        dll P N (Some ?i) (N ?i) (map it_id its) e None"
      using frame by (intro dll_cong) auto
    then show ?thesis using p(2) by simp
  qed
  have "P1 (hd (map it_id its)) = Some ?i" if "its \<noteq> []"
  proof -
    have "hd (map it_id its) \<in> set (map it_id its)" using that by (intro hd_in_set) simp
    then have "P1 (hd (map it_id its)) = P (hd (map it_id its))"
      using Cons.prems(5) by (intro frame(2)) auto
    then show ?thesis using p(2) that by (cases its) auto
  qed
  then have links: "dll P1 N1 (Some ?i) (N ?i) (map it_id its) e None" using rest by blast
  have know: "known a (set its \<union> set (items_of (ex_buckets ex1)))"
    using Cons.prems(4) items1 by (auto simp: known_def)
  obtain re' P' N' where IH: "move_chain ideal n (N ?i) re1 = Some (Ok re') \<and> moving a P' N' re' ex' \<and>
    mset (items_of (ex_buckets ex')) = mset its + mset (items_of (ex_buckets ex1)) \<and>
    (\<forall>j. j \<notin> it_id ` (set its \<union> set (items_of (ex_buckets ex1))) \<longrightarrow> P' j = P1 j \<and> N' j = N1 j)"
    using Cons.IH [OF ex1(2) re1(2) links know dist] by (elim exE)
  have "ar_hh_next (re_arena re) = N" using Cons.prems(2) by (simp add: moving_def)
  then have "move_chain ideal n p re = Some (Ok re')"
    using IH re1(1) p(1) by (subst move_chain.simps) simp
  moreover have "P' j = P j \<and> N' j = N j" if "j \<notin> it_id ` (set (it # its) \<union> set (items_of (ex_buckets ex)))" for j
    using IH frame [of j] that items1 by auto
  ultimately show ?case using IH ms by (intro exI [of _ re'] exI [of _ P'] exI [of _ N']) auto
qed

lemma expand_items_append:
  "expand_items ideal n (xs @ ys) ex = and_then (expand_items ideal n xs ex) (expand_items ideal n ys)"
proof (induction xs arbitrary: ex)
  case (Cons x xs)
  then show ?case by (cases "expand_item ideal n x ex") simp_all
qed simp

text \<open>The loop over the old buckets, whose heads are not written.\<close>

lemma move_chains_refines:
  assumes "expand_items ideal n (items_of bks) ex = Ok ex'" "moving a P N re ex"
    and "list_all2 (bucket_rep P N) cs bks"
    and "known a (set (items_of bks) \<union> set (items_of (ex_buckets ex)))"
    and "distinct (map it_id (items_of bks) @ map it_id (items_of (ex_buckets ex)))"
  shows "\<exists>re' P' N'. move_chains ideal n cs re = Some (Ok re') \<and> moving a P' N' re' ex'"
  using assms
proof (induction bks arbitrary: cs P N re ex)
  case Nil
  then show ?case by (auto simp: items_of_def)
next
  case (Cons bk bks)
  obtain c cs' where cs: "cs = c # cs'" "bucket_rep P N c bk" "list_all2 (bucket_rep P N) cs' bks"
    using Cons.prems(3) by (auto simp: list_all2_Cons2)
  have items: "items_of (bk # bks) = bk_chain bk @ items_of bks" by (simp add: items_of_def)
  obtain ex1 where ex1: "expand_items ideal n (bk_chain bk) ex = Ok ex1" "expand_items ideal n (items_of bks) ex1 = Ok ex'"
    using Cons.prems(1) by (auto simp: items expand_items_append and_then_Ok_iff)
  obtain e where e: "dll P N None (ch_head c) (map it_id (bk_chain bk)) e None"
    using cs(2) by (auto simp: bucket_rep_def)
  have here: "known a (set (bk_chain bk) \<union> set (items_of (ex_buckets ex)))"
    "distinct (map it_id (bk_chain bk) @ map it_id (items_of (ex_buckets ex)))"
    using Cons.prems(4,5) by (auto simp: known_def items)
  obtain re1 P1 N1 where 1: "move_chain ideal n (ch_head c) re = Some (Ok re1) \<and> moving a P1 N1 re1 ex1 \<and>
    mset (items_of (ex_buckets ex1)) = mset (bk_chain bk) + mset (items_of (ex_buckets ex)) \<and>
    (\<forall>j. j \<notin> it_id ` (set (bk_chain bk) \<union> set (items_of (ex_buckets ex))) \<longrightarrow> P1 j = P j \<and> N1 j = N j)"
    using move_chain_refines [OF ex1(1) Cons.prems(2) e here] by (elim exE)
  have items1: "set (items_of (ex_buckets ex1)) = set (bk_chain bk) \<union> set (items_of (ex_buckets ex))"
    using 1 by (metis set_mset_mset set_mset_union)
  have "mset (map it_id (items_of (ex_buckets ex1))) =
      mset (map it_id (bk_chain bk) @ map it_id (items_of (ex_buckets ex)))"
    using 1 by simp
  then have "distinct (map it_id (items_of (ex_buckets ex1)))"
    using here(2) by (metis mset_eq_imp_distinct_iff)
  then have dist: "distinct (map it_id (items_of bks) @ map it_id (items_of (ex_buckets ex1)))"
    using Cons.prems(5) items1 by (auto simp: items)
  have know: "known a (set (items_of bks) \<union> set (items_of (ex_buckets ex1)))"
    using Cons.prems(4) items1 by (auto simp: known_def items)
  have "i \<notin> it_id ` (set (bk_chain bk) \<union> set (items_of (ex_buckets ex)))" if "i \<in> it_id ` set (items_of bks)" for i
    using that Cons.prems(5) by (auto simp: items)
  then have old: "list_all2 (bucket_rep P1 N1) cs' bks"
    using 1 by (intro buckets_rep_frame [OF cs(3)]) blast
  have "moving a P1 N1 re1 ex1" using 1 by simp
  then obtain re' P' N' where "move_chains ideal n cs' re1 = Some (Ok re') \<and> moving a P' N' re' ex'"
    using Cons.IH [OF ex1(2) _ old know dist] by blast
  then show ?case using 1 cs(1) by auto
qed

text \<open>
  What is done to the chains of a table: the two levels agree on failures, and otherwise on the
  result; of the heap, only the links of the chains and the table are written.
\<close>

definition chains_result :: "arena \<Rightarrow> nat \<Rightarrow> nat option \<Rightarrow> arena outcome option \<Rightarrow> hash_table outcome \<Rightarrow> bool" where
  "chains_result a t tail r m \<longleftrightarrow>
     (case (r, m) of
        (Some (Ok a'), Ok T) \<Rightarrow> \<exists>P N pt. a' = put_table t (Some pt) (a\<lparr>ar_hh_prev := P, ar_hh_next := N\<rparr>) \<and>
          table_rep P N pt T \<and> to_tail pt = tail
      | (Some (Fail e), Fail e') \<Rightarrow> e = e'
      | _ \<Rightarrow> False)"

lemma expand_items_Fail: "expand_items ideal n its ex = Fail e \<Longrightarrow> e = Undefined_Behaviour"
proof (induction its arbitrary: ex)
  case (Cons it its)
  then show ?case
    by (cases "expand_item ideal n it ex") (auto simp: expand_item_def Let_def split: if_splits)
qed simp

lemma no_chains_rep: "list_all2 (bucket_rep P N) (replicate n no_chain) (replicate n empty_bucket)"
  by (simp add: list_all2_conv_all_nth bucket_rep_def no_chain_def empty_bucket_def)

lemma HASH_EXPAND_BUCKETS_refines:
  assumes rep: "table_rep (ar_hh_prev a) (ar_hh_next a) pt T"
    and "known a (set (items_of (ht_buckets T)))" "distinct (map it_id (items_of (ht_buckets T)))"
    and "length (ht_buckets T) = unat (ht_num_buckets T)"
    and "HASH_EXPAND_BUCKETS mem T \<noteq> Fail Undefined_Behaviour"
  shows "chains_result a t (to_tail pt) (HASH_EXPAND_BUCKETS_at mem t pt a) (HASH_EXPAND_BUCKETS mem T)"
proof -
  have eqs: "to_num_buckets pt = ht_num_buckets T" "to_log2_num_buckets pt = ht_log2_num_buckets T"
    "to_num_items pt = ht_num_items T" "to_ineff_expands pt = ht_ineff_expands T" "to_noexpand pt = ht_noexpand T"
    "list_all2 (bucket_rep (ar_hh_prev a) (ar_hh_next a)) (to_buckets pt) (ht_buckets T)"
    using rep by (auto simp: table_rep_def)
  have len: "length (to_buckets pt) = unat (ht_num_buckets T)"
    using list_all2_lengthD [OF eqs(6)] assms(4) by simp
  show ?thesis
  proof (cases "mem (sizeof_bucket * unat (ht_num_buckets T) * 2)")
    case False
    then show ?thesis
      by (simp add: chains_result_def HASH_EXPAND_BUCKETS_at_def HASH_EXPAND_BUCKETS_def uthash_malloc_def eqs)
  next
    case True
    define n where "n = ht_num_buckets T * 2"
    define ideal where "ideal = drop_bit (unat (ht_log2_num_buckets T + 1)) (ht_num_items T) +
        (if ht_num_items T AND (n - 1) \<noteq> 0 then 1 else 0)"
    define ex0 where "ex0 = \<lparr>ex_buckets = replicate (unat (ht_num_buckets T) * 2) empty_bucket, ex_nonideal = 0\<rparr>"
    define re0 where "re0 = \<lparr>re_arena = a, re_buckets = replicate (unat (ht_num_buckets T) * 2) no_chain,
        re_nonideal = (0 :: u32)\<rparr>"
    have all: "concat (map bk_chain (take (unat (ht_num_buckets T)) (ht_buckets T))) = items_of (ht_buckets T)"
      using assms(4) by (simp add: items_of_def)
    have none: "items_of (ex_buckets ex0) = []" by (simp add: ex0_def)
    obtain ex where ex: "expand_items ideal n (items_of (ht_buckets T)) ex0 = Ok ex"
    proof (cases "expand_items ideal n (items_of (ht_buckets T)) ex0")
      case (Fail e)
      then have "HASH_EXPAND_BUCKETS mem T = Fail Undefined_Behaviour"
        using expand_items_Fail [OF Fail] True all
        by (simp add: HASH_EXPAND_BUCKETS_def uthash_malloc_def Let_def ideal_def n_def ex0_def)
      then show ?thesis using assms(5) by simp
    qed
    have "moving a (ar_hh_prev a) (ar_hh_next a) re0 ex0"
      by (simp add: moving_def re0_def ex0_def no_chains_rep)
    then obtain re P N where re: "move_chains ideal n (to_buckets pt) re0 = Some (Ok re)" "moving a P N re ex"
      using move_chains_refines [OF ex _ eqs(6)] assms(2,3) none by fastforce
    define ineff where "ineff = (if drop_bit 1 (ht_num_items T) < ex_nonideal ex then ht_ineff_expands T + 1 else 0)"
    have moved: "re_arena re = a\<lparr>ar_hh_prev := P, ar_hh_next := N\<rparr>"
      "list_all2 (bucket_rep P N) (re_buckets re) (ex_buckets ex)" "re_nonideal re = ex_nonideal ex"
      using re(2) by (auto simp: moving_def)
    define T' where "T' = T\<lparr>ht_buckets := ex_buckets ex, ht_num_buckets := n,
        ht_log2_num_buckets := ht_log2_num_buckets T + 1, ht_ideal_chain_maxlen := ideal,
        ht_nonideal_items := ex_nonideal ex, ht_ineff_expands := ineff, ht_noexpand := ht_noexpand T \<or> 1 < ineff\<rparr>"
    define pt' where "pt' = pt\<lparr>to_buckets := re_buckets re, to_num_buckets := n,
        to_log2_num_buckets := ht_log2_num_buckets T + 1, to_ideal_chain_maxlen := ideal,
        to_nonideal_items := ex_nonideal ex, to_ineff_expands := ineff, to_noexpand := ht_noexpand T \<or> 1 < ineff\<rparr>"
    have "HASH_EXPAND_BUCKETS mem T = Ok T'"
      using True by (simp add: HASH_EXPAND_BUCKETS_def uthash_malloc_def Let_def all ex
          ideal_def [symmetric] n_def [symmetric] ex0_def [symmetric] T'_def ineff_def)
    moreover have "HASH_EXPAND_BUCKETS_at mem t pt a =
        Some (Ok (put_table t (Some pt') (a\<lparr>ar_hh_prev := P, ar_hh_next := N\<rparr>)))"
      using True len by (simp add: HASH_EXPAND_BUCKETS_at_def uthash_malloc_def Let_def eqs(1-5) re(1) moved(1,3)
          ideal_def [symmetric] n_def [symmetric] re0_def [symmetric] pt'_def ineff_def)
    moreover have "table_rep P N pt' T' \<and> to_tail pt' = to_tail pt"
      using rep moved(2) by (simp add: table_rep_def pt'_def T'_def)
    ultimately show ?thesis by (auto simp: chains_result_def)
  qed
qed

text \<open>Stores into different fields commute: the table is put last, the backward links first.\<close>

lemma arena_order:
  "a\<lparr>ar_hh_next := N, ar_hh_prev := P\<rparr> = a\<lparr>ar_hh_prev := P, ar_hh_next := N\<rparr>"
  "a\<lparr>ar_next := N, ar_prev := P\<rparr> = a\<lparr>ar_prev := P, ar_next := N\<rparr>"
  "put_table t pt a\<lparr>ar_hh_prev := P\<rparr> = put_table t pt (a\<lparr>ar_hh_prev := P\<rparr>)"
  "put_table t pt a\<lparr>ar_hh_next := P\<rparr> = put_table t pt (a\<lparr>ar_hh_next := P\<rparr>)"
  "put_table t pt a\<lparr>ar_prev := P\<rparr> = put_table t pt (a\<lparr>ar_prev := P\<rparr>)"
  "put_table t pt a\<lparr>ar_next := P\<rparr> = put_table t pt (a\<lparr>ar_next := P\<rparr>)"
  by (simp_all add: put_table_def)

lemma put_table_simps [simp]:
  "ar_tables (put_table t pt a) t = pt"
  "ar_live (put_table t pt a) = ar_live a" "ar_tbl (put_table t pt a) = ar_tbl a"
  "ar_prev (put_table t pt a) = ar_prev a" "ar_next (put_table t pt a) = ar_next a"
  "ar_hh_prev (put_table t pt a) = ar_hh_prev a" "ar_hh_next (put_table t pt a) = ar_hh_next a"
  "ar_key (put_table t pt a) = ar_key a" "ar_keylen (put_table t pt a) = ar_keylen a"
  "ar_hashv (put_table t pt a) = ar_hashv a"
  "put_table t pt (put_table t pt' a) = put_table t pt a"
  by (simp_all add: put_table_def)

lemma table_at_Ok: "table_at a i = Ok (t, pt) \<longleftrightarrow> ar_live a i \<and> ar_tbl a i = Some t \<and> ar_tables a t = Some pt"
  by (auto simp: table_at_def element_def and_then_Ok_iff defined_def split: option.splits)

lemma chains_resultI:
  "table_rep P N pt T \<Longrightarrow> to_tail pt = tail \<Longrightarrow>
     chains_result a t tail (Some (Ok (put_table t (Some pt) (a\<lparr>ar_hh_prev := P, ar_hh_next := N\<rparr>)))) (Ok T)"
  by (auto simp: chains_result_def)

lemma chains_result_trans:
  assumes "chains_result (put_table t (Some pt) (a\<lparr>ar_hh_prev := P, ar_hh_next := N\<rparr>)) t tail r m"
  shows "chains_result a t tail r m"
  using assms by (fastforce simp: chains_result_def put_table_def split: option.splits outcome.splits)

lemma HASH_ADD_TO_BKT_refines:
  assumes rep: "table_rep (ar_hh_prev a) (ar_hh_next a) pt T"
    and known: "known a (insert it (set (items_of (ht_buckets T))))" "ar_tbl a (it_id it) = Some t"
    and dist: "distinct (it_id it # map it_id (items_of (ht_buckets T)))"
    and ok: "shape_ok T" "HASH_ADD_TO_BKT mem (HASH_TO_BKT (it_hashv it) (ht_num_buckets T)) it T \<noteq> Fail Undefined_Behaviour"
  shows "chains_result a t (to_tail pt)
    (HASH_ADD_TO_BKT_at mem t pt (HASH_TO_BKT (it_hashv it) (ht_num_buckets T)) (it_id it) a)
    (HASH_ADD_TO_BKT mem (HASH_TO_BKT (it_hashv it) (ht_num_buckets T)) it T)"
proof -
  let ?i = "it_id it" and ?b = "HASH_TO_BKT (it_hashv it) (ht_num_buckets T)"
  let ?bk = "ht_buckets T ! ?b" and ?c = "to_buckets pt ! ?b"
  have eqs: "to_num_buckets pt = ht_num_buckets T"
    "to_noexpand pt = ht_noexpand T" "list_all2 (bucket_rep (ar_hh_prev a) (ar_hh_next a)) (to_buckets pt) (ht_buckets T)"
    using rep by (auto simp: table_rep_def)
  have b: "?b < length (ht_buckets T)" using ok(1) bucket_in_range by (auto simp: shape_ok_def)
  have len: "length (to_buckets pt) = length (ht_buckets T)" using eqs(3) by (rule list_all2_lengthD)
  have bucket: "ch_count ?c = bk_count ?bk" "ch_expand_mult ?c = bk_expand_mult ?bk"
    using eqs(3) b by (auto simp: list_all2_conv_all_nth bucket_rep_def)
  define bk where "bk = ?bk\<lparr>bk_chain := it # bk_chain ?bk, bk_count := bk_count ?bk + 1\<rparr>"
  define c where "c = \<lparr>ch_head = Some ?i, ch_count = bk_count bk, ch_expand_mult = bk_expand_mult bk\<rparr>"
  define T1 where "T1 = T\<lparr>ht_buckets := (ht_buckets T)[?b := bk]\<rparr>"
  define pt1 where "pt1 = pt\<lparr>to_buckets := (to_buckets pt)[?b := c]\<rparr>"
  let ?P = "push_prev ?i (ch_head ?c) (ar_hh_prev a)" and ?N = "(ar_hh_next a)(?i := ch_head ?c)"
  define a1 where "a1 = put_table t (Some pt1) (a\<lparr>ar_hh_prev := ?P, ar_hh_next := ?N\<rparr>)"
  have "list_all2 (bucket_rep ?P ?N) ((to_buckets pt)[?b := c]) ((ht_buckets T)[?b := bk])"
    by (rule buckets_push [OF eqs(3) _ _ b c_def]) (use dist in \<open>auto simp: bk_def\<close>)
  then have rep1: "table_rep ?P ?N pt1 T1" using rep by (simp add: table_rep_def pt1_def T1_def)
  have items1: "mset (items_of (ht_buckets T1)) = add_mset it (mset (items_of (ht_buckets T)))"
    using items_of_push [OF b, of bk it] by (simp add: T1_def bk_def)
  then have set1: "set (items_of (ht_buckets T1)) = insert it (set (items_of (ht_buckets T)))"
    by (metis set_mset_mset set_mset_add_mset_insert)
  have "mset (map it_id (items_of (ht_buckets T1))) = mset (?i # map it_id (items_of (ht_buckets T)))"
    using items1 by simp
  then have dist1: "distinct (map it_id (items_of (ht_buckets T1)))"
    using dist by (metis mset_eq_imp_distinct_iff)
  have live: "ar_live a q" if "ch_head ?c = Some q" for q
    using head_live [OF eqs(3) b _ that, where L = "ar_live a"] known(1) by (simp add: known_def)
  have hashv: "ar_hashv a ?i = it_hashv it" "ar_live a ?i" using known(1) by (auto simp: known_def)
  have store: "set_hh_prev (ch_head ?c) (Some ?i)
      (a\<lparr>ar_hh_next := ?N, ar_hh_prev := (ar_hh_prev a)(?i := None)\<rparr>) =
      Ok (a\<lparr>ar_hh_prev := ?P, ar_hh_next := ?N\<rparr>)"
    using set_hh_prev_push [of "ch_head ?c" a ?i ?N] live by (simp add: arena_order)
  have step: "HASH_ADD_TO_BKT_at mem t pt ?b ?i a =
      (if (bk_expand_mult bk + 1) * HASH_BKT_CAPACITY_THRESH \<le> bk_count bk \<and> \<not> ht_noexpand T1
       then HASH_EXPAND_BUCKETS_at mem t pt1 a1 else Some (Ok a1))"
  proof -
    have "table_at a1 ?i = Ok (t, pt1)"
      using known(2) hashv by (simp add: table_at_Ok a1_def)
    moreover have "?c\<lparr>ch_head := Some ?i, ch_count := ch_count ?c + 1\<rparr> = c"
      by (rule chain_head.equality) (simp_all add: c_def bk_def bucket)
    moreover have "to_noexpand pt1 = ht_noexpand T1" "bk_count bk = ch_count ?c + 1"
      "bk_expand_mult bk = ch_expand_mult ?c"
      using eqs(2) by (simp_all add: pt1_def T1_def bk_def bucket)
    ultimately show ?thesis
      using b len hashv
      by (simp add: HASH_ADD_TO_BKT_at_def Let_def eqs(1) store
          pt1_def [symmetric] a1_def [symmetric])
  qed
  have list_step: "HASH_ADD_TO_BKT mem ?b it T =
      (if (bk_expand_mult bk + 1) * HASH_BKT_CAPACITY_THRESH \<le> bk_count bk \<and> \<not> ht_noexpand T1
       then HASH_EXPAND_BUCKETS mem T1 else Ok T1)"
    using b by (simp add: HASH_ADD_TO_BKT_def Let_def bk_def T1_def)
  show ?thesis
  proof (cases "(bk_expand_mult bk + 1) * HASH_BKT_CAPACITY_THRESH \<le> bk_count bk \<and> \<not> ht_noexpand T1")
    case True
    have "chains_result a1 t (to_tail pt1) (HASH_EXPAND_BUCKETS_at mem t pt1 a1) (HASH_EXPAND_BUCKETS mem T1)"
    proof (rule HASH_EXPAND_BUCKETS_refines)
      show "table_rep (ar_hh_prev a1) (ar_hh_next a1) pt1 T1" using rep1 by (simp add: a1_def)
      show "known a1 (set (items_of (ht_buckets T1)))" using known(1) set1 by (simp add: known_def a1_def)
      show "distinct (map it_id (items_of (ht_buckets T1)))" by (rule dist1)
      show "length (ht_buckets T1) = unat (ht_num_buckets T1)"
        using ok(1) by (simp add: T1_def shape_ok_def chains_ok_def)
      show "HASH_EXPAND_BUCKETS mem T1 \<noteq> Fail Undefined_Behaviour" using ok(2) list_step True by simp
    qed
    then show ?thesis
      using step list_step True chains_result_trans by (simp add: a1_def pt1_def)
  next
    case False
    then have "HASH_ADD_TO_BKT_at mem t pt ?b ?i a = Some (Ok a1)" "HASH_ADD_TO_BKT mem ?b it T = Ok T1"
      using step list_step by (simp_all only: if_False)
    then show ?thesis using rep1 by (simp add: a1_def pt1_def chains_resultI)
  qed
qed

lemma HASH_ADD_TO_TABLE_refines:
  assumes at: "table_at a head = Ok (t, pt)"
    and rep: "table_rep (ar_hh_prev a) (ar_hh_next a) pt T"
    and known: "known a (insert it (set (items_of (ht_buckets T))))" "ar_tbl a (it_id it) = Some t"
    and dist: "distinct (it_id it # map it_id (items_of (ht_buckets T)))"
    and ok: "table_ok T" "HASH_ADD_TO_TABLE mem it T \<noteq> Fail Undefined_Behaviour"
  shows "chains_result a t (to_tail pt) (HASH_ADD_TO_TABLE_at mem head (it_id it) a) (HASH_ADD_TO_TABLE mem it T)"
proof -
  let ?T = "T\<lparr>ht_num_items := ht_num_items T + 1\<rparr>" and ?pt = "pt\<lparr>to_num_items := to_num_items pt + 1\<rparr>"
  let ?a = "put_table t (Some ?pt) a"
  have "chains_result ?a t (to_tail ?pt)
      (HASH_ADD_TO_BKT_at mem t ?pt (HASH_TO_BKT (it_hashv it) (ht_num_buckets ?T)) (it_id it) ?a)
      (HASH_ADD_TO_BKT mem (HASH_TO_BKT (it_hashv it) (ht_num_buckets ?T)) it ?T)"
  proof (rule HASH_ADD_TO_BKT_refines)
    show "shape_ok ?T" using ok(1) by (simp add: table_ok_iff)
    show "HASH_ADD_TO_BKT mem (HASH_TO_BKT (it_hashv it) (ht_num_buckets ?T)) it ?T \<noteq> Fail Undefined_Behaviour"
      using ok(2) by (simp add: HASH_ADD_TO_TABLE_def)
  qed (use rep known dist in \<open>simp_all add: table_rep_def known_def\<close>)
  then have "chains_result a t (to_tail pt)
      (HASH_ADD_TO_BKT_at mem t ?pt (HASH_TO_BKT (it_hashv it) (ht_num_buckets T)) (it_id it) ?a)
      (HASH_ADD_TO_TABLE mem it T)"
    using chains_result_trans [where pt = ?pt and a = a and P = "ar_hh_prev a" and N = "ar_hh_next a"] by (simp add: HASH_ADD_TO_TABLE_def)
  moreover have "to_num_buckets pt = ht_num_buckets T" "ar_hashv a (it_id it) = it_hashv it"
    using rep known(1) by (simp_all add: table_rep_def known_def)
  ultimately show ?thesis using at by (simp add: HASH_ADD_TO_TABLE_at_def Let_def)
qed

section \<open>Checking and adding\<close>

lemma check_links_Ok:
  assumes "dll P N pr p ks e None" "\<And>i. i \<in> set ks \<Longrightarrow> ar_live a i"
  shows "check_links a P N pr p cnt = Some (Ok (cnt + of_nat (length ks)))"
  using assms
proof (induction ks arbitrary: pr p cnt)
  case Nil
  then show ?case by (simp add: check_links.simps)
next
  case (Cons i ks)
  then have "check_links a P N (Some i) (N i) (cnt + 1) = Some (Ok (cnt + 1 + of_nat (length ks)))"
    by (intro Cons.IH) auto
  then show ?case using Cons.prems by (subst check_links.simps) (simp add: add.assoc add.commute)
qed

lemma check_buckets_Ok:
  assumes "list_all2 (bucket_rep (ar_hh_prev a) (ar_hh_next a)) cs bks"
    and "\<And>bk. bk \<in> set bks \<Longrightarrow> bk_count bk = of_nat (length (bk_chain bk))"
    and "\<And>it. it \<in> set (items_of bks) \<Longrightarrow> ar_live a (it_id it)"
  shows "check_buckets a cs cnt = Some (Ok (cnt + of_nat (length (items_of bks))))"
  using assms
proof (induction arbitrary: cnt rule: list_all2_induct)
  case Nil
  then show ?case by (simp add: items_of_def)
next
  case (Cons c cs bk bks)
  obtain e where "dll (ar_hh_prev a) (ar_hh_next a) None (ch_head c) (map it_id (bk_chain bk)) e None"
    and c: "ch_count c = bk_count bk"
    using Cons.hyps(1) by (auto simp: bucket_rep_def)
  then have "check_links a (ar_hh_prev a) (ar_hh_next a) None (ch_head c) 0 = Some (Ok (bk_count bk))"
    using Cons.prems by (subst check_links_Ok) (auto simp: items_of_def)
  moreover have "check_buckets a cs (cnt + bk_count bk) =
      Some (Ok (cnt + bk_count bk + of_nat (length (items_of bks))))"
    using Cons.prems by (intro Cons.IH) (auto simp: items_of_def)
  ultimately show ?case using c Cons.prems(1) [of bk] by (simp add: items_of_def add.assoc)
qed

lemma untailed_repE:
  assumes "untailed_rep a head (Some h)" "hash_ok (Some h)"
  obtains t pt x e where "head = Some x" "table_at a x = Ok (t, pt)" "\<And>it. it \<in> set (h_items h) \<Longrightarrow> node_rep a t it"
    and "distinct (map it_id (h_items h))"
    and "dll (ar_prev a) (ar_next a) None head (map it_id (h_items h)) e None"
    and "table_rep (ar_hh_prev a) (ar_hh_next a) pt (h_tbl h)" "x = it_id (hd (h_items h))"
proof -
  obtain t pt e where *: "ar_tables a t = Some pt" "\<forall>it \<in> set (h_items h). node_rep a t it"
    "distinct (map it_id (h_items h))"
    "dll (ar_prev a) (ar_next a) None head (map it_id (h_items h)) e None"
    "table_rep (ar_hh_prev a) (ar_hh_next a) pt (h_tbl h)"
    using assms(1) by (auto simp: untailed_rep_def)
  have ne: "h_items h \<noteq> []" using assms(2) by (simp add: hash_ok_def)
  then have "head = Some (it_id (hd (h_items h)))" using dll_first [OF *(4)] by (simp add: hd_map)
  moreover have "table_at a (it_id (hd (h_items h))) = Ok (t, pt)"
    using *(1,2) ne by (simp add: table_at_Ok node_rep_def)
  ultimately show ?thesis using that * by blast
qed

lemma hash_repE:
  assumes "hash_rep a head (Some h)" "hash_ok (Some h)"
  obtains t pt x where "head = Some x" "table_at a x = Ok (t, pt)" "\<And>it. it \<in> set (h_items h) \<Longrightarrow> node_rep a t it"
    and "distinct (map it_id (h_items h))"
    and "dll (ar_prev a) (ar_next a) None head (map it_id (h_items h)) (to_tail pt) None"
    and "table_rep (ar_hh_prev a) (ar_hh_next a) pt (h_tbl h)" "x = it_id (hd (h_items h))"
proof -
  obtain t pt where rep: "ar_tables a t = Some pt" "\<forall>it \<in> set (h_items h). node_rep a t it"
    "dll (ar_prev a) (ar_next a) None head (map it_id (h_items h)) (to_tail pt) None"
    using assms(1) by (auto simp: hash_rep_def)
  obtain t' pt' x e where *: "head = Some x" "table_at a x = Ok (t', pt')" "\<And>it. it \<in> set (h_items h) \<Longrightarrow> node_rep a t' it"
    "distinct (map it_id (h_items h))" "dll (ar_prev a) (ar_next a) None head (map it_id (h_items h)) e None"
    "table_rep (ar_hh_prev a) (ar_hh_next a) pt' (h_tbl h)" "x = it_id (hd (h_items h))"
    by (rule untailed_repE [OF hash_rep_untailed [OF assms(1)] assms(2)]) (rule that)
  have "hd (h_items h) \<in> set (h_items h)" using assms(2) by (simp add: hash_ok_def)
  then have "t' = t" using rep(2) *(3) by (auto simp: node_rep_def)
  then have "pt' = pt" using *(2) rep(1) by (simp add: table_at_Ok)
  then show ?thesis using that * rep(3) by blast
qed

lemma HASH_FSCK_untailed:
  assumes "untailed_rep a head hs" "hash_ok hs"
  shows "HASH_FSCK_at a head = Some (Ok a)"
proof (cases hs)
  case None
  then show ?thesis using assms(1) by (simp add: untailed_rep_def HASH_FSCK_at_def)
next
  case (Some h)
  obtain t pt x e where rep: "head = Some x" "table_at a x = Ok (t, pt)"
    "\<And>it. it \<in> set (h_items h) \<Longrightarrow> node_rep a t it" "distinct (map it_id (h_items h))"
    "dll (ar_prev a) (ar_next a) None head (map it_id (h_items h)) e None"
    "table_rep (ar_hh_prev a) (ar_hh_next a) pt (h_tbl h)"
    by (rule untailed_repE [OF assms [unfolded Some]]) (rule that)
  let ?T = "h_tbl h"
  have ok: "table_ok ?T" "mset (items_of (ht_buckets ?T)) = mset (h_items h)"
    using assms(2) Some by (auto simp: hash_ok_def)
  have size: "length (items_of (ht_buckets ?T)) = length (h_items h)" "set (items_of (ht_buckets ?T)) = set (h_items h)"
    using ok(2) by (metis size_mset, metis set_mset_mset)
  have T: "length (ht_buckets ?T) = unat (ht_num_buckets ?T)" "ht_num_items ?T = of_nat (length (h_items h))"
    "\<And>bk. bk \<in> set (ht_buckets ?T) \<Longrightarrow> bk_count bk = of_nat (length (bk_chain bk))"
    using ok(1) size(1) by (auto simp: table_ok_def chains_ok_def chain_ok_def in_set_conv_nth)
  have pt: "list_all2 (bucket_rep (ar_hh_prev a) (ar_hh_next a)) (to_buckets pt) (ht_buckets ?T)"
    "to_num_buckets pt = ht_num_buckets ?T" "to_num_items pt = ht_num_items ?T"
    using rep(6) by (auto simp: table_rep_def)
  have live: "it \<in> set (h_items h) \<Longrightarrow> ar_live a (it_id it)" for it using rep(3) by (simp add: node_rep_def)
  have "check_buckets a (to_buckets pt) 0 = Some (Ok (of_nat (length (h_items h))))"
    using check_buckets_Ok [OF pt(1) T(3), of 0] live size by simp
  moreover have "check_links a (ar_prev a) (ar_next a) None head 0 = Some (Ok (of_nat (length (h_items h))))"
    using check_links_Ok [OF rep(5), of a 0] live by auto
  ultimately show ?thesis
    using rep(1,2) T(1,2) list_all2_lengthD [OF pt(1)] pt(2,3) by (simp add: HASH_FSCK_at_def)
qed

lemma HASH_FSCK_at_Ok: "hash_rep a head hs \<Longrightarrow> hash_ok hs \<Longrightarrow> HASH_FSCK_at a head = Some (Ok a)"
  by (rule HASH_FSCK_untailed [OF hash_rep_untailed])

text \<open>The two levels agree on failures, and otherwise the heap represents the result, with the
  entries \<open>live\<close>.\<close>

definition heap_result :: "(nat \<Rightarrow> bool) \<Rightarrow> (arena \<times> nat option) outcome option \<Rightarrow> hash option outcome \<Rightarrow> bool" where
  "heap_result live r m \<longleftrightarrow>
     (case (r, m) of
        (Some (Ok (a', head)), Ok hs) \<Rightarrow> hash_rep a' head hs \<and> ar_live a' = live
      | (Some (Fail e), Fail e') \<Rightarrow> e = e'
      | _ \<Rightarrow> False)"

text \<open>From the point where the entry has been linked among the others.\<close>

lemma add_linked_refines:
  assumes at: "table_at a h = Ok (t, pt)"
    and nodes: "\<And>x. x \<in> set its' \<Longrightarrow> node_rep a t x" "distinct (map it_id its')"
    and order: "dll (ar_prev a) (ar_next a) None (Some h) (map it_id its') (to_tail pt) None"
    and rep: "table_rep (ar_hh_prev a) (ar_hh_next a) pt T" "table_ok T" "mset (items_of (ht_buckets T)) = mset its"
    and among: "mset its' = add_mset it (mset its)"
    and hashv: "\<And>x. x \<in> set its' \<Longrightarrow> it_hashv x = HASH_VALUE (it_key x)"
    and "limited mem"
  shows "heap_result (ar_live a)
    (then_run (HASH_ADD_TO_TABLE_at mem h (it_id it) a) (\<lambda>a.
       then_run (HASH_FSCK_at a (Some h)) (\<lambda>a. Some (Ok (a, Some h)))))
    (and_then (HASH_ADD_TO_TABLE mem it T) (\<lambda>T. HASH_FSCK (Some \<lparr>h_items = its', h_tbl = T\<rparr>)))"
proof -
  have items: "set its' = insert it (set (items_of (ht_buckets T)))"
    using rep(3) among by (metis set_mset_add_mset_insert set_mset_mset)
  have "mset (it_id it # map it_id (items_of (ht_buckets T))) = mset (map it_id its')" using rep(3) among by simp
  then have dist: "distinct (it_id it # map it_id (items_of (ht_buckets T)))"
    using nodes(2) by (metis mset_eq_imp_distinct_iff)
  have known: "known a (insert it (set (items_of (ht_buckets T))))" "ar_tbl a (it_id it) = Some t"
    using nodes(1) items by (auto simp: known_def node_rep_def)
  note cases = HASH_ADD_TO_TABLE_cases [OF rep(2) \<open>limited mem\<close>, of it]
  then have "HASH_ADD_TO_TABLE mem it T \<noteq> Fail Undefined_Behaviour" by auto
  then have refined: "chains_result a t (to_tail pt) (HASH_ADD_TO_TABLE_at mem h (it_id it) a) (HASH_ADD_TO_TABLE mem it T)"
    by (rule HASH_ADD_TO_TABLE_refines [OF at rep(1) known dist rep(2)])
  show ?thesis
  proof (cases "HASH_ADD_TO_TABLE mem it T")
    case (Fail e)
    then show ?thesis using refined
      by (auto simp: chains_result_def heap_result_def split: option.splits outcome.splits)
  next
    case (Ok T')
    then obtain P N pt' where a': "HASH_ADD_TO_TABLE_at mem h (it_id it) a =
        Some (Ok (put_table t (Some pt') (a\<lparr>ar_hh_prev := P, ar_hh_next := N\<rparr>)))"
      "table_rep P N pt' T'" "to_tail pt' = to_tail pt"
      using refined by (auto simp: chains_result_def split: option.splits outcome.splits)
    let ?a = "put_table t (Some pt') (a\<lparr>ar_hh_prev := P, ar_hh_next := N\<rparr>)"
    let ?hs = "Some \<lparr>h_items = its', h_tbl = T'\<rparr>"
    have "hash_rep ?a (Some h) ?hs"
      using a'(2,3) nodes order by (auto simp: hash_rep_def node_rep_def intro!: exI [of _ t])
    moreover have "hash_ok ?hs"
      using cases Ok rep(3) hashv among by (auto simp: hash_ok_def)
    ultimately show ?thesis
      using a'(1) Ok HASH_FSCK_at_Ok [of ?a "Some h" ?hs] HASH_FSCK_ok [of ?hs] by (simp add: heap_result_def)
  qed
qed

lemma HASH_ADD_PTR_refines:
  assumes rep: "hash_rep a head hs" and ok: "hash_ok hs" and "limited mem"
    and new: "ar_live a i" "i \<notin> it_id ` set (items hs)"
  shows "heap_result (ar_live a) (HASH_ADD_PTR_at mem i key a head) (HASH_ADD_PTR mem i key hs)"
proof -
  define it where "it = \<lparr>it_id = i, it_key = key, it_hashv = HASH_VALUE key\<rparr>"
  define a0 where "a0 = a\<lparr>ar_hashv := (ar_hashv a)(i := HASH_VALUE key), ar_key := (ar_key a)(i := key),
      ar_keylen := (ar_keylen a)(i := 8)\<rparr>"
  have i: "it_id it = i" "it_hashv it = HASH_VALUE (it_key it)" by (simp_all add: it_def)
  show ?thesis
  proof (cases hs)
    case None
    then have head: "head = None" using rep by (simp add: hash_rep_def)
    define a1 where "a1 = a0\<lparr>ar_next := (ar_next a)(i := None), ar_prev := (ar_prev a)(i := None)\<rparr>"
    show ?thesis
    proof (cases "HASH_MAKE_TABLE mem")
      case (Fail e)
      then have "HASH_MAKE_TABLE_at mem i a' = Fail e" for a'
        by (auto simp: HASH_MAKE_TABLE_def HASH_MAKE_TABLE_at_def uthash_malloc_def split: if_splits)
      then show ?thesis using Fail None head new(1)
        by (simp add: HASH_ADD_PTR_at_def HASH_ADD_PTR_def heap_result_def element_def Let_def)
    next
      case (Ok T)
      define t where "t = ar_new_table a"
      define pt where "pt = \<lparr>to_buckets = replicate 32 no_chain, to_num_buckets = 32, to_log2_num_buckets = 5,
          to_num_items = 0, to_tail = Some i, to_ideal_chain_maxlen = 0, to_nonideal_items = 0,
          to_ineff_expands = 0, to_noexpand = False\<rparr>"
      define a2 where "a2 = put_table t (Some pt) (a1\<lparr>ar_tbl := (ar_tbl a)(i := Some t), ar_new_table := t + 1\<rparr>)"
      have made: "HASH_MAKE_TABLE_at mem i a1 = Ok a2" and T: "T = \<lparr>ht_buckets = replicate 32 empty_bucket,
          ht_num_buckets = 32, ht_log2_num_buckets = 5, ht_num_items = 0, ht_ideal_chain_maxlen = 0,
          ht_nonideal_items = 0, ht_ineff_expands = 0, ht_noexpand = False\<rparr>"
        using Ok by (auto simp: HASH_MAKE_TABLE_def HASH_MAKE_TABLE_at_def uthash_malloc_def a2_def pt_def t_def a1_def
            a0_def Let_def HASH_INITIAL_NUM_BUCKETS_def HASH_INITIAL_NUM_BUCKETS_LOG2_def split: if_splits)
      have "table_ok T" "items_of (ht_buckets T) = []"
        using HASH_MAKE_TABLE_cases [of mem] Ok by auto
      then have "heap_result (ar_live a2)
          (then_run (HASH_ADD_TO_TABLE_at mem i (it_id it) a2) (\<lambda>a.
             then_run (HASH_FSCK_at a (Some i)) (\<lambda>a. Some (Ok (a, Some i)))))
          (and_then (HASH_ADD_TO_TABLE mem it T) (\<lambda>T. HASH_FSCK (Some \<lparr>h_items = [] @ [it], h_tbl = T\<rparr>)))"
        using new(1) assms(3)
        by (intro add_linked_refines [where t = t and pt = pt])
          (auto simp: table_at_Ok a2_def a1_def a0_def node_rep_def it_def pt_def T table_rep_def no_chains_rep)
      then show ?thesis
        using made Ok new(1) None head i(1)
        by (simp add: HASH_ADD_PTR_at_def HASH_ADD_PTR_def element_def Let_def it_def [symmetric] a0_def [symmetric])
          (simp add: a1_def a2_def a0_def)
    qed
  next
    case (Some h)
    obtain t pt x where r: "head = Some x" "table_at a x = Ok (t, pt)"
      "\<And>y. y \<in> set (h_items h) \<Longrightarrow> node_rep a t y" "distinct (map it_id (h_items h))"
      "dll (ar_prev a) (ar_next a) None head (map it_id (h_items h)) (to_tail pt) None"
      "table_rep (ar_hh_prev a) (ar_hh_next a) pt (h_tbl h)" "x = it_id (hd (h_items h))"
      by (rule hash_repE [OF rep [unfolded Some] ok [unfolded Some]]) (rule that)
    have ne: "h_items h \<noteq> []" using ok Some by (simp add: hash_ok_def)
    have fresh: "i \<notin> set (map it_id (h_items h))" using new(2) Some by (simp add: items_def)
    obtain l where l: "to_tail pt = Some l" "l \<in> set (map it_id (h_items h))"
      using dll_last [OF r(5)] ne by (metis last_in_set list.map_disc_iff)
    have x: "x \<in> set (map it_id (h_items h))" using r(7) ne by simp
    have other: "l \<noteq> i" "x \<noteq> i" using l(2) x fresh by blast+
    define a1 where "a1 = a0\<lparr>ar_tbl := (ar_tbl a)(i := Some t)\<rparr>"
    define a2 where "a2 = put_table t (Some (pt\<lparr>to_tail := Some i\<rparr>))
        (a1\<lparr>ar_prev := (ar_prev a)(i := Some l), ar_next := (ar_next a)(i := None, l := Some i)\<rparr>)"
    have "ar_live a l" using l(2) r(3) by (auto simp: node_rep_def)
    moreover have tables: "table_at a0 x = Ok (t, pt)" "table_at a1 x = Ok (t, pt)"
      using r(2) other by (simp_all add: table_at_Ok a1_def a0_def)
    moreover have "ar_live a1 = ar_live a" "ar_prev a1 = ar_prev a" "ar_next a1 = ar_next a"
      by (simp_all add: a1_def a0_def)
    ultimately have linked: "HASH_APPEND_LIST x i a1 = Ok a2"
      using l(1) by (simp add: HASH_APPEND_LIST_def element_def Let_def a2_def arena_order)
    have order: "dll (ar_prev a2) (ar_next a2) None (Some x) (map it_id (h_items h) @ [i]) (Some i) None"
      using dll_snoc [OF _ r(4) fresh] r(1,5) ne l(1) by (simp add: a2_def)
    have "node_rep a2 t y" if "y \<in> set (h_items h)" for y
      using r(3) [OF that] that fresh by (auto simp: node_rep_def a2_def a1_def a0_def)
    moreover have "node_rep a2 t it" using new(1) by (simp add: node_rep_def a2_def a1_def a0_def it_def)
    ultimately have nodes: "node_rep a2 t y" if "y \<in> set (h_items h @ [it])" for y
      using that by auto
    have "heap_result (ar_live a2)
        (then_run (HASH_ADD_TO_TABLE_at mem x (it_id it) a2) (\<lambda>a.
           then_run (HASH_FSCK_at a (Some x)) (\<lambda>a. Some (Ok (a, Some x)))))
        (and_then (HASH_ADD_TO_TABLE mem it (h_tbl h)) (\<lambda>T. HASH_FSCK (Some \<lparr>h_items = h_items h @ [it], h_tbl = T\<rparr>)))"
    proof (rule add_linked_refines [OF _ nodes, where its = "h_items h"])
      show "table_at a2 x = Ok (t, pt\<lparr>to_tail := Some i\<rparr>)"
        using r(2) other by (simp add: table_at_Ok a2_def a1_def a0_def)
      show "distinct (map it_id (h_items h @ [it]))" using r(4) fresh by (simp add: i)
      show "dll (ar_prev a2) (ar_next a2) None (Some x) (map it_id (h_items h @ [it])) (to_tail (pt\<lparr>to_tail := Some i\<rparr>)) None"
        using order by (simp add: i)
      show "table_rep (ar_hh_prev a2) (ar_hh_next a2) (pt\<lparr>to_tail := Some i\<rparr>) (h_tbl h)"
        using r(6) by (simp add: table_rep_def a2_def a1_def a0_def)
      show "table_ok (h_tbl h)" "mset (items_of (ht_buckets (h_tbl h))) = mset (h_items h)"
        "\<And>y. y \<in> set (h_items h @ [it]) \<Longrightarrow> it_hashv y = HASH_VALUE (it_key y)"
        using ok Some i(2) by (auto simp: hash_ok_def)
    qed (use assms(3) in simp_all)
    moreover have "HASH_ADD_PTR_at mem i key a head = then_run (HASH_ADD_TO_TABLE_at mem x (it_id it) a2) (\<lambda>a.
        then_run (HASH_FSCK_at a (Some x)) (\<lambda>a. Some (Ok (a, Some x))))"
      using linked r(1) tables(1) new(1) i(1)
      by (simp add: HASH_ADD_PTR_at_def element_def Let_def a0_def [symmetric] a1_def [symmetric])
    moreover have "HASH_ADD_PTR mem i key hs = and_then (HASH_ADD_TO_TABLE mem it (h_tbl h)) (\<lambda>T.
        HASH_FSCK (Some \<lparr>h_items = h_items h @ [it], h_tbl = T\<rparr>))"
      using Some by (cases h) (simp add: HASH_ADD_PTR_def it_def Let_def)
    moreover have "ar_live a2 = ar_live a" by (simp add: a2_def a1_def a0_def)
    ultimately show ?thesis by simp
  qed
qed

section \<open>Finding\<close>

lemma HASH_FIND_IN_BKT_refines:
  assumes "dll P (ar_hh_next a) pr p (map it_id its) e None" "\<And>it. it \<in> set its \<Longrightarrow> node_rep a t it"
  shows "HASH_FIND_IN_BKT_at a p key hashv = Some (Ok (HASH_FIND_IN_BKT its key hashv))"
  using assms
proof (induction its arbitrary: pr p)
  case Nil
  then show ?case by (simp add: HASH_FIND_IN_BKT_at.simps)
next
  case (Cons it its)
  then have "HASH_FIND_IN_BKT_at a (ar_hh_next a (it_id it)) key hashv = Some (Ok (HASH_FIND_IN_BKT its key hashv))"
    by (intro Cons.IH) auto
  then show ?case
    using Cons.prems by (subst HASH_FIND_IN_BKT_at.simps) (auto simp: node_rep_def)
qed

lemma HASH_FIND_PTR_untailed:
  assumes "untailed_rep a head hs" "hash_ok hs"
  shows "HASH_FIND_PTR_at a head key = Some (HASH_FIND_PTR hs key)"
proof (cases hs)
  case None
  then show ?thesis using assms(1) by (simp add: untailed_rep_def HASH_FIND_PTR_at_def HASH_FIND_PTR_def)
next
  case (Some h)
  obtain t pt x where r: "head = Some x" "table_at a x = Ok (t, pt)"
    "\<And>y. y \<in> set (h_items h) \<Longrightarrow> node_rep a t y" "table_rep (ar_hh_prev a) (ar_hh_next a) pt (h_tbl h)"
    by (rule untailed_repE [OF assms [unfolded Some]]) (rule that)
  let ?T = "h_tbl h"
  let ?b = "HASH_TO_BKT (HASH_VALUE key) (ht_num_buckets ?T)"
  have ok: "table_ok ?T" "set (items_of (ht_buckets ?T)) = set (h_items h)"
    using assms(2) Some by (auto simp: hash_ok_def dest: mset_eq_setD)
  have b: "?b < length (ht_buckets ?T)" using ok(1) bucket_in_range by (auto simp: table_ok_def)
  have pt: "to_num_buckets pt = ht_num_buckets ?T"
    "list_all2 (bucket_rep (ar_hh_prev a) (ar_hh_next a)) (to_buckets pt) (ht_buckets ?T)"
    using r(4) by (auto simp: table_rep_def)
  then obtain e where "dll (ar_hh_prev a) (ar_hh_next a) None (ch_head (to_buckets pt ! ?b))
      (map it_id (bk_chain (ht_buckets ?T ! ?b))) e None"
    using b by (auto simp: list_all2_conv_all_nth bucket_rep_def)
  then have "HASH_FIND_IN_BKT_at a (ch_head (to_buckets pt ! ?b)) key (HASH_VALUE key) =
      Some (Ok (HASH_FIND_IN_BKT (bk_chain (ht_buckets ?T ! ?b)) key (HASH_VALUE key)))"
    using r(3) ok(2) chain_in_items [OF b] by (intro HASH_FIND_IN_BKT_refines [where t = t]) auto
  then show ?thesis
    using r(1,2) b pt list_all2_lengthD [OF pt(2)] Some
    by (simp add: HASH_FIND_PTR_at_def HASH_FIND_PTR_def Let_def)
qed

lemma HASH_FIND_PTR_refines: "hash_rep a head hs \<Longrightarrow> hash_ok hs \<Longrightarrow> HASH_FIND_PTR_at a head key = Some (HASH_FIND_PTR hs key)"
  by (rule HASH_FIND_PTR_untailed [OF hash_rep_untailed])

section \<open>Deleting\<close>

lemma remove_id:
  assumes "distinct (map it_id its)" "it \<in> set its"
  obtains xs ys where "its = xs @ it # ys" "remove1 it its = xs @ ys" "distinct (map it_id xs @ it_id it # map it_id ys)"
proof -
  obtain xs ys where "its = xs @ it # ys" "it \<notin> set xs" using split_list_first assms(2) by metis
  then show ?thesis using that assms(1) by (auto simp: remove1_append)
qed

text \<open>The links of the application order and of the chain, once the writes of the deletion are done.\<close>

lemma HASH_DEL_IN_BKT_refines:
  assumes rep: "table_rep (ar_hh_prev a) (ar_hh_next a) pt T"
    and known: "known a (set (items_of (ht_buckets T)))" "distinct (map it_id (items_of (ht_buckets T)))"
    and b: "b < length (ht_buckets T)" "it \<in> set (bk_chain (ht_buckets T ! b))"
  shows "\<exists>P N pt' T'. HASH_DEL_IN_BKT_at t pt b (it_id it) a =
      Ok (put_table t (Some pt') (a\<lparr>ar_hh_prev := P, ar_hh_next := N\<rparr>)) \<and>
    HASH_DEL_IN_BKT b it T = Ok T' \<and> table_rep P N pt' T' \<and> to_tail pt' = to_tail pt"
proof -
  let ?i = "it_id it" and ?bk = "ht_buckets T ! b" and ?c = "to_buckets pt ! b"
  let ?P = "ar_hh_prev a" and ?N = "ar_hh_next a"
  have buckets: "list_all2 (bucket_rep ?P ?N) (to_buckets pt) (ht_buckets T)" using rep by (simp add: table_rep_def)
  have len: "length (to_buckets pt) = length (ht_buckets T)" using buckets by (rule list_all2_lengthD)
  have c: "bucket_rep ?P ?N ?c ?bk" using buckets b by (simp add: list_all2_conv_all_nth)
  have "distinct (map it_id (bk_chain ?bk))"
    using known(2) b(1) by (auto simp: ids_items_of distinct_concat_iff)
  then obtain xs ys where split: "bk_chain ?bk = xs @ it # ys" "remove1 it (bk_chain ?bk) = xs @ ys"
    "distinct (map it_id xs @ ?i # map it_id ys)"
    using remove_id b(2) by metis
  obtain e where e: "dll ?P ?N None (ch_head ?c) (map it_id xs @ ?i # map it_id ys) e None"
    using c split(1) by (auto simp: bucket_rep_def)
  note node = dll_node [OF e]
  have neighbour: "j \<in> it_id ` set (bk_chain ?bk)" "j \<noteq> ?i" "ar_live a j" if "?P ?i = Some j \<or> ?N ?i = Some j" for j
  proof -
    have "j \<in> set (map it_id xs) \<or> j \<in> set (map it_id ys)"
      using that node(1,2) by (auto simp: last_map hd_map split: if_splits)
    then show "j \<in> it_id ` set (bk_chain ?bk)" "j \<noteq> ?i" "ar_live a j"
      using split known(1) chain_in_items [OF b(1)] by (auto simp: known_def)
  qed
  define P' where "P' = unlink_prev ?i ?N ?P"
  define N' where "N' = unlink_next ?i ?P ?N"
  define c' where "c' = \<lparr>ch_head = (if ch_head ?c = Some ?i then ?N ?i else ch_head ?c),
      ch_count = ch_count ?c - 1, ch_expand_mult = ch_expand_mult ?c\<rparr>"
  define bk' where "bk' = ?bk\<lparr>bk_chain := remove1 it (bk_chain ?bk), bk_count := bk_count ?bk - 1\<rparr>"
  define pt' where "pt' = pt\<lparr>to_buckets := (to_buckets pt)[b := c']\<rparr>"
  have "bucket_rep P' N' c' bk'"
    using dll_unlink [OF e split(3)] c split(2) by (auto simp: bucket_rep_def P'_def N'_def c'_def bk'_def)
  then have "list_all2 (bucket_rep P' N') ((to_buckets pt)[b := c']) ((ht_buckets T)[b := bk'])"
  proof (rule buckets_rep_update [OF buckets known(2) b(1)])
    fix j assume "j \<notin> it_id ` set (bk_chain ?bk)"
    then have "?P ?i \<noteq> Some j" "?N ?i \<noteq> Some j" using neighbour(1) by auto
    then show "P' j = ?P j \<and> N' j = ?N j"
      by (auto simp: P'_def N'_def unlink_prev_def unlink_next_def split: option.split)
  qed
  then have "table_rep P' N' pt' (T\<lparr>ht_buckets := (ht_buckets T)[b := bk']\<rparr>)"
    using rep by (simp add: table_rep_def pt'_def)
  moreover have "HASH_DEL_IN_BKT_at t pt b ?i a = Ok (put_table t (Some pt') (a\<lparr>ar_hh_prev := P', ar_hh_next := N'\<rparr>))"
  proof -
    have "set_hh_next (?P ?i) (?N ?i) a = Ok (a\<lparr>ar_hh_next := N'\<rparr>)"
      using neighbour(3) by (auto simp: set_hh_next_def element_def N'_def unlink_next_def split: option.split)
    moreover have "N' ?i = ?N ?i" using neighbour(2) by (auto simp: N'_def unlink_next_def split: option.split)
    moreover have "set_hh_prev (?N ?i) (?P ?i) (a\<lparr>ar_hh_next := N'\<rparr>) = Ok (a\<lparr>ar_hh_prev := P', ar_hh_next := N'\<rparr>)"
      using neighbour(3) by (auto simp: set_hh_prev_def element_def P'_def unlink_prev_def arena_order split: option.split)
    moreover have "(if ch_head ?c = Some ?i then ?c\<lparr>ch_count := ch_count ?c - 1\<rparr>\<lparr>ch_head := ?N ?i\<rparr>
        else ?c\<lparr>ch_count := ch_count ?c - 1\<rparr>) = c'"
      by (auto simp: c'_def intro: chain_head.equality)
    ultimately show ?thesis
      using b(1) len by (simp add: HASH_DEL_IN_BKT_at_def Let_def pt'_def)
  qed
  moreover have "HASH_DEL_IN_BKT b it T = Ok (T\<lparr>ht_buckets := (ht_buckets T)[b := bk']\<rparr>)"
    using b by (simp add: HASH_DEL_IN_BKT_def Let_def bk'_def)
  moreover have "to_tail pt' = to_tail pt" by (simp add: pt'_def)
  ultimately show ?thesis by blast
qed

lemma HASH_FSCK_same: "HASH_FSCK hs = Ok hs' \<Longrightarrow> hs' = hs"
  by (auto simp: HASH_FSCK_def Let_def split: option.splits if_splits)

text \<open>
  The whole deletion. The head and the tail move to a neighbour where the entry was at an end.
\<close>

lemma HASH_DELETE_refines:
  assumes rep: "hash_rep a (Some x) (Some h)" and ok: "hash_ok (Some h)" and it: "it \<in> set (h_items h)"
  shows "heap_result (ar_live a) (HASH_DELETE_at (it_id it) a x) (HASH_DELETE it h)"
proof -
  let ?i = "it_id it" and ?T = "h_tbl h"
  obtain t pt where r: "table_at a x = Ok (t, pt)" "\<And>y. y \<in> set (h_items h) \<Longrightarrow> node_rep a t y"
    "distinct (map it_id (h_items h))"
    "dll (ar_prev a) (ar_next a) None (Some x) (map it_id (h_items h)) (to_tail pt) None"
    "table_rep (ar_hh_prev a) (ar_hh_next a) pt ?T"
    by (rule hash_repE [OF rep ok]) (rule that, auto)
  obtain xs ys where split: "h_items h = xs @ it # ys" "remove1 it (h_items h) = xs @ ys"
    "distinct (map it_id xs @ ?i # map it_id ys)"
    using remove_id [OF r(3) it] by metis
  have order: "dll (ar_prev a) (ar_next a) None (Some x) (map it_id xs @ ?i # map it_id ys) (to_tail pt) None"
    using r(4) split(1) by simp
  note node = dll_node [OF order]
  have live: "ar_live a ?i" "ar_hashv a ?i = it_hashv it" using r(2) [OF it] by (auto simp: node_rep_def)
  have at: "ar_tables a t = Some pt" using r(1) by (simp add: table_at_Ok)
  show ?thesis
  proof (cases "h_items h = [it]")
    case True
    then have "xs = []" "ys = []" using split(1) by (cases xs; simp)+
    then have "HASH_DELETE_HH ?i a x = Ok (put_table t None a, None)"
      using node(1,2) live r(1) by (simp add: HASH_DELETE_HH_def element_def)
    then show ?thesis
      using True by (simp add: HASH_DELETE_at_def HASH_DELETE_def HASH_FSCK_at_def HASH_FSCK_def heap_result_def hash_rep_def)
  next
    case False
    then have some: "ar_prev a ?i \<noteq> None \<or> ar_next a ?i \<noteq> None" using node(1,2) split(1) by auto
    have neighbour: "ar_live a j \<and> ar_tbl a j = Some t \<and> j \<noteq> ?i" if "ar_prev a ?i = Some j \<or> ar_next a ?i = Some j" for j
    proof -
      have "j \<in> set (map it_id xs) \<or> j \<in> set (map it_id ys)"
        using that node(1,2) by (auto simp: last_map hd_map split: if_splits)
      moreover from this have "j \<noteq> ?i" using split(3) by (cases "j = ?i") auto
      ultimately show ?thesis using split(1) r(2) by (auto simp: node_rep_def)
    qed
    define tail where "tail = (if to_tail pt = Some ?i then ar_prev a ?i else to_tail pt)"
    define x' where "x' = (if x = ?i then the (ar_next a ?i) else x)"
    define a1 where "a1 = a\<lparr>ar_prev := unlink_prev ?i (ar_next a) (ar_prev a), ar_next := unlink_next ?i (ar_prev a) (ar_next a)\<rparr>"
    define pt1 where "pt1 = pt\<lparr>to_tail := tail\<rparr>"
    have head: "(if Some x = Some ?i then ar_next a ?i else Some x) = Some x'" "x = ?i \<longleftrightarrow> ar_prev a ?i = None"
      using node(1,3) some split(3) by (cases xs; auto simp: x'_def)+
    have x': "ar_live a x' \<and> ar_tbl a x' = Some t"
    proof (cases "x = ?i")
      case True
      then have "ar_next a ?i = Some x'" using head(1) by simp
      then show ?thesis using neighbour by blast
    next
      case False
      then show ?thesis using r(1) by (simp add: x'_def table_at_Ok)
    qed
    have new_order: "dll (ar_prev a1) (ar_next a1) None (Some x') (map it_id (xs @ ys)) tail None"
      using dll_unlink [OF order split(3)] head(1) by (simp add: a1_def tail_def)
    let ?b = "HASH_TO_BKT (it_hashv it) (ht_num_buckets ?T)"
    have T: "table_ok ?T" "mset (items_of (ht_buckets ?T)) = mset (h_items h)" using ok by (auto simp: hash_ok_def)
    then have set: "set (items_of (ht_buckets ?T)) = set (h_items h)" by (metis set_mset_mset)
    have b: "?b < length (ht_buckets ?T)" using T(1) bucket_in_range by (auto simp: table_ok_def)
    have chain: "it \<in> set (bk_chain (ht_buckets ?T ! ?b))" using chain_items [OF T(1)] set it by simp
    have "mset (map it_id (items_of (ht_buckets ?T))) = mset (map it_id (h_items h))" using T(2) by simp
    then have dist: "distinct (map it_id (items_of (ht_buckets ?T)))" using r(3) by (metis mset_eq_imp_distinct_iff)
    have rep1: "table_rep (ar_hh_prev (put_table t (Some pt1) a1)) (ar_hh_next (put_table t (Some pt1) a1)) pt1 ?T"
      using r(5) by (simp add: table_rep_def pt1_def a1_def)
    have known1: "known (put_table t (Some pt1) a1) (set (items_of (ht_buckets ?T)))"
      using r(2) set by (auto simp: known_def node_rep_def a1_def)
    obtain P N pt' T' where del: "HASH_DEL_IN_BKT_at t pt1 ?b ?i (put_table t (Some pt1) a1) =
        Ok (put_table t (Some pt') (a1\<lparr>ar_hh_prev := P, ar_hh_next := N\<rparr>))"
      "HASH_DEL_IN_BKT ?b it ?T = Ok T'" "table_rep P N pt' T'" "to_tail pt' = tail"
      using HASH_DEL_IN_BKT_refines [OF rep1 known1 dist b chain, of t] by (auto simp: arena_order pt1_def)
    let ?a = "put_table t (Some (pt'\<lparr>to_num_items := to_num_items pt' - 1\<rparr>)) (a1\<lparr>ar_hh_prev := P, ar_hh_next := N\<rparr>)"
    let ?hs = "Some \<lparr>h_items = remove1 it (h_items h), h_tbl = T'\<lparr>ht_num_items := ht_num_items T' - 1\<rparr>\<rparr>"
    have num: "to_num_buckets pt1 = ht_num_buckets ?T" using r(5) by (simp add: table_rep_def pt1_def)
    have "HASH_DELETE_HH ?i a x = Ok (?a, Some x')"
    proof -
      let ?a0 = "put_table t (Some pt1) a"
      let ?a' = "put_table t (Some pt1) (a\<lparr>ar_next := unlink_next ?i (ar_prev a) (ar_next a)\<rparr>)"
      have tail: "(if to_tail pt = Some ?i then pt\<lparr>to_tail := ar_prev a ?i\<rparr> else pt) = pt1"
        by (auto simp: pt1_def tail_def)
      have front: "relink_next ?i ?a0 x = Ok (?a', Some x')"
        using head neighbour
        by (cases "ar_prev a ?i") (auto simp: relink_next_def element_def unlink_next_def arena_order)
      have same: "unlink_next ?i (ar_prev a) (ar_next a) ?i = ar_next a ?i"
        using neighbour by (auto simp: unlink_next_def split: option.split)
      then have behind: "relink_prev ?i ?a' = Ok (put_table t (Some pt1) a1)"
        using neighbour
        by (cases "ar_next a ?i") (auto simp: relink_prev_def element_def unlink_prev_def arena_order a1_def)
      have tables: "table_at (put_table t (Some pt1) a1) x' = Ok (t, pt1)"
        "table_at (put_table t (Some pt') (a1\<lparr>ar_hh_prev := P, ar_hh_next := N\<rparr>)) x' = Ok (t, pt')"
        "element (put_table t (Some pt1) a1) (Some x') = Ok x'"
        using x' by (simp_all add: table_at_Ok element_def a1_def)
      have hashv: "ar_hashv (put_table t (Some pt1) a1) ?i = it_hashv it" using live by (simp add: a1_def)
      show ?thesis
        using some live r(1) tail front behind tables hashv num del(1)
        by (simp add: HASH_DELETE_HH_def element_def [of a "Some ?i"] Let_def del: not_None_eq)
    qed
    moreover have "hash_rep ?a (Some x') ?hs"
      using del(3,4) new_order r(2,3) split
      by (auto simp: hash_rep_def node_rep_def table_rep_def a1_def intro!: exI [of _ t])
    moreover have "HASH_DELETE it h = HASH_FSCK ?hs"
      using False del(2) by (simp add: HASH_DELETE_def)
    moreover have "hash_ok ?hs"
      using HASH_DELETE_ok [OF ok it] False del(2)
      by (auto simp: HASH_DELETE_def dest: HASH_FSCK_same)
    ultimately show ?thesis
      using HASH_FSCK_at_Ok [of ?a "Some x'" ?hs] HASH_FSCK_ok [of ?hs]
      by (simp add: HASH_DELETE_at_def heap_result_def a1_def)
  qed
qed

text \<open>Freeing an entry that is no longer linked.\<close>

lemma free_unlinked:
  assumes "hash_rep a head hs" "i \<notin> it_id ` set (items hs)"
  shows "hash_rep (a\<lparr>ar_live := (ar_live a)(i := False)\<rparr>) head hs"
proof (cases hs)
  case (Some h)
  have "it_id it \<noteq> i" if "it \<in> set (h_items h)" for it
    using assms(2) that Some by (auto simp: items_def)
  then show ?thesis using assms(1) Some by (simp add: hash_rep_def node_rep_def)
qed (use assms(1) in \<open>simp add: hash_rep_def\<close>)

definition first_id :: "item list \<Rightarrow> nat option" where
  "first_id its = (case its of [] \<Rightarrow> None | it # _ \<Rightarrow> Some (it_id it))"

lemma head_first:
  assumes "hash_rep a head hs" "hash_ok hs"
  shows "head = first_id (items hs)" "next_of a head = Ok (first_id (tl (items hs)))"
proof -
  have "head = first_id (items hs) \<and> next_of a head = Ok (first_id (tl (items hs)))"
  proof (cases hs)
    case None
    then show ?thesis using assms(1) by (simp add: hash_rep_def items_def first_id_def next_of_def)
  next
    case (Some h)
    obtain t pt x where r: "head = Some x" "table_at a x = Ok (t, pt)"
      "dll (ar_prev a) (ar_next a) None head (map it_id (h_items h)) (to_tail pt) None"
      by (rule hash_repE [OF assms [unfolded Some]]) (rule that)
    obtain it its where its: "h_items h = it # its" using assms(2) Some by (cases "h_items h") (auto simp: hash_ok_def)
    then have "ar_next a (it_id it) = first_id its" "x = it_id it"
      using r(1,3) by (cases its; auto simp: first_id_def)+
    then show ?thesis using r(1,2) its Some by (simp add: items_def first_id_def next_of_def element_def table_at_Ok)
  qed
  then show "head = first_id (items hs)" "next_of a head = Ok (first_id (tl (items hs)))" by auto
qed

lemma clear_loop_refines:
  assumes "hash_rep a head hs" "hash_ok hs" "items hs = its" "distinct (map it_id its)"
  shows "\<exists>a'. clear_loop (first_id its) (first_id (tl its)) a head = Some (Ok (a', None)) \<and>
    ar_live a' = (\<lambda>i. ar_live a i \<and> i \<notin> it_id ` set its)"
  using assms
proof (induction its arbitrary: a head hs)
  case Nil
  then have "hs = None" by (auto simp: items_def hash_ok_def split: option.splits)
  then show ?case using Nil.prems(1) by (subst clear_loop.simps) (simp add: first_id_def hash_rep_def)
next
  case (Cons it its)
  obtain h where h: "hs = Some h" "h_items h = it # its"
    using Cons.prems(3) by (cases hs) (auto simp: items_def)
  have head: "head = Some (it_id it)" using head_first(1) [OF Cons.prems(1,2)] Cons.prems(3) by (simp add: first_id_def)
  have live: "ar_live a (it_id it)"
    using Cons.prems(1) h by (auto simp: hash_rep_def node_rep_def)
  have "heap_result (ar_live a) (HASH_DELETE_at (it_id it) a (it_id it)) (HASH_DELETE it h)"
    using Cons.prems(1,2) h head by (intro HASH_DELETE_refines) auto
  moreover obtain hs' where hs': "HASH_DELETE it h = Ok hs'" "hash_ok hs'" "items hs' = its"
    using HASH_DELETE_ok [of h it] Cons.prems(2) h by auto
  ultimately obtain a1 head' where del: "HASH_DELETE_at (it_id it) a (it_id it) = Some (Ok (a1, head'))"
    "hash_rep a1 head' hs'" "ar_live a1 = ar_live a"
    by (auto simp: heap_result_def split: option.splits outcome.splits)
  let ?a = "a1\<lparr>ar_live := (ar_live a1)(it_id it := False)\<rparr>"
  have rep: "hash_rep ?a head' hs'"
    using del(2) hs'(3) Cons.prems(4) by (intro free_unlinked) auto
  have step: "delete_entry (it_id it) a head = Some (Ok (?a, head'))"
    using del(1) head live by (simp add: delete_entry_def element_def)
  note first = head_first [OF rep hs'(2)]
  obtain a' where a': "clear_loop (first_id its) (first_id (tl its)) ?a head' = Some (Ok (a', None))"
    "ar_live a' = (\<lambda>i. ar_live ?a i \<and> i \<notin> it_id ` set its)"
    using Cons.IH [OF rep hs'(2,3)] Cons.prems(4) by auto
  have "clear_loop (Some (it_id it)) (first_id its) a head = Some (Ok (a', None))"
    using step first hs'(3) a'(1) by (subst clear_loop.simps) simp
  then show ?case using a'(2) del(3) by (auto simp: first_id_def)
qed

lemma HASH_CLEAR_ALL_refines:
  assumes "hash_rep a head hs" "hash_ok hs"
  shows "\<exists>a'. HASH_CLEAR_ALL_at a head = Some (Ok (a', None)) \<and>
    ar_live a' = (\<lambda>i. ar_live a i \<and> i \<notin> it_id ` set (items hs))"
proof -
  have "distinct (map it_id (items hs))"
    using assms(1) by (auto simp: hash_rep_def items_def split: option.splits)
  then show ?thesis
    using clear_loop_refines [OF assms refl] head_first [OF assms] by (simp add: HASH_CLEAR_ALL_at_def)
qed

section \<open>A heap to start from\<close>

definition fresh_arena :: arena where
  "fresh_arena = \<lparr>ar_live = (\<lambda>_. True), ar_tbl = (\<lambda>_. None), ar_prev = (\<lambda>_. None), ar_next = (\<lambda>_. None),
     ar_hh_prev = (\<lambda>_. None), ar_hh_next = (\<lambda>_. None), ar_key = (\<lambda>_. 0), ar_keylen = (\<lambda>_. 0),
     ar_hashv = (\<lambda>_. 0), ar_tables = (\<lambda>_. None), ar_new_table = 0\<rparr>"

lemma empty_rep: "hash_rep a None None"
  by (simp add: hash_rep_def)

lemma same_items: "items (same_hash k n) = map (same_item k) [0..<n]"
  by (simp add: items_def same_hash_def)

text \<open>A heap with up to nine entries that share a key.\<close>

lemma same_rep:
  assumes "enough mem" "limited mem" "n \<le> 9"
  shows "\<exists>a head. hash_rep a head (same_hash k n) \<and> ar_live a = (\<lambda>_. True)"
  using assms(3)
proof (induction n)
  case 0
  then show ?case using empty_rep [of fresh_arena] by (auto simp: same_hash_def fresh_arena_def)
next
  case (Suc n)
  then obtain a head where a: "hash_rep a head (same_hash k n)" "ar_live a = (\<lambda>_. True)" by auto
  have "n \<notin> it_id ` set (items (same_hash k n))" by (auto simp: same_items same_item_def)
  moreover have ok: "hash_ok (same_hash k n)" using same_hash_ok [OF assms(1), of n k] Suc.prems by simp
  ultimately have "heap_result (ar_live a) (HASH_ADD_PTR_at mem n k a head) (HASH_ADD_PTR mem n k (same_hash k n))"
    using a assms(2) by (intro HASH_ADD_PTR_refines) auto
  moreover have "HASH_ADD_PTR mem n k (same_hash k n) = Ok (same_hash k (Suc n))"
    using same_add(1) [of mem k n] ok Suc.prems assms(1) by simp
  ultimately show ?case
    using a(2) by (auto simp: heap_result_def split: option.splits outcome.splits)
qed

section \<open>Properties\<close>

text \<open>C17: Adding an entry to the linked handles, with every expansion that it brings about and
  the check of \<open>HASH_FSCK\<close> on the backward links, ends, dereferences no dangling or null pointer, and leaves the
  heap representing what the list model computes; it fails only where the list model does.
\<close>

theorem heap_add_refines:
  assumes "hash_rep a head hs" "hash_ok hs" "limited mem" "ar_live a i" "i \<notin> it_id ` set (items hs)"
  shows "heap_result (ar_live a) (HASH_ADD_PTR_at mem i key a head) (HASH_ADD_PTR mem i key hs)"
  by (rule HASH_ADD_PTR_refines [OF assms])

theorem heap_add_refines_witness:
  "\<exists>a head. heap_result (\<lambda>_. True) (HASH_ADD_PTR_at megabyte 3 11 a head)
     (HASH_ADD_PTR megabyte 3 11 (same_hash 7 3))"
proof -
  obtain a head where a: "hash_rep a head (same_hash 7 3)" "ar_live a = (\<lambda>_. True)"
    using same_rep [OF megabyte_enough, of 3 7] by auto
  have "hash_ok (same_hash 7 3)" using same_hash_ok [OF megabyte_enough(1), of 3 7] by simp
  moreover have "3 \<notin> it_id ` set (items (same_hash 7 3))" by (auto simp: same_items same_item_def)
  ultimately have "heap_result (ar_live a) (HASH_ADD_PTR_at megabyte 3 11 a head)
      (HASH_ADD_PTR megabyte 3 11 (same_hash 7 3))"
    using a by (intro heap_add_refines megabyte_enough(2)) auto
  then show ?thesis unfolding a(2) by blast
qed

text \<open>The walk along a chain of handles ends, and finds the entry that the list model finds.
\<close>

theorem heap_find_refines:
  assumes "hash_rep a head hs" "hash_ok hs"
  shows "HASH_FIND_PTR_at a head key = Some (HASH_FIND_PTR hs key)"
  by (rule HASH_FIND_PTR_refines [OF assms])

theorem heap_find_refines_witness:
  "\<exists>a head. hash_rep a head (same_hash 7 3) \<and> HASH_FIND_PTR_at a head 7 = Some (Ok (Some 2))"
proof -
  obtain a head where a: "hash_rep a head (same_hash 7 3)"
    using same_rep [OF megabyte_enough, of 3 7] by auto
  have "hash_ok (same_hash 7 3)" using same_hash_ok [OF megabyte_enough(1), of 3 7] by simp
  then show ?thesis using a heap_find_refines [OF a, of 7] same_find [of 3 7] by auto
qed

text \<open>C18: Deleting an entry relinks its neighbours in the application order and in its chain, moves
  head and tail where it was at an end, and leaves the heap representing what the list model
  computes; the last deletion frees the table.
\<close>

theorem heap_delete_refines:
  assumes "hash_rep a (Some x) (Some h)" "hash_ok (Some h)" "it \<in> set (h_items h)"
  shows "heap_result (ar_live a) (HASH_DELETE_at (it_id it) a x) (HASH_DELETE it h)"
  by (rule HASH_DELETE_refines [OF assms])

theorem heap_delete_refines_witness:
  "\<exists>a x h. same_hash 7 3 = Some h \<and> hash_rep a (Some x) (Some h) \<and>
     heap_result (ar_live a) (HASH_DELETE_at 2 a x) (HASH_DELETE (same_item 7 2) h)"
proof -
  obtain a head where a: "hash_rep a head (same_hash 7 3)"
    using same_rep [OF megabyte_enough, of 3 7] by auto
  obtain h where h: "same_hash 7 3 = Some h" "h_items h = map (same_item 7) [0..<3]"
    by (simp add: same_hash_def)
  have ok: "hash_ok (Some h)" using same_hash_ok [OF megabyte_enough(1), of 3 7] h(1) by simp
  obtain x where x: "head = Some x" using head_first(1) [OF a] ok h by (simp add: items_def first_id_def upt_rec)
  have "same_item 7 2 \<in> set (h_items h)" by (simp add: h(2))
  then have "heap_result (ar_live a) (HASH_DELETE_at (it_id (same_item 7 2)) a x) (HASH_DELETE (same_item 7 2) h)"
    using a h(1) x ok by (intro heap_delete_refines) auto
  then show ?thesis using a h(1) x by (auto simp: same_item_def)
qed

text \<open>C20: The clean-up at the end of the interpreter, which deletes and frees each entry while it
  iterates, ends with the null head; it has freed exactly the entries of the table and never used one
  after it was freed.
\<close>

theorem heap_clear_frees:
  assumes "hash_rep a head hs" "hash_ok hs"
  shows "\<exists>a'. HASH_CLEAR_ALL_at a head = Some (Ok (a', None)) \<and>
    ar_live a' = (\<lambda>i. ar_live a i \<and> i \<notin> it_id ` set (items hs))"
  by (rule HASH_CLEAR_ALL_refines [OF assms])

theorem heap_clear_frees_witness:
  "\<exists>a head a'. hash_rep a head (same_hash 7 3) \<and> HASH_CLEAR_ALL_at a head = Some (Ok (a', None)) \<and>
     \<not> ar_live a' 0 \<and> \<not> ar_live a' 2 \<and> ar_live a' 3"
proof -
  obtain a head where a: "hash_rep a head (same_hash 7 3)" "ar_live a = (\<lambda>_. True)"
    using same_rep [OF megabyte_enough, of 3 7] by auto
  have "hash_ok (same_hash 7 3)" using same_hash_ok [OF megabyte_enough(1), of 3 7] by simp
  then obtain a' where a': "HASH_CLEAR_ALL_at a head = Some (Ok (a', None))"
    "ar_live a' = (\<lambda>i. ar_live a i \<and> i \<notin> it_id ` set (items (same_hash 7 3)))"
    using heap_clear_frees [OF a(1)] by blast
  have ids: "it_id ` set (items (same_hash 7 3)) = {0, 1, 2}"
    by (auto simp: same_items same_item_def upt_rec)
  have "\<not> ar_live a' 0 \<and> \<not> ar_live a' 2 \<and> ar_live a' 3"
    unfolding a'(2) a(2) ids by simp
  then show ?thesis using a(1) a'(1) by blast
qed

end
