(* ===== verification/Uthash_Select.thy ===== *)
theory Uthash_Select
  imports Uthash_Heap
begin

text \<open>
  \<open>HASH_SELECT\<close> of \<open>src/external/uthash.h\<close>: the entries of a hash for which a condition holds are added to another hash,
  through a second handle of each entry. The two handles of the entries are two heaps, \<open>src\<close> and the one of the destination.
\<close>

section \<open>The macro\<close>

text \<open>The destination while entries are added to it: \<open>_last_elt\<close> and \<open>_last_elt_hh\<close> are set together.\<close>

record selection =
  se_arena :: arena
  se_head :: "nat option"
  se_last :: "nat option"

definition link_last :: "nat option \<Rightarrow> nat \<Rightarrow> arena \<Rightarrow> arena outcome" where
  "link_last p i a =
     (case p of None \<Rightarrow> Ok a
      | Some l \<Rightarrow> and_then (element a p) (\<lambda>l. Ok (a\<lparr>ar_next := (ar_next a)(l := Some i)\<rparr>)))"

definition select_elt :: "memory \<Rightarrow> arena \<Rightarrow> nat \<Rightarrow> selection \<Rightarrow> selection outcome option" where
  "select_elt mem src i se =
     (let a = se_arena se;
          a = a\<lparr>ar_key := (ar_key a)(i := ar_key src i)\<rparr>;
          a = a\<lparr>ar_keylen := (ar_keylen a)(i := ar_keylen src i)\<rparr>;
          a = a\<lparr>ar_hashv := (ar_hashv a)(i := ar_hashv src i)\<rparr>;
          a = a\<lparr>ar_prev := (ar_prev a)(i := se_last se)\<rparr>;
          a = a\<lparr>ar_next := (ar_next a)(i := None)\<rparr>
      in then_run (Some (link_last (se_last se) i a)) (\<lambda>a.
         then_run (Some (case se_head se of
              None \<Rightarrow> and_then (HASH_MAKE_TABLE_at mem i a) (\<lambda>a. Ok (a, i))
            | Some h \<Rightarrow> and_then (table_at a h) (\<lambda>(t, _). Ok (a\<lparr>ar_tbl := (ar_tbl a)(i := Some t)\<rparr>, h)))) (\<lambda>(a, h).
         then_run (Some (table_at a i)) (\<lambda>(t, pt).
         then_run (HASH_ADD_TO_BKT_at mem t pt (HASH_TO_BKT (ar_hashv a i) (to_num_buckets pt)) i a) (\<lambda>a.
         then_run (Some (table_at a h)) (\<lambda>(t, pt).
         Some (Ok \<lparr>se_arena = put_table t (Some (pt\<lparr>to_num_items := to_num_items pt + 1\<rparr>)) a,
           se_head = Some h, se_last = Some i\<rparr>)))))))"

text \<open>\<open>cond\<close> is the condition on the entries. The loops along a chain of the source, and over its buckets.\<close>

partial_function (option) select_chain ::
    "memory \<Rightarrow> (nat \<Rightarrow> bool) \<Rightarrow> arena \<Rightarrow> nat option \<Rightarrow> selection \<Rightarrow> selection outcome option" where
  "select_chain mem cond src hh se =
     (case hh of None \<Rightarrow> Some (Ok se)
      | Some i \<Rightarrow>
          (if \<not> ar_live src i then Some (Fail Undefined_Behaviour)
           else if cond i then
             (case select_elt mem src i se of
                None \<Rightarrow> None
              | Some (Fail e) \<Rightarrow> Some (Fail e)
              | Some (Ok se) \<Rightarrow> select_chain mem cond src (ar_hh_next src i) se)
           else select_chain mem cond src (ar_hh_next src i) se))"

fun select_chains :: "memory \<Rightarrow> (nat \<Rightarrow> bool) \<Rightarrow> arena \<Rightarrow> chain_head list \<Rightarrow> selection \<Rightarrow> selection outcome option" where
  "select_chains mem cond src [] se = Some (Ok se)"
| "select_chains mem cond src (bk # bks) se =
     then_run (select_chain mem cond src (ch_head bk) se) (select_chains mem cond src bks)"

definition HASH_SELECT_at ::
    "memory \<Rightarrow> (nat \<Rightarrow> bool) \<Rightarrow> arena \<Rightarrow> nat option \<Rightarrow> arena \<Rightarrow> nat option \<Rightarrow> (arena \<times> nat option) outcome option" where
  "HASH_SELECT_at mem cond src src_head dst dst_head =
     (let se = \<lparr>se_arena = dst, se_head = dst_head, se_last = None\<rparr>
      in then_run (case src_head of None \<Rightarrow> Some (Ok se)
           | Some h \<Rightarrow>
               then_run (Some (table_at src h)) (\<lambda>(t, pt).
               if length (to_buckets pt) < unat (to_num_buckets pt) then Some (Fail Undefined_Behaviour)
               else select_chains mem cond src (take (unat (to_num_buckets pt)) (to_buckets pt)) se)) (\<lambda>se.
         then_run (HASH_FSCK_at (se_arena se) (se_head se)) (\<lambda>a. Some (Ok (a, se_head se)))))"

section \<open>Selection on lists\<close>

text \<open>
  Into an empty destination. The items are counted after their addition, so that an expansion while one is added
  does not count it.
\<close>

fun select_items :: "memory \<Rightarrow> item list \<Rightarrow> hash_table \<Rightarrow> hash_table outcome" where
  "select_items mem [] t = Ok t"
| "select_items mem (it # its) t =
     and_then (HASH_ADD_TO_BKT mem (HASH_TO_BKT (it_hashv it) (ht_num_buckets t)) it t) (\<lambda>t.
     select_items mem its (t\<lparr>ht_num_items := ht_num_items t + 1\<rparr>))"

definition selected_items :: "(nat \<Rightarrow> bool) \<Rightarrow> hash option \<Rightarrow> item list" where
  "selected_items cond src =
     (case src of None \<Rightarrow> []
      | Some h \<Rightarrow> filter (\<lambda>it. cond (it_id it))
          (items_of (take (unat (ht_num_buckets (h_tbl h))) (ht_buckets (h_tbl h)))))"

definition HASH_SELECT :: "memory \<Rightarrow> (nat \<Rightarrow> bool) \<Rightarrow> hash option \<Rightarrow> hash option outcome" where
  "HASH_SELECT mem cond src =
     (let its = selected_items cond src
      in if its = [] then HASH_FSCK None
         else
           and_then (HASH_MAKE_TABLE mem) (\<lambda>t.
           and_then (select_items mem its t) (\<lambda>t. HASH_FSCK (Some \<lparr>h_items = its, h_tbl = t\<rparr>))))"

lemma select_items_cases:
  assumes "shape_ok t" "limited mem"
  shows "select_items mem its t = Fail Exit_Called \<or>
    (\<exists>t'. select_items mem its t = Ok t' \<and> shape_ok t' \<and> ht_num_items t' = ht_num_items t + of_nat (length its) \<and>
       mset (items_of (ht_buckets t')) = mset its + mset (items_of (ht_buckets t)))"
  using assms(1)
proof (induction its arbitrary: t)
  case (Cons it its)
  show ?case
    using HASH_ADD_TO_BKT_cases [OF Cons.prems assms(2), of it]
  proof (elim disjE exE conjE)
    fix t' assume t': "HASH_ADD_TO_BKT mem (HASH_TO_BKT (it_hashv it) (ht_num_buckets t)) it t = Ok t'" "shape_ok t'"
      "ht_num_items t' = ht_num_items t" "mset (items_of (ht_buckets t')) = add_mset it (mset (items_of (ht_buckets t)))"
    have "shape_ok (t'\<lparr>ht_num_items := ht_num_items t' + 1\<rparr>)" using t'(2) by simp
    from Cons.IH [OF this] show ?thesis using t'(1,3,4) by (auto simp: add.assoc)
  qed simp
qed simp

lemma selected_all:
  assumes "hash_ok (Some h)"
  shows "selected_items cond (Some h) = filter (\<lambda>it. cond (it_id it)) (items_of (ht_buckets (h_tbl h)))"
  using assms by (simp add: selected_items_def hash_ok_def table_ok_def chains_ok_def)

lemma selected_ok:
  assumes "hash_ok src" "limited mem" "selected_items cond src \<noteq> []" "HASH_MAKE_TABLE mem = Ok t"
    and "select_items mem (selected_items cond src) t = Ok t'"
  shows "hash_ok (Some \<lparr>h_items = selected_items cond src, h_tbl = t'\<rparr>)"
proof -
  let ?its = "selected_items cond src"
  have hashv: "it_hashv it = HASH_VALUE (it_key it)" if it: "it \<in> set ?its" for it
  proof (cases src)
    case (Some h)
    then have "it \<in> set (items_of (ht_buckets (h_tbl h)))" "set (items_of (ht_buckets (h_tbl h))) = set (h_items h)"
      using it assms(1) selected_all [of h] by (auto simp: hash_ok_def dest: mset_eq_setD)
    then show ?thesis using assms(1) Some by (simp add: hash_ok_def)
  qed (use it in \<open>simp add: selected_items_def\<close>)
  have t: "table_ok t" "items_of (ht_buckets t) = []" using HASH_MAKE_TABLE_cases [of mem] assms(4) by auto
  then have "shape_ok t" "ht_num_items t = 0" by (simp_all add: table_ok_iff)
  then have t': "shape_ok t'" "ht_num_items t' = of_nat (length ?its)" "mset (items_of (ht_buckets t')) = mset ?its"
    using select_items_cases [OF _ assms(2), of t ?its] assms(5) t(2) by auto
  from this(3) have "length (items_of (ht_buckets t')) = length ?its" by (metis size_mset)
  then show ?thesis using t' hashv assms(3) by (auto simp: hash_ok_def table_ok_iff)
qed

text \<open>A refused allocation: of the table, or of more buckets.\<close>

definition select_starves :: "memory \<Rightarrow> (nat \<Rightarrow> bool) \<Rightarrow> hash option \<Rightarrow> bool" where
  "select_starves mem cond src \<longleftrightarrow> selected_items cond src \<noteq> [] \<and>
     and_then (HASH_MAKE_TABLE mem) (select_items mem (selected_items cond src)) = Fail Exit_Called"

lemma HASH_SELECT_cases:
  assumes "hash_ok src" "limited mem"
  shows "HASH_SELECT mem cond src = Fail Exit_Called \<and> select_starves mem cond src \<or>
    (\<exists>dst. HASH_SELECT mem cond src = Ok dst \<and> hash_ok dst \<and> items dst = selected_items cond src)"
proof (cases "selected_items cond src = []")
  case True
  then show ?thesis by (simp add: HASH_SELECT_def HASH_FSCK_def hash_ok_def items_def)
next
  case False
  let ?its = "selected_items cond src"
  show ?thesis
  proof (cases "HASH_MAKE_TABLE mem")
    case (Fail e)
    then show ?thesis
      using HASH_MAKE_TABLE_cases [of mem] False by (simp add: HASH_SELECT_def Let_def select_starves_def)
  next
    case (Ok t)
    then have "shape_ok t" using HASH_MAKE_TABLE_cases [of mem] by (auto simp: table_ok_iff)
    from select_items_cases [OF this assms(2), of ?its] show ?thesis
    proof (elim disjE exE conjE)
      fix t' assume t': "select_items mem ?its t = Ok t'"
      then show ?thesis
        using Ok False HASH_FSCK_ok [OF selected_ok [OF assms False Ok t']] selected_ok [OF assms False Ok t']
        by (simp add: HASH_SELECT_def Let_def items_def)
    qed (use Ok False in \<open>simp add: HASH_SELECT_def Let_def select_starves_def\<close>)
  qed
qed

section \<open>Selection on linked handles\<close>

text \<open>
  The destination with the items \<open>its\<close>: as in \<open>hash_rep\<close>, but that the tail of the table is still the first entry.
\<close>

definition selecting :: "selection \<Rightarrow> item list \<Rightarrow> hash_table \<Rightarrow> bool" where
  "selecting se its T \<longleftrightarrow>
     (let a = se_arena se
      in if its = [] then se_head se = None \<and> se_last se = None
         else \<exists>t pt. ar_tables a t = Some pt \<and> (\<forall>it \<in> set its. node_rep a t it) \<and> distinct (map it_id its) \<and>
           dll (ar_prev a) (ar_next a) None (se_head se) (map it_id its) (se_last se) None \<and>
           to_tail pt = se_head se \<and> table_rep (ar_hh_prev a) (ar_hh_next a) pt T \<and> shape_ok T \<and>
           mset (items_of (ht_buckets T)) = mset its)"

definition select_result :: "(nat \<Rightarrow> bool) \<Rightarrow> item list \<Rightarrow> selection outcome option \<Rightarrow> hash_table outcome \<Rightarrow> bool" where
  "select_result live its r m \<longleftrightarrow>
     (case (r, m) of
        (Some (Ok se), Ok T) \<Rightarrow> selecting se its T \<and> ar_live (se_arena se) = live
      | (Some (Fail e), Fail e') \<Rightarrow> e = e'
      | _ \<Rightarrow> False)"

text \<open>From the point where an entry has been linked behind the others.\<close>

lemma select_linked:
  assumes tables: "ar_tables a t = Some pt" "to_tail pt = Some h"
    and nodes: "\<And>x. x \<in> set (its @ [it]) \<Longrightarrow> node_rep a t x" "distinct (map it_id (its @ [it]))"
    and order: "dll (ar_prev a) (ar_next a) None (Some h) (map it_id (its @ [it])) (Some (it_id it)) None"
    and rep: "table_rep (ar_hh_prev a) (ar_hh_next a) pt T" "shape_ok T" "mset (items_of (ht_buckets T)) = mset its"
    and "limited mem"
  shows "select_result (ar_live a) (its @ [it])
    (then_run (Some (table_at a (it_id it))) (\<lambda>(t, pt).
     then_run (HASH_ADD_TO_BKT_at mem t pt (HASH_TO_BKT (ar_hashv a (it_id it)) (to_num_buckets pt)) (it_id it) a) (\<lambda>a.
     then_run (Some (table_at a h)) (\<lambda>(t, pt).
     Some (Ok \<lparr>se_arena = put_table t (Some (pt\<lparr>to_num_items := to_num_items pt + 1\<rparr>)) a,
       se_head = Some h, se_last = Some (it_id it)\<rparr>)))))
    (and_then (HASH_ADD_TO_BKT mem (HASH_TO_BKT (it_hashv it) (ht_num_buckets T)) it T) (\<lambda>t.
     Ok (t\<lparr>ht_num_items := ht_num_items t + 1\<rparr>)))"
proof -
  let ?b = "HASH_TO_BKT (it_hashv it) (ht_num_buckets T)"
  have items: "set (items_of (ht_buckets T)) = set its" using rep(3) by (metis set_mset_mset)
  have "mset (map it_id (items_of (ht_buckets T))) = mset (map it_id its)" using rep(3) by simp
  then have "distinct (map it_id (items_of (ht_buckets T)))" using nodes(2) by (metis distinct_append map_append mset_eq_imp_distinct_iff)
  then have dist: "distinct (it_id it # map it_id (items_of (ht_buckets T)))" using nodes(2) items by auto
  have node: "node_rep a t it" using nodes(1) by simp
  have known: "known a (insert it (set (items_of (ht_buckets T))))" "ar_tbl a (it_id it) = Some t"
    using nodes(1) items by (auto simp: known_def node_rep_def)
  have at: "table_at a (it_id it) = Ok (t, pt)" "ar_hashv a (it_id it) = it_hashv it"
    using node tables(1) by (auto simp: table_at_Ok node_rep_def)
  have head: "h \<in> set (map it_id (its @ [it]))" using dll_first [OF order] by (cases its) auto
  then have h: "ar_live a h" "ar_tbl a h = Some t" using nodes(1) by (auto simp: node_rep_def)
  have num: "to_num_buckets pt = ht_num_buckets T" using rep(1) by (simp add: table_rep_def)
  note cases = HASH_ADD_TO_BKT_cases [OF rep(2) \<open>limited mem\<close>, of it]
  then have "HASH_ADD_TO_BKT mem ?b it T \<noteq> Fail Undefined_Behaviour" by auto
  then have refined: "chains_result a t (to_tail pt) (HASH_ADD_TO_BKT_at mem t pt ?b (it_id it) a) (HASH_ADD_TO_BKT mem ?b it T)"
    by (rule HASH_ADD_TO_BKT_refines [OF rep(1) known dist rep(2)])
  show ?thesis
  proof (cases "HASH_ADD_TO_BKT mem ?b it T")
    case (Fail e)
    then show ?thesis using refined at num
      by (auto simp: chains_result_def select_result_def split: option.splits outcome.splits)
  next
    case (Ok T')
    then obtain P N pt' where a': "HASH_ADD_TO_BKT_at mem t pt ?b (it_id it) a =
        Some (Ok (put_table t (Some pt') (a\<lparr>ar_hh_prev := P, ar_hh_next := N\<rparr>)))"
      "table_rep P N pt' T'" "to_tail pt' = to_tail pt"
      using refined by (auto simp: chains_result_def split: option.splits outcome.splits)
    let ?a = "put_table t (Some pt') (a\<lparr>ar_hh_prev := P, ar_hh_next := N\<rparr>)"
    let ?pt = "pt'\<lparr>to_num_items := to_num_items pt' + 1\<rparr>" and ?T = "T'\<lparr>ht_num_items := ht_num_items T' + 1\<rparr>"
    let ?se = "\<lparr>se_arena = put_table t (Some ?pt) ?a, se_head = Some h, se_last = Some (it_id it)\<rparr>"
    have T': "shape_ok T'" "mset (items_of (ht_buckets T')) = mset (its @ [it])" using cases Ok rep(3) by auto
    have "table_at ?a h = Ok (t, pt')" using h by (simp add: table_at_Ok)
    moreover have "table_rep P N ?pt ?T" using a'(2) by (simp add: table_rep_def)
    then have "selecting ?se (its @ [it]) ?T"
      using nodes order T' a'(3) tables(2) by (auto simp: selecting_def node_rep_def intro!: exI [of _ t] exI [of _ ?pt])
    ultimately show ?thesis using at num a'(1) Ok by (simp add: select_result_def)
  qed
qed

text \<open>One entry.\<close>

definition source_node :: "arena \<Rightarrow> item \<Rightarrow> bool" where
  "source_node src it \<longleftrightarrow> ar_live src (it_id it) \<and> ar_hashv src (it_id it) = it_hashv it \<and>
     ar_key src (it_id it) = it_key it \<and> ar_keylen src (it_id it) = 8"

lemma select_elt_first:
  assumes "selecting se [] T" "source_node src it" "ar_live (se_arena se) (it_id it)" "limited mem"
  shows "select_result (ar_live (se_arena se)) [it] (select_elt mem src (it_id it) se)
    (and_then (HASH_MAKE_TABLE mem) (select_items mem [it]))"
proof -
  let ?i = "it_id it" and ?a = "se_arena se"
  define a1 where "a1 = ?a\<lparr>ar_key := (ar_key ?a)(?i := it_key it), ar_keylen := (ar_keylen ?a)(?i := 8),
      ar_hashv := (ar_hashv ?a)(?i := it_hashv it), ar_prev := (ar_prev ?a)(?i := None), ar_next := (ar_next ?a)(?i := None)\<rparr>"
  have se: "se_head se = None" "se_last se = None" using assms(1) by (simp_all add: selecting_def)
  have step: "select_elt mem src ?i se =
      then_run (Some (and_then (HASH_MAKE_TABLE_at mem ?i a1) (\<lambda>a. Ok (a, ?i)))) (\<lambda>(a, h).
         then_run (Some (table_at a ?i)) (\<lambda>(t, pt).
         then_run (HASH_ADD_TO_BKT_at mem t pt (HASH_TO_BKT (ar_hashv a ?i) (to_num_buckets pt)) ?i a) (\<lambda>a.
         then_run (Some (table_at a h)) (\<lambda>(t, pt).
         Some (Ok \<lparr>se_arena = put_table t (Some (pt\<lparr>to_num_items := to_num_items pt + 1\<rparr>)) a,
           se_head = Some h, se_last = Some ?i\<rparr>)))))"
    using assms(2) se by (simp add: select_elt_def Let_def link_last_def source_node_def a1_def)
  show ?thesis
  proof (cases "HASH_MAKE_TABLE mem")
    case (Fail e)
    then have "HASH_MAKE_TABLE_at mem ?i a' = Fail e" for a'
      by (auto simp: HASH_MAKE_TABLE_def HASH_MAKE_TABLE_at_def uthash_malloc_def split: if_splits)
    then show ?thesis using Fail step by (simp add: select_result_def)
  next
    case (Ok T)
    define t where "t = ar_new_table ?a"
    define pt where "pt = \<lparr>to_buckets = replicate 32 no_chain, to_num_buckets = 32, to_log2_num_buckets = 5,
        to_num_items = 0, to_tail = Some ?i, to_ideal_chain_maxlen = 0, to_nonideal_items = 0,
        to_ineff_expands = 0, to_noexpand = False\<rparr>"
    define a2 where "a2 = put_table t (Some pt) (a1\<lparr>ar_tbl := (ar_tbl ?a)(?i := Some t), ar_new_table := t + 1\<rparr>)"
    have made: "HASH_MAKE_TABLE_at mem ?i a1 = Ok a2" and T: "T = \<lparr>ht_buckets = replicate 32 empty_bucket,
        ht_num_buckets = 32, ht_log2_num_buckets = 5, ht_num_items = 0, ht_ideal_chain_maxlen = 0,
        ht_nonideal_items = 0, ht_ineff_expands = 0, ht_noexpand = False\<rparr>"
      using Ok by (auto simp: HASH_MAKE_TABLE_def HASH_MAKE_TABLE_at_def uthash_malloc_def a2_def pt_def t_def a1_def
          Let_def HASH_INITIAL_NUM_BUCKETS_def HASH_INITIAL_NUM_BUCKETS_LOG2_def split: if_splits)
    have "table_ok T" "items_of (ht_buckets T) = []" using HASH_MAKE_TABLE_cases [of mem] Ok by auto
    then have "select_result (ar_live a2) ([] @ [it])
        (then_run (Some (table_at a2 ?i)) (\<lambda>(t, pt).
         then_run (HASH_ADD_TO_BKT_at mem t pt (HASH_TO_BKT (ar_hashv a2 ?i) (to_num_buckets pt)) ?i a2) (\<lambda>a.
         then_run (Some (table_at a ?i)) (\<lambda>(t, pt).
         Some (Ok \<lparr>se_arena = put_table t (Some (pt\<lparr>to_num_items := to_num_items pt + 1\<rparr>)) a,
           se_head = Some ?i, se_last = Some ?i\<rparr>)))))
        (and_then (HASH_ADD_TO_BKT mem (HASH_TO_BKT (it_hashv it) (ht_num_buckets T)) it T) (\<lambda>t.
         Ok (t\<lparr>ht_num_items := ht_num_items t + 1\<rparr>)))"
      using assms(3,4) by (intro select_linked [where t = t and pt = pt])
        (auto simp: a2_def a1_def node_rep_def pt_def T table_rep_def no_chains_rep table_ok_iff)
    then show ?thesis using made Ok step by (simp add: a2_def a1_def)
  qed
qed

lemma select_elt_next:
  assumes "selecting se its T" "its \<noteq> []" "source_node src it" "ar_live (se_arena se) (it_id it)" "limited mem"
    and "it_id it \<notin> it_id ` set its"
  shows "select_result (ar_live (se_arena se)) (its @ [it]) (select_elt mem src (it_id it) se) (select_items mem [it] T)"
proof -
  let ?i = "it_id it" and ?a = "se_arena se"
  obtain t pt where t: "ar_tables ?a t = Some pt" "\<And>x. x \<in> set its \<Longrightarrow> node_rep ?a t x" "distinct (map it_id its)"
    "dll (ar_prev ?a) (ar_next ?a) None (se_head se) (map it_id its) (se_last se) None"
    "to_tail pt = se_head se" "table_rep (ar_hh_prev ?a) (ar_hh_next ?a) pt T" "shape_ok T"
    "mset (items_of (ht_buckets T)) = mset its"
    using assms(1,2) by (auto simp: selecting_def Let_def)
  define h where "h = it_id (hd its)"
  define l where "l = it_id (last its)"
  have hl: "se_head se = Some h" "se_last se = Some l" "h \<in> it_id ` set its" "l \<in> it_id ` set its"
    using dll_first [OF t(4)] dll_last [OF t(4)] assms(2) by (simp_all add: h_def l_def hd_map last_map)
  have other: "h \<noteq> ?i" "l \<noteq> ?i" using hl(3,4) assms(6) by metis+
  have live: "ar_live ?a l" "ar_live ?a h" "ar_tbl ?a h = Some t" using hl(3,4) t(2) by (auto simp: node_rep_def)
  define a1 where "a1 = ?a\<lparr>ar_key := (ar_key ?a)(?i := it_key it), ar_keylen := (ar_keylen ?a)(?i := 8),
      ar_hashv := (ar_hashv ?a)(?i := it_hashv it), ar_prev := (ar_prev ?a)(?i := Some l),
      ar_next := (ar_next ?a)(?i := None, l := Some ?i)\<rparr>"
  define a2 where "a2 = a1\<lparr>ar_tbl := (ar_tbl ?a)(?i := Some t)\<rparr>"
  have "table_at a1 h = Ok (t, pt)" using live t(1) by (simp add: table_at_Ok a1_def)
  then have step: "select_elt mem src ?i se =
      then_run (Some (table_at a2 ?i)) (\<lambda>(t, pt).
      then_run (HASH_ADD_TO_BKT_at mem t pt (HASH_TO_BKT (ar_hashv a2 ?i) (to_num_buckets pt)) ?i a2) (\<lambda>a.
      then_run (Some (table_at a h)) (\<lambda>(t, pt).
      Some (Ok \<lparr>se_arena = put_table t (Some (pt\<lparr>to_num_items := to_num_items pt + 1\<rparr>)) a,
        se_head = Some h, se_last = Some ?i\<rparr>))))"
    using assms(3) hl live(1) by (simp add: select_elt_def Let_def link_last_def element_def source_node_def a2_def a1_def)
  have "select_result (ar_live a2) (its @ [it])
      (then_run (Some (table_at a2 ?i)) (\<lambda>(t, pt).
       then_run (HASH_ADD_TO_BKT_at mem t pt (HASH_TO_BKT (ar_hashv a2 ?i) (to_num_buckets pt)) ?i a2) (\<lambda>a.
       then_run (Some (table_at a h)) (\<lambda>(t, pt).
       Some (Ok \<lparr>se_arena = put_table t (Some (pt\<lparr>to_num_items := to_num_items pt + 1\<rparr>)) a,
         se_head = Some h, se_last = Some ?i\<rparr>)))))
      (and_then (HASH_ADD_TO_BKT mem (HASH_TO_BKT (it_hashv it) (ht_num_buckets T)) it T) (\<lambda>t.
       Ok (t\<lparr>ht_num_items := ht_num_items t + 1\<rparr>)))"
  proof (rule select_linked [OF _ _ _ _ _ _ t(7,8) assms(5)])
    show "ar_tables a2 t = Some pt" "to_tail pt = Some h" using t(1,5) hl(1) by (simp_all add: a2_def a1_def)
    show "table_rep (ar_hh_prev a2) (ar_hh_next a2) pt T" using t(6) by (simp add: a2_def a1_def)
    show "distinct (map it_id (its @ [it]))" using t(3) assms(6) by simp
    show "dll (ar_prev a2) (ar_next a2) None (Some h) (map it_id (its @ [it])) (Some ?i) None"
      using dll_snoc [of "ar_prev ?a" "ar_next ?a" "Some h" "map it_id its" l ?i] t(3,4) hl assms(2,6)
      by (simp add: a2_def a1_def)
    fix x assume "x \<in> set (its @ [it])"
    moreover have "x \<in> set its \<Longrightarrow> it_id x \<noteq> ?i" using assms(6) by (metis image_eqI)
    ultimately show "node_rep a2 t x" using t(2) [of x] assms(4) by (auto simp: node_rep_def a2_def a1_def)
  qed
  then show ?thesis using step by (simp add: a2_def a1_def)
qed

text \<open>The items that are left, when \<open>ds\<close> have been added: the table is made with the first.\<close>

fun select_more :: "memory \<Rightarrow> item list \<Rightarrow> hash_table \<Rightarrow> item list \<Rightarrow> hash_table outcome" where
  "select_more mem ds T [] = Ok T"
| "select_more mem ds T (it # its) =
     and_then (if ds = [] then and_then (HASH_MAKE_TABLE mem) (select_items mem [it]) else select_items mem [it] T)
       (\<lambda>T. select_more mem (ds @ [it]) T its)"

lemma select_more_append:
  "select_more mem ds T (xs @ ys) = and_then (select_more mem ds T xs) (\<lambda>T. select_more mem (ds @ xs) T ys)"
proof (induction xs arbitrary: ds T)
  case (Cons x xs)
  show ?case
    by (cases "if ds = [] then and_then (HASH_MAKE_TABLE mem) (select_items mem [x]) else select_items mem [x] T")
      (simp_all add: Cons.IH del: select_items.simps)
qed simp

lemma select_more_items: "ds \<noteq> [] \<Longrightarrow> select_more mem ds T its = select_items mem its T"
proof (induction its arbitrary: ds T)
  case (Cons it its)
  then show ?case
    by (cases "HASH_ADD_TO_BKT mem (HASH_TO_BKT (it_hashv it) (ht_num_buckets T)) it T") simp_all
qed simp

lemma select_more_first:
  "its \<noteq> [] \<Longrightarrow> select_more mem [] T its = and_then (HASH_MAKE_TABLE mem) (select_items mem its)"
proof (cases its)
  case (Cons it its')
  show ?thesis
  proof (cases "HASH_MAKE_TABLE mem")
    case (Ok T')
    then show ?thesis using Cons
      by (cases "HASH_ADD_TO_BKT mem (HASH_TO_BKT (it_hashv it) (ht_num_buckets T')) it T'")
        (simp_all add: select_more_items)
  qed (simp add: Cons)
qed simp

lemma select_elt_refines:
  assumes "selecting se ds T" "source_node src it" "ar_live (se_arena se) (it_id it)" "limited mem"
    and "it_id it \<notin> it_id ` set ds"
  shows "select_result (ar_live (se_arena se)) (ds @ [it]) (select_elt mem src (it_id it) se) (select_more mem ds T [it])"
proof -
  have Ok: "and_then r Ok = r" for r :: "hash_table outcome" by (cases r) simp_all
  show ?thesis
  proof (cases "ds = []")
    case True
    then show ?thesis using select_elt_first [OF _ assms(2-4), of T] assms(1) by (simp add: Ok del: select_items.simps)
  next
    case False
    then show ?thesis using select_elt_next [OF assms(1) False assms(2-5)] by (simp add: Ok del: select_items.simps)
  qed
qed

lemma select_result_cases:
  assumes "select_result live its r m"
  obtains e where "r = Some (Fail e)" "m = Fail e"
  | se T where "r = Some (Ok se)" "m = Ok T" "selecting se its T" "ar_live (se_arena se) = live"
  using assms by (auto simp: select_result_def split: option.splits outcome.splits)

lemma select_chain_refines:
  assumes "dll P (ar_hh_next src) pr p (map it_id its) e None" "selecting se ds T" "limited mem"
    and "\<And>it. it \<in> set its \<Longrightarrow> source_node src it \<and> ar_live (se_arena se) (it_id it)"
    and "distinct (map it_id (ds @ its))"
  shows "select_result (ar_live (se_arena se)) (ds @ filter (\<lambda>it. cond (it_id it)) its)
    (select_chain mem cond src p se) (select_more mem ds T (filter (\<lambda>it. cond (it_id it)) its))"
  using assms(1,2,4,5)
proof (induction its arbitrary: pr p se ds T)
  case Nil
  then show ?case by (simp add: select_chain.simps select_result_def)
next
  case (Cons it its)
  let ?i = "it_id it" and ?sel = "filter (\<lambda>it. cond (it_id it)) its"
  have p: "p = Some ?i" "dll P (ar_hh_next src) (Some ?i) (ar_hh_next src ?i) (map it_id its) e None"
    using Cons.prems(1) by auto
  have it: "source_node src it" "ar_live (se_arena se) ?i" "ar_live src ?i" "?i \<notin> it_id ` set ds"
    using Cons.prems(3,4) by (auto simp: source_node_def)
  show ?case
  proof (cases "cond ?i")
    case False
    have "select_result (ar_live (se_arena se)) (ds @ ?sel)
        (select_chain mem cond src (ar_hh_next src ?i) se) (select_more mem ds T ?sel)"
      by (rule Cons.IH [OF p(2) Cons.prems(2)]) (use Cons.prems(3,4) in auto)
    then show ?thesis using False p(1) it(3) by (subst select_chain.simps) simp
  next
    case True
    have more: "select_more mem ds T (it # ?sel) = and_then (select_more mem ds T [it]) (\<lambda>T. select_more mem (ds @ [it]) T ?sel)"
      using select_more_append [of mem ds T "[it]" ?sel] by simp
    from select_elt_refines [OF Cons.prems(2) it(1,2) assms(3) it(4)] show ?thesis
    proof (cases rule: select_result_cases)
      case (1 e)
      then show ?thesis using True p(1) it(3)
        by (subst select_chain.simps) (simp add: more select_result_def del: select_more.simps)
    next
      case (2 se' T')
      have "select_result (ar_live (se_arena se')) ((ds @ [it]) @ ?sel)
          (select_chain mem cond src (ar_hh_next src ?i) se') (select_more mem (ds @ [it]) T' ?sel)"
        by (rule Cons.IH [OF p(2) 2(3)]) (use Cons.prems(3,4) 2(4) in auto)
      then show ?thesis using True p(1) it(3) 2
        by (subst select_chain.simps) (simp add: more del: select_more.simps)
    qed
  qed
qed

lemma select_chains_refines:
  assumes "list_all2 (bucket_rep (ar_hh_prev src) (ar_hh_next src)) cs bks" "selecting se ds T" "limited mem"
    and "\<And>it. it \<in> set (items_of bks) \<Longrightarrow> source_node src it \<and> ar_live (se_arena se) (it_id it)"
    and "distinct (map it_id (ds @ items_of bks))"
  shows "select_result (ar_live (se_arena se)) (ds @ filter (\<lambda>it. cond (it_id it)) (items_of bks))
    (select_chains mem cond src cs se) (select_more mem ds T (filter (\<lambda>it. cond (it_id it)) (items_of bks)))"
  using assms(1,2,4,5)
proof (induction arbitrary: se ds T rule: list_all2_induct)
  case Nil
  then show ?case by (simp add: items_of_def select_result_def)
next
  case (Cons c cs bk bks)
  let ?one = "filter (\<lambda>it. cond (it_id it)) (bk_chain bk)"
  let ?sel = "filter (\<lambda>it. cond (it_id it)) (items_of bks)"
  have items: "items_of (bk # bks) = bk_chain bk @ items_of bks" by (simp add: items_of_def)
  obtain e where "dll (ar_hh_prev src) (ar_hh_next src) None (ch_head c) (map it_id (bk_chain bk)) e None"
    using Cons.hyps(1) by (auto simp: bucket_rep_def)
  then have "select_result (ar_live (se_arena se)) (ds @ ?one) (select_chain mem cond src (ch_head c) se) (select_more mem ds T ?one)"
    by (rule select_chain_refines [OF _ Cons.prems(1) assms(3)]) (use Cons.prems(2,3) in \<open>auto simp: items\<close>)
  then show ?case
  proof (cases rule: select_result_cases)
    case (1 e)
    then show ?thesis by (simp add: items select_more_append select_result_def)
  next
    case (2 se' T')
    have "select_result (ar_live (se_arena se')) ((ds @ ?one) @ ?sel) (select_chains mem cond src cs se')
        (select_more mem (ds @ ?one) T' ?sel)"
      by (rule Cons.IH [OF 2(3)]) (use Cons.prems(2,3) 2(4) in \<open>auto simp: items distinct_map_filter\<close>)
    then show ?thesis using 2 by (simp add: items select_more_append)
  qed
qed

text \<open>The whole macro; the tail of the new table is its first entry.\<close>

definition headed_rep :: "arena \<Rightarrow> nat option \<Rightarrow> hash option \<Rightarrow> bool" where
  "headed_rep a head hs \<longleftrightarrow> untailed_rep a head hs \<and>
     (\<forall>h t pt. head = Some h \<longrightarrow> table_at a h = Ok (t, pt) \<longrightarrow> to_tail pt = head)"

definition selection_result ::
    "(nat \<Rightarrow> bool) \<Rightarrow> (arena \<times> nat option) outcome option \<Rightarrow> hash option outcome \<Rightarrow> bool" where
  "selection_result live r m \<longleftrightarrow>
     (case (r, m) of
        (Some (Ok (a, head)), Ok hs) \<Rightarrow> headed_rep a head hs \<and> ar_live a = live
      | (Some (Fail e), Fail e') \<Rightarrow> e = e'
      | _ \<Rightarrow> False)"

lemma selecting_headed:
  assumes "selecting se its T" "its \<noteq> []"
  shows "headed_rep (se_arena se) (se_head se) (Some \<lparr>h_items = its, h_tbl = T\<rparr>)"
proof -
  let ?a = "se_arena se"
  obtain t pt where t: "ar_tables ?a t = Some pt" "\<forall>x \<in> set its. node_rep ?a t x" "distinct (map it_id its)"
    "dll (ar_prev ?a) (ar_next ?a) None (se_head se) (map it_id its) (se_last se) None"
    "to_tail pt = se_head se" "table_rep (ar_hh_prev ?a) (ar_hh_next ?a) pt T"
    using assms by (auto simp: selecting_def Let_def)
  have "se_head se = Some (it_id (hd its))" "node_rep ?a t (hd its)"
    using dll_first [OF t(4)] assms(2) t(2) by (simp_all add: hd_map)
  then have "to_tail pt' = se_head se" if "se_head se = Some h" "table_at ?a h = Ok (t', pt')" for h t' pt'
    using that t(1,5) by (auto simp: table_at_Ok node_rep_def)
  then show ?thesis using t by (auto simp: headed_rep_def untailed_rep_def)
qed

lemma HASH_SELECT_refines:
  assumes "hash_rep src src_head hs" "hash_ok hs" "limited mem" "ar_live dst = ar_live src"
  shows "selection_result (ar_live src) (HASH_SELECT_at mem cond src src_head dst None) (HASH_SELECT mem cond hs)"
proof (cases hs)
  case None
  then show ?thesis
    using assms(1,4) by (simp add: hash_rep_def HASH_SELECT_at_def HASH_SELECT_def selected_items_def HASH_FSCK_at_def
        HASH_FSCK_def selection_result_def headed_rep_def untailed_rep_def)
next
  case (Some h)
  obtain t pt x where rep: "src_head = Some x" "table_at src x = Ok (t, pt)" "\<And>it. it \<in> set (h_items h) \<Longrightarrow> node_rep src t it"
    "distinct (map it_id (h_items h))" "table_rep (ar_hh_prev src) (ar_hh_next src) pt (h_tbl h)"
    by (rule hash_repE [OF assms(1,2) [unfolded Some]]) (rule that)
  let ?bks = "ht_buckets (h_tbl h)" and ?its = "selected_items cond hs"
  let ?se = "\<lparr>se_arena = dst, se_head = None, se_last = None\<rparr>"
  have bks: "list_all2 (bucket_rep (ar_hh_prev src) (ar_hh_next src)) (to_buckets pt) ?bks"
    "to_num_buckets pt = ht_num_buckets (h_tbl h)" "length ?bks = unat (ht_num_buckets (h_tbl h))"
    "mset (items_of ?bks) = mset (h_items h)"
    using rep(5) assms(2) Some by (auto simp: table_rep_def hash_ok_def table_ok_def chains_ok_def)
  have its: "?its = filter (\<lambda>it. cond (it_id it)) (items_of ?bks)" using selected_all assms(2) Some by simp
  have set: "set (items_of ?bks) = set (h_items h)" using bks(4) by (metis set_mset_mset)
  have "mset (map it_id (items_of ?bks)) = mset (map it_id (h_items h))" using bks(4) by simp
  then have dist: "distinct (map it_id (items_of ?bks))" using rep(4) by (metis mset_eq_imp_distinct_iff)
  have "select_result (ar_live (se_arena ?se)) ([] @ filter (\<lambda>it. cond (it_id it)) (items_of ?bks))
      (select_chains mem cond src (to_buckets pt) ?se)
      (select_more mem [] (h_tbl h) (filter (\<lambda>it. cond (it_id it)) (items_of ?bks)))"
    by (rule select_chains_refines [OF bks(1) _ assms(3)])
      (use rep(3) set dist assms(4) in \<open>auto simp: selecting_def source_node_def node_rep_def\<close>)
  then have chains: "select_result (ar_live src) ?its (select_chains mem cond src (to_buckets pt) ?se)
      (select_more mem [] (h_tbl h) ?its)" using assms(4) by (simp add: its)
  have "length (to_buckets pt) = unat (ht_num_buckets (h_tbl h))" using list_all2_lengthD [OF bks(1)] bks(3) by simp
  then have step: "HASH_SELECT_at mem cond src src_head dst None =
      then_run (select_chains mem cond src (to_buckets pt) ?se) (\<lambda>se.
        then_run (HASH_FSCK_at (se_arena se) (se_head se)) (\<lambda>a. Some (Ok (a, se_head se))))"
    using rep(1,2) bks(2) by (simp add: HASH_SELECT_at_def Let_def)
  show ?thesis
  proof (cases "?its = []")
    case True
    from chains show ?thesis
    proof (cases rule: select_result_cases)
      case (2 se T)
      then show ?thesis using step True
        by (simp add: HASH_SELECT_def HASH_FSCK_def HASH_FSCK_at_def selection_result_def selecting_def headed_rep_def
            untailed_rep_def)
    qed (simp add: True)
  next
    case False
    have list: "HASH_SELECT mem cond hs = and_then (select_more mem [] (h_tbl h) ?its) (\<lambda>t. HASH_FSCK (Some \<lparr>h_items = ?its, h_tbl = t\<rparr>))"
      using False by (cases "HASH_MAKE_TABLE mem") (simp_all add: HASH_SELECT_def select_more_first Let_def)
    from chains show ?thesis
    proof (cases rule: select_result_cases)
      case (1 e)
      then show ?thesis using step list by (simp add: selection_result_def)
    next
      case (2 se T)
      let ?hs = "Some \<lparr>h_items = ?its, h_tbl = T\<rparr>"
      have "HASH_SELECT mem cond hs = HASH_FSCK ?hs" using list 2(2) by simp
      moreover have "hash_ok ?hs"
      proof (cases "HASH_MAKE_TABLE mem")
        case (Ok t)
        then show ?thesis using selected_ok [OF assms(2,3) False Ok] 2(2) by (simp add: select_more_first [OF False])
      qed (use 2(2) in \<open>simp add: select_more_first [OF False]\<close>)
      moreover have "headed_rep (se_arena se) (se_head se) ?hs" using selecting_headed [OF 2(3) False] .
      ultimately show ?thesis
        using 2(1,4) step HASH_FSCK_ok [of ?hs] HASH_FSCK_untailed [of "se_arena se" "se_head se" ?hs]
        by (simp add: selection_result_def headed_rep_def)
    qed
  qed
qed

section \<open>Adding after a selection\<close>

text \<open>
  The new entry is linked behind the tail, which is the first entry: the application order then has two entries,
  and \<open>HASH_FSCK\<close> finds that the table counts more.
\<close>

lemma add_behind_head:
  assumes rep: "headed_rep a head (Some h)" and ok: "hash_ok (Some h)" and "limited mem"
    and many: "1 < length (h_items h)" "length (h_items h) < 2 ^ 32 - 1"
    and new: "ar_live a i" "i \<notin> it_id ` set (h_items h)"
  shows "HASH_ADD_PTR_at mem i key a head = Some (Fail Exit_Called)"
proof -
  define it where "it = \<lparr>it_id = i, it_key = key, it_hashv = HASH_VALUE key\<rparr>"
  let ?T = "h_tbl h"
  have loose: "untailed_rep a head (Some h)" using rep by (simp add: headed_rep_def)
  obtain t pt x e where r: "head = Some x" "table_at a x = Ok (t, pt)" "\<And>y. y \<in> set (h_items h) \<Longrightarrow> node_rep a t y"
    "distinct (map it_id (h_items h))" "dll (ar_prev a) (ar_next a) None head (map it_id (h_items h)) e None"
    "table_rep (ar_hh_prev a) (ar_hh_next a) pt ?T" "x = it_id (hd (h_items h))"
    by (rule untailed_repE [OF loose ok]) (rule that)
  have tail: "to_tail pt = Some x" using rep r(1,2) by (simp add: headed_rep_def)
  have ne: "h_items h \<noteq> []" using ok by (simp add: hash_ok_def)
  have "x \<in> it_id ` set (h_items h)" using r(7) ne by simp
  then have x: "x \<noteq> i" "ar_live a x" using new(2) r(3) by (metis, auto simp: node_rep_def)
  have first: "ar_prev a x = None" using dll_first [OF r(5)] ne r(7) by (simp add: hd_map)
  define a1 where "a1 = a\<lparr>ar_hashv := (ar_hashv a)(i := HASH_VALUE key), ar_key := (ar_key a)(i := key),
      ar_keylen := (ar_keylen a)(i := 8), ar_tbl := (ar_tbl a)(i := Some t)\<rparr>"
  define pt2 where "pt2 = pt\<lparr>to_tail := Some i\<rparr>"
  define a2 where "a2 = put_table t (Some pt2)
      (a1\<lparr>ar_prev := (ar_prev a)(i := Some x), ar_next := (ar_next a)(i := None, x := Some i)\<rparr>)"
  have at: "table_at a1 x = Ok (t, pt)" "ar_tables a t = Some pt" using r(2) x by (simp_all add: table_at_Ok a1_def)
  then have at2: "table_at a2 x = Ok (t, pt2)" using r(2) x by (simp add: table_at_Ok a2_def a1_def)
  have "HASH_APPEND_LIST x i a1 = Ok a2"
    using at x tail by (simp add: HASH_APPEND_LIST_def element_def Let_def a2_def pt2_def a1_def arena_order)
  moreover have "table_at (a\<lparr>ar_hashv := (ar_hashv a)(i := HASH_VALUE key), ar_key := (ar_key a)(i := key),
      ar_keylen := (ar_keylen a)(i := 8)\<rparr>) x = Ok (t, pt)"
    using r(2) by (simp add: table_at_Ok)
  ultimately have step: "HASH_ADD_PTR_at mem i key a head = then_run (HASH_ADD_TO_TABLE_at mem x (it_id it) a2) (\<lambda>a.
      then_run (HASH_FSCK_at a (Some x)) (\<lambda>a. Some (Ok (a, Some x))))"
    using new(1) r(1) by (simp add: HASH_ADD_PTR_at_def element_def Let_def a1_def it_def)
  have T: "table_ok ?T" "mset (items_of (ht_buckets ?T)) = mset (h_items h)" using ok by (auto simp: hash_ok_def)
  have set: "set (items_of (ht_buckets ?T)) = set (h_items h)" using T(2) by (metis set_mset_mset)
  have "mset (map it_id (items_of (ht_buckets ?T))) = mset (map it_id (h_items h))" using T(2) by simp
  then have "distinct (map it_id (items_of (ht_buckets ?T)))" using r(4) by (metis mset_eq_imp_distinct_iff)
  then have dist: "distinct (it_id it # map it_id (items_of (ht_buckets ?T)))" using new(2) set by (simp add: it_def)
  have known: "known a2 (insert it (set (items_of (ht_buckets ?T))))" "ar_tbl a2 (it_id it) = Some t"
    using r(3) set new by (auto simp: known_def node_rep_def a2_def a1_def it_def)
  have rep2: "table_rep (ar_hh_prev a2) (ar_hh_next a2) pt2 ?T"
    using r(6) by (simp add: table_rep_def a2_def a1_def pt2_def)
  note cases = HASH_ADD_TO_TABLE_cases [OF T(1) \<open>limited mem\<close>, of it]
  then have "HASH_ADD_TO_TABLE mem it ?T \<noteq> Fail Undefined_Behaviour" by auto
  then have refined: "chains_result a2 t (to_tail pt2) (HASH_ADD_TO_TABLE_at mem x (it_id it) a2) (HASH_ADD_TO_TABLE mem it ?T)"
    by (rule HASH_ADD_TO_TABLE_refines [OF at2 rep2 known dist T(1)])
  show ?thesis
  proof (cases "HASH_ADD_TO_TABLE mem it ?T")
    case (Fail e)
    then show ?thesis using refined cases step by (auto simp: chains_result_def split: option.splits outcome.splits)
  next
    case (Ok T')
    then obtain P N pt' where a': "HASH_ADD_TO_TABLE_at mem x (it_id it) a2 =
        Some (Ok (put_table t (Some pt') (a2\<lparr>ar_hh_prev := P, ar_hh_next := N\<rparr>)))" "table_rep P N pt' T'"
      using refined by (auto simp: chains_result_def split: option.splits outcome.splits)
    let ?a = "put_table t (Some pt') (a2\<lparr>ar_hh_prev := P, ar_hh_next := N\<rparr>)"
    have T': "table_ok T'" "mset (items_of (ht_buckets T')) = add_mset it (mset (h_items h))" using cases Ok T(2) by auto
    have size: "length (items_of (ht_buckets T')) = Suc (length (h_items h))" "set (items_of (ht_buckets T')) = insert it (set (h_items h))"
      using arg_cong [OF T'(2), of size] arg_cong [OF T'(2), of set_mset] by simp_all
    have live: "ar_live ?a (it_id y)" if "y \<in> set (items_of (ht_buckets T'))" for y
      using that size(2) r(3) [of y] new(1) by (auto simp: node_rep_def a2_def a1_def it_def)
    have pt': "list_all2 (bucket_rep P N) (to_buckets pt') (ht_buckets T')" "to_num_buckets pt' = ht_num_buckets T'"
      "to_num_items pt' = of_nat (Suc (length (h_items h)))" "length (ht_buckets T') = unat (ht_num_buckets T')"
      using a'(2) T'(1) size(1) by (auto simp: table_rep_def table_ok_def chains_ok_def)
    have "check_buckets ?a (to_buckets pt') 0 = Some (Ok (0 + of_nat (length (items_of (ht_buckets T')))))"
      using pt'(1) T'(1) live
      by (intro check_buckets_Ok) (auto simp: table_ok_def chains_ok_def chain_ok_def in_set_conv_nth)
    moreover have "check_links ?a (ar_prev ?a) (ar_next ?a) None (Some x) 0 = Some (Ok 2)"
    proof -
      have "dll (ar_prev ?a) (ar_next ?a) None (Some x) [x, i] (Some i) None" using x first by (simp add: a2_def a1_def)
      moreover have "ar_live ?a j" if "j \<in> set [x, i]" for j using that x new(1) by (auto simp: a2_def a1_def)
      ultimately show ?thesis using check_links_Ok [of _ _ None "Some x" "[x, i]" "Some i" ?a 0] by simp
    qed
    moreover have "(of_nat (Suc (length (h_items h))) :: u32) \<noteq> 2"
    proof
      assume "(of_nat (Suc (length (h_items h))) :: u32) = 2"
      then have "unat (of_nat (Suc (length (h_items h))) :: u32) = 2" by (simp del: of_nat_Suc)
      then show False using many unat_of_nat_u32 [of "Suc (length (h_items h))"] by (simp del: of_nat_Suc)
    qed
    moreover have "table_at ?a x = Ok (t, pt')" using at2 by (simp add: table_at_Ok)
    ultimately have "HASH_FSCK_at ?a (Some x) = Some (Fail Exit_Called)"
      using list_all2_lengthD [OF pt'(1)] pt'(2-4) size(1) by (simp add: HASH_FSCK_at_def del: of_nat_Suc)
    then show ?thesis using step a'(1) by simp
  qed
qed

section \<open>Properties\<close>

lemma select_to_new:
  assumes "hash_rep src src_head hs" "hash_ok hs" "limited mem" "ar_live dst = ar_live src"
  shows "HASH_SELECT_at mem cond src src_head dst None = Some (Fail Exit_Called) \<and> select_starves mem cond hs \<or>
    (\<exists>a head r. HASH_SELECT_at mem cond src src_head dst None = Some (Ok (a, head)) \<and>
       headed_rep a head r \<and> hash_ok r \<and> ar_live a = ar_live src \<and>
       mset (items r) = filter_mset (\<lambda>it. cond (it_id it)) (mset (items hs)))"
proof -
  have "mset (selected_items cond hs) = filter_mset (\<lambda>it. cond (it_id it)) (mset (items hs))"
    using selected_all assms(2) by (cases hs) (simp_all add: items_def selected_items_def [of _ None] hash_ok_def)
  then show ?thesis
    using HASH_SELECT_refines [OF assms, of cond] HASH_SELECT_cases [OF assms(2,3), of cond]
    by (fastforce simp: selection_result_def split: option.splits outcome.splits)
qed

text \<open>C19: A selection into an empty hash ends for every condition, and unless an allocation is refused it makes a consistent hash of the
  entries of the source for which the condition holds, on the second handles, in which lookups give what they should; no freed
  entry and no null pointer is used.
\<close>

theorem select_makes_hash:
  assumes "hash_rep src src_head hs" "hash_ok hs" "limited mem" "ar_live dst = ar_live src"
  shows "HASH_SELECT_at mem cond src src_head dst None = Some (Fail Exit_Called) \<and> select_starves mem cond hs \<or>
    (\<exists>a head r. HASH_SELECT_at mem cond src src_head dst None = Some (Ok (a, head)) \<and>
       untailed_rep a head r \<and> hash_ok r \<and>
       mset (items r) = filter_mset (\<lambda>it. cond (it_id it)) (mset (items hs)) \<and>
       (\<forall>key. HASH_FIND_PTR_at a head key = Some (HASH_FIND_PTR r key)))"
  using select_to_new [OF assms, of cond] HASH_FIND_PTR_untailed unfolding headed_rep_def by blast

text \<open>The tail of the new table stays at its first entry: after a selection of two entries or more, the next addition takes all but
  the first and the new entry out of the application order, and the check that follows ends the program.
\<close>

theorem add_after_select_exits:
  assumes "hash_rep src src_head hs" "hash_ok hs" "limited mem" "ar_live dst = ar_live src"
    and "HASH_SELECT_at mem cond src src_head dst None = Some (Ok (a, head))"
    and "1 < size (filter_mset (\<lambda>it. cond (it_id it)) (mset (items hs)))" "length (items hs) < 2 ^ 32 - 1"
    and "ar_live src i" "i \<notin> it_id ` set (items hs)"
  shows "HASH_ADD_PTR_at mem i key a head = Some (Fail Exit_Called)"
proof -
  obtain r where r: "headed_rep a head r" "hash_ok r" "ar_live a = ar_live src"
    "mset (items r) = filter_mset (\<lambda>it. cond (it_id it)) (mset (items hs))"
    using select_to_new [OF assms(1-4), of cond] assms(5) by auto
  have "length (items r) = size (filter_mset (\<lambda>it. cond (it_id it)) (mset (items hs)))" using r(4) by (metis size_mset)
  moreover from this have "length (items r) \<le> length (items hs)" by (metis size_filter_mset_lesseq size_mset)
  moreover have "set (items r) \<subseteq> set (items hs)" using arg_cong [OF r(4), of set_mset] by auto
  moreover have "items None = []" "items (Some h) = h_items h" for h by (simp_all add: items_def)
  moreover have "items r \<noteq> []" using calculation(1) assms(6) by (metis list.size(3) not_less_zero)
  moreover from this obtain h where "r = Some h" by (cases r) (simp_all add: items_def)
  ultimately show ?thesis
    using r(1-3) assms(3,6-9) by (intro add_behind_head [of a head h]) auto
qed

text \<open>All of three entries.\<close>

lemma select_three:
  assumes "hash_rep src src_head (same_hash 7 3)" "ar_live dst = ar_live src"
  shows "\<exists>a head. HASH_SELECT_at megabyte (\<lambda>_. True) src src_head dst None = Some (Ok (a, head))"
proof -
  define b where "b = HASH_TO_BKT (HASH_VALUE 7) 32"
  have b: "b < 32" using bucket_32 by (simp add: b_def)
  have ok: "hash_ok (same_hash 7 3)" using same_hash_ok [OF megabyte_enough(1), of 3 7] by simp
  have three: "rev (map (same_item 7) [0..<3]) = [same_item 7 2, same_item 7 1, same_item 7 0]"
    by (simp add: upt_rec [of _ 3] numeral_2_eq_2)
  have its: "selected_items (\<lambda>_. True) (same_hash 7 3) = [same_item 7 2, same_item 7 1, same_item 7 0]"
    using same_chains [of 7 3] unfolding three by (simp add: selected_items_def same_hash_def same_table_def items_of_def)
  have T: "same_table 7 0 = \<lparr>ht_buckets = (replicate 32 empty_bucket)[b := same_bucket 7 0],
      ht_num_buckets = 32, ht_log2_num_buckets = 5, ht_num_items = 0, ht_ideal_chain_maxlen = 0,
      ht_nonideal_items = 0, ht_ineff_expands = 0, ht_noexpand = False\<rparr>"
    by (simp add: same_table_def b_def)
  have small: "(10 \<le> (1 :: u32)) = False" "(10 \<le> (2 :: u32)) = False" "(10 \<le> (3 :: u32)) = False"
    by (simp_all add: word_le_nat_alt)
  have "\<exists>t. select_items megabyte [same_item 7 2, same_item 7 1, same_item 7 0] (same_table 7 0) = Ok t"
    using b by (simp add: T HASH_ADD_TO_BKT_def Let_def same_item_def same_bucket_def HASH_BKT_CAPACITY_THRESH_def b_def [symmetric] small)
  then obtain t where t: "select_items megabyte (selected_items (\<lambda>_. True) (same_hash 7 3)) (same_table 7 0) = Ok t"
    using its by auto
  note make = HASH_MAKE_TABLE_same [OF megabyte_enough(1), of 7]
  have "HASH_SELECT megabyte (\<lambda>_. True) (same_hash 7 3) =
      HASH_FSCK (Some \<lparr>h_items = selected_items (\<lambda>_. True) (same_hash 7 3), h_tbl = t\<rparr>)"
    using make t its by (simp add: HASH_SELECT_def Let_def del: select_items.simps)
  also have "\<dots> = Ok (Some \<lparr>h_items = selected_items (\<lambda>_. True) (same_hash 7 3), h_tbl = t\<rparr>)"
    using selected_ok [OF ok megabyte_enough(2) _ make t] its by (intro HASH_FSCK_ok) simp
  finally show ?thesis
    using HASH_SELECT_refines [OF assms(1) ok megabyte_enough(2) assms(2), of "\<lambda>_. True"]
    by (auto simp: selection_result_def split: option.splits outcome.splits)
qed

theorem select_makes_hash_witness:
  "\<exists>src src_head a head r. hash_rep src src_head (same_hash 7 3) \<and>
    HASH_SELECT_at megabyte (\<lambda>_. True) src src_head src None = Some (Ok (a, head)) \<and> untailed_rep a head r \<and>
    size (mset (items r)) = 3 \<and> (\<forall>key. HASH_FIND_PTR_at a head key = Some (HASH_FIND_PTR r key))"
proof -
  obtain src src_head where src: "hash_rep src src_head (same_hash 7 3)"
    using same_rep [OF megabyte_enough, of 3 7] by auto
  have ok: "hash_ok (same_hash 7 3)" using same_hash_ok [OF megabyte_enough(1), of 3 7] by simp
  obtain a head where "HASH_SELECT_at megabyte (\<lambda>_. True) src src_head src None = Some (Ok (a, head))"
    using select_three [OF src refl] by blast
  moreover from this obtain r where "untailed_rep a head r" "mset (items r) = mset (items (same_hash 7 3))"
    "\<forall>key. HASH_FIND_PTR_at a head key = Some (HASH_FIND_PTR r key)"
    using select_makes_hash [OF src ok megabyte_enough(2) refl, of "\<lambda>_. True"] by auto
  moreover have "size (mset (items (same_hash 7 3))) = 3" by (simp add: same_items)
  ultimately show ?thesis using src by metis
qed

theorem add_after_select_exits_witness:
  "\<exists>src src_head a head. hash_rep src src_head (same_hash 7 3) \<and>
    HASH_SELECT_at megabyte (\<lambda>_. True) src src_head src None = Some (Ok (a, head)) \<and>
    HASH_ADD_PTR_at megabyte 3 11 a head = Some (Fail Exit_Called)"
proof -
  obtain src src_head where src: "hash_rep src src_head (same_hash 7 3)" "ar_live src = (\<lambda>_. True)"
    using same_rep [OF megabyte_enough, of 3 7] by auto
  have ok: "hash_ok (same_hash 7 3)" using same_hash_ok [OF megabyte_enough(1), of 3 7] by simp
  obtain a head where sel: "HASH_SELECT_at megabyte (\<lambda>_. True) src src_head src None = Some (Ok (a, head))"
    using select_three [OF src(1) refl] by blast
  have "HASH_ADD_PTR_at megabyte 3 11 a head = Some (Fail Exit_Called)"
    using src(2) by (intro add_after_select_exits [OF src(1) ok megabyte_enough(2) refl sel])
      (auto simp: same_items same_item_def)
  then show ?thesis using src sel by blast
qed

end
