(* ===== verification/Merge_Sort.thy ===== *)
theory Merge_Sort
  imports Prelude "HOL-Library.Multiset"
begin

text \<open>
  Bottom-up merge sort on lists, which \<open>HASH_SRT\<close> of \<open>uthash.h\<close> carries out on linked handles: rounds
  that merge neighbouring runs of \<open>n\<close> entries, for \<open>n\<close> = 1, 2, 4, and so on. It permutes for every comparison; it
  sorts, and keeps the order of entries that compare equal, where the comparison is a total preorder.
\<close>

fun merge_runs :: "('a \<Rightarrow> 'a \<Rightarrow> bool) \<Rightarrow> 'a list \<Rightarrow> 'a list \<Rightarrow> 'a list" where
  "merge_runs le [] ys = ys"
| "merge_runs le (x # xs) [] = x # xs"
| "merge_runs le (x # xs) (y # ys) =
     (if le x y then x # merge_runs le xs (y # ys) else y # merge_runs le (x # xs) ys)"

function merge_round :: "('a \<Rightarrow> 'a \<Rightarrow> bool) \<Rightarrow> nat \<Rightarrow> 'a list \<Rightarrow> 'a list" where
  "merge_round le n xs =
     (if xs = [] \<or> n = 0 then xs
      else merge_runs le (take n xs) (take n (drop n xs)) @ merge_round le n (drop n (drop n xs)))"
  by pat_completeness auto
termination by (relation "measure (\<lambda>(le, n, xs). length xs)") auto

declare merge_round.simps [simp del]

lemma merge_round_Nil [simp]: "merge_round le n [] = []"
  by (simp add: merge_round.simps)

section \<open>Permutation\<close>

lemma merge_runs_Nil2 [simp]: "merge_runs le xs [] = xs"
  by (cases xs) auto

lemma mset_merge_runs [simp]: "mset (merge_runs le xs ys) = mset xs + mset ys"
  by (induction le xs ys rule: merge_runs.induct) auto

lemma length_merge_runs [simp]: "length (merge_runs le xs ys) = length xs + length ys"
  by (induction le xs ys rule: merge_runs.induct) auto

lemma set_merge_runs [simp]: "set (merge_runs le xs ys) = set xs \<union> set ys"
  by (induction le xs ys rule: merge_runs.induct) auto

lemma mset_merge_round [simp]: "mset (merge_round le n xs) = mset xs"
proof (induction le n xs rule: merge_round.induct)
  case (1 le n xs)
  have "mset (take n xs) + (mset (take n (drop n xs)) + mset (drop n (drop n xs))) = mset xs"
    by (metis append_take_drop_id mset_append)
  then show ?case using 1 by (subst merge_round.simps) (auto simp: add.assoc)
qed

lemma length_merge_round [simp]: "length (merge_round le n xs) = length xs"
  by (metis mset_merge_round size_mset)

lemma set_merge_round [simp]: "set (merge_round le n xs) = set xs"
  by (metis mset_merge_round set_mset_mset)

function merge_rounds :: "('a \<Rightarrow> 'a \<Rightarrow> bool) \<Rightarrow> nat \<Rightarrow> 'a list \<Rightarrow> 'a list" where
  "merge_rounds le n xs =
     (let ys = merge_round le n xs
      in if n = 0 \<or> length xs \<le> 2 * n then ys else merge_rounds le (2 * n) ys)"
  by pat_completeness auto
termination by (relation "measure (\<lambda>(le, n, xs). length xs - n)") auto

declare merge_rounds.simps [simp del]

lemma mset_merge_rounds [simp]: "mset (merge_rounds le n xs) = mset xs"
proof (induction le n xs rule: merge_rounds.induct)
  case (1 le n xs)
  then show ?case by (subst merge_rounds.simps) (simp add: Let_def)
qed

lemma merge_rounds_Nil [simp]: "merge_rounds le n [] = []"
  by (metis mset_merge_rounds mset_zero_iff)

section \<open>Order\<close>

definition preorder_on :: "('a \<Rightarrow> 'a \<Rightarrow> bool) \<Rightarrow> 'a set \<Rightarrow> bool" where
  "preorder_on le A \<longleftrightarrow> (\<forall>x \<in> A. \<forall>y \<in> A. (le x y \<or> le y x) \<and> (\<forall>z \<in> A. le x y \<longrightarrow> le y z \<longrightarrow> le x z))"

lemma preorder_on_trans:
  "preorder_on le A \<Longrightarrow> le x y \<Longrightarrow> le y z \<Longrightarrow> x \<in> A \<Longrightarrow> y \<in> A \<Longrightarrow> z \<in> A \<Longrightarrow> le x z"
  unfolding preorder_on_def by blast

lemma preorder_on_total: "preorder_on le A \<Longrightarrow> x \<in> A \<Longrightarrow> y \<in> A \<Longrightarrow> \<not> le x y \<Longrightarrow> le y x"
  unfolding preorder_on_def by blast

lemma sorted_merge_runs:
  assumes "preorder_on le A" "set xs \<subseteq> A" "set ys \<subseteq> A" "sorted_wrt le xs" "sorted_wrt le ys"
  shows "sorted_wrt le (merge_runs le xs ys)"
  using assms
proof (induction le xs ys rule: merge_runs.induct)
  case (3 le x xs y ys)
  have "le x z" if "le x y" "z \<in> set ys" for z
    using that 3 by (auto intro: preorder_on_trans [OF "3.prems"(1), of x y z])
  moreover have "le y x" if "\<not> le x y" using that 3 preorder_on_total by fastforce
  moreover have "le y z" if "le y x" "z \<in> set xs" for z
    using that 3 by (auto intro: preorder_on_trans [OF "3.prems"(1), of y x z])
  ultimately show ?case using 3 by auto
qed auto

text \<open>Every stretch of \<open>n\<close> entries that starts at a multiple of \<open>n\<close> is sorted.\<close>

definition runs :: "('a \<Rightarrow> 'a \<Rightarrow> bool) \<Rightarrow> nat \<Rightarrow> 'a list \<Rightarrow> bool" where
  "runs le n xs \<longleftrightarrow> (\<forall>m. sorted_wrt le (take n (drop (m * n) xs)))"

lemma runs_one: "runs le 1 xs"
proof -
  have "sorted_wrt le (take 1 ys)" for ys :: "'a list" by (cases ys) auto
  then show ?thesis by (simp add: runs_def)
qed

lemma merge_round_take: "take (2 * n) (merge_round le n xs) = merge_runs le (take n xs) (take n (drop n xs))"
  by (subst merge_round.simps) (auto simp: min_def)

lemma merge_round_drop: "0 < n \<Longrightarrow> drop (2 * n) (merge_round le n xs) = merge_round le n (drop (2 * n) xs)"
proof (cases "length xs \<le> 2 * n")
  case True
  then show ?thesis by simp
next
  case False
  assume "0 < n"
  then show ?thesis using False by (subst merge_round.simps) (auto simp: min_def mult_2)
qed

lemma merge_round_drops:
  "0 < n \<Longrightarrow> drop (m * (2 * n)) (merge_round le n xs) = merge_round le n (drop (m * (2 * n)) xs)"
proof (induction m arbitrary: xs)
  case (Suc m)
  have split: "drop (Suc m * (2 * n)) zs = drop (m * (2 * n)) (drop (2 * n) zs)" for zs :: "'a list"
    unfolding drop_drop by (simp add: add.commute)
  show ?case unfolding split merge_round_drop [OF Suc.prems] by (rule Suc.IH [OF Suc.prems])
qed simp

lemma runs_merge_round:
  assumes "preorder_on le (set xs)" "0 < n" "runs le n xs"
  shows "runs le (2 * n) (merge_round le n xs)"
  unfolding runs_def
proof
  fix m
  let ?ys = "drop (m * (2 * n)) xs"
  have "take n ?ys = take n (drop (2 * m * n) xs)" "take n (drop n ?ys) = take n (drop ((2 * m + 1) * n) xs)"
    by (simp_all add: algebra_simps)
  then have "sorted_wrt le (take n ?ys)" "sorted_wrt le (take n (drop n ?ys))"
    using assms(3) by (auto simp only: runs_def)
  moreover have "set (take n ?ys) \<subseteq> set xs" "set (take n (drop n ?ys)) \<subseteq> set xs"
    by (meson order_trans set_drop_subset set_take_subset)+
  ultimately have "sorted_wrt le (merge_runs le (take n ?ys) (take n (drop n ?ys)))"
    by (intro sorted_merge_runs [OF assms(1)])
  then show "sorted_wrt le (take (2 * n) (drop (m * (2 * n)) (merge_round le n xs)))"
    by (simp add: merge_round_drops [OF assms(2)] merge_round_take)
qed

lemma sorted_merge_rounds:
  assumes "preorder_on le (set xs)" "0 < n" "runs le n xs"
  shows "sorted_wrt le (merge_rounds le n xs)"
  using assms
proof (induction le n xs rule: merge_rounds.induct)
  case (1 le n xs)
  have runs: "runs le (2 * n) (merge_round le n xs)" by (rule runs_merge_round [OF "1.prems"])
  show ?case
  proof (cases "length xs \<le> 2 * n")
    case True
    moreover have "sorted_wrt le (take (2 * n) (drop (0 * (2 * n)) (merge_round le n xs)))"
      using runs unfolding runs_def by blast
    ultimately show ?thesis by (subst merge_rounds.simps) (simp add: Let_def)
  next
    case False
    then show ?thesis using 1 runs by (subst merge_rounds.simps) (simp add: Let_def)
  qed
qed

section \<open>Stability\<close>

lemma merge_runs_stable:
  assumes "preorder_on le A" "set xs \<subseteq> A" "set ys \<subseteq> A" "sorted_wrt le xs"
    and same: "\<And>x y. x \<in> A \<Longrightarrow> y \<in> A \<Longrightarrow> P x \<Longrightarrow> P y \<Longrightarrow> le x y"
  shows "filter P (merge_runs le xs ys) = filter P xs @ filter P ys"
  using assms(1-4) same
proof (induction le xs ys rule: merge_runs.induct)
  case (3 le x xs y ys)
  have "filter P (x # xs) = []" if "\<not> le x y" "P y"
  proof -
    have "\<not> P z" if z: "z \<in> set (x # xs)" for z
    proof
      assume "P z"
      then have "le z y" using z \<open>P y\<close> "3.prems" by auto
      moreover have "x = z \<or> le x z" using z "3.prems"(4) by auto
      ultimately have "le x y"
        using z "3.prems" by (auto intro: preorder_on_trans [OF "3.prems"(1), of x z y])
      then show False using \<open>\<not> le x y\<close> by simp
    qed
    then show ?thesis by (simp add: filter_empty_conv)
  qed
  then show ?case using 3 by (cases "le x y") auto
qed auto

lemma merge_round_stable:
  assumes "preorder_on le A" "set xs \<subseteq> A" "runs le n xs"
    and same: "\<And>x y. x \<in> A \<Longrightarrow> y \<in> A \<Longrightarrow> P x \<Longrightarrow> P y \<Longrightarrow> le x y"
  shows "filter P (merge_round le n xs) = filter P xs"
  using assms(1-3) same
proof (induction le n xs rule: merge_round.induct)
  case (1 le n xs)
  have "runs le n (drop n (drop n xs))"
    unfolding runs_def
  proof
    fix m
    have "drop (m * n) (drop n (drop n xs)) = drop (Suc (Suc m) * n) xs" by (simp add: algebra_simps)
    then show "sorted_wrt le (take n (drop (m * n) (drop n (drop n xs))))"
      using "1.prems"(3) unfolding runs_def by metis
  qed
  moreover have "sorted_wrt le (take n (drop (0 * n) xs))" using "1.prems"(3) unfolding runs_def by blast
  moreover have sub: "set (take n xs) \<subseteq> A" "set (take n (drop n xs)) \<subseteq> A" "set (drop n (drop n xs)) \<subseteq> A"
    using "1.prems"(2) by (meson order_trans set_drop_subset set_take_subset)+
  ultimately have "filter P (merge_runs le (take n xs) (take n (drop n xs)) @ merge_round le n (drop n (drop n xs))) =
      filter P (take n xs) @ filter P (take n (drop n xs)) @ filter P (drop n (drop n xs))"
    if "xs \<noteq> []" "n \<noteq> 0"
    using that 1 by (simp add: merge_runs_stable [OF "1.prems"(1) sub(1,2) _ "1.prems"(4)])
  also have "\<dots> = filter P xs" by (metis append_take_drop_id filter_append)
  finally show ?case by (subst merge_round.simps) auto
qed

lemma merge_rounds_stable:
  assumes "preorder_on le (set xs)" "0 < n" "runs le n xs"
    and same: "\<And>x y. x \<in> set xs \<Longrightarrow> y \<in> set xs \<Longrightarrow> P x \<Longrightarrow> P y \<Longrightarrow> le x y"
  shows "filter P (merge_rounds le n xs) = filter P xs"
  using assms
proof (induction le n xs rule: merge_rounds.induct)
  case (1 le n xs)
  have "filter P (merge_round le n xs) = filter P xs"
    using "1.prems" by (intro merge_round_stable [of le "set xs"]) auto
  moreover have "filter P (merge_rounds le (2 * n) (merge_round le n xs)) = filter P (merge_round le n xs)"
    if "\<not> length xs \<le> 2 * n"
    using that "1.prems" runs_merge_round [OF "1.prems"(1-3)] by (intro "1.IH") auto
  ultimately show ?case by (subst merge_rounds.simps) (auto simp: Let_def)
qed

section \<open>On the keys of entries\<close>

lemma merge_runs_map: "map f (merge_runs (\<lambda>x y. le (f x) (f y)) xs ys) = merge_runs le (map f xs) (map f ys)"
  by (induction "\<lambda>x y. le (f x) (f y)" xs ys rule: merge_runs.induct) auto

lemma merge_round_map: "map f (merge_round (\<lambda>x y. le (f x) (f y)) n xs) = merge_round le n (map f xs)"
proof (induction "\<lambda>x y. le (f x) (f y)" n xs rule: merge_round.induct)
  case (1 n xs)
  then show ?case
    by (subst (1 2) merge_round.simps) (simp add: merge_runs_map take_map drop_map)
qed

lemma merge_rounds_map: "map f (merge_rounds (\<lambda>x y. le (f x) (f y)) n xs) = merge_rounds le n (map f xs)"
proof (induction "\<lambda>x y. le (f x) (f y)" n xs rule: merge_rounds.induct)
  case (1 n xs)
  then show ?case
    by (subst (1 2) merge_rounds.simps) (simp add: merge_round_map Let_def)
qed

end
