(* ===== verification/Uthash_Sort.thy ===== *)
theory Uthash_Sort
  imports Uthash_Heap Merge_Sort
begin

text \<open>
  \<open>HASH_SRT\<close> of \<open>src/external/uthash.h\<close>: a merge sort of the application order that relinks the handles
  in place, with the comparison as a parameter. Its loops along the links are \<open>partial_function (option)\<close>.
\<close>

section \<open>The macro\<close>

text \<open>
  The variables of the inner loop. \<open>_hs_e\<close> is the result of a choice.
\<close>

record merging =
  hs_arena :: arena
  hs_list :: "nat option"
  hs_tail :: "nat option"
  hs_p :: "nat option"
  hs_psize :: u32
  hs_q :: "nat option"
  hs_qsize :: u32

text \<open>The \<open>for\<close> loop that finds the start of the second run.\<close>

primrec step_over :: "nat \<Rightarrow> arena \<Rightarrow> u32 \<Rightarrow> nat option \<Rightarrow> (u32 \<times> nat option) outcome" where
  "step_over 0 a psize q = Ok (psize, q)"
| "step_over (Suc k) a psize q =
     (let psize = psize + 1
      in and_then (element a q) (\<lambda>i.
         if ar_next a i = None then Ok (psize, None) else step_over k a psize (ar_next a i)))"

definition take_q :: "merging \<Rightarrow> (nat option \<times> merging) outcome" where
  "take_q s =
     (let e = hs_q s
      in and_then (element (hs_arena s) (hs_q s)) (\<lambda>i.
         Ok (e, s\<lparr>hs_q := ar_next (hs_arena s) i, hs_qsize := hs_qsize s - 1\<rparr>)))"

definition take_p :: "merging \<Rightarrow> (nat option \<times> merging) outcome" where
  "take_p s =
     (let e = hs_p s
      in and_then (if hs_p s \<noteq> None
           then and_then (element (hs_arena s) (hs_p s)) (\<lambda>i. Ok (s\<lparr>hs_p := ar_next (hs_arena s) i\<rparr>))
           else Ok s) (\<lambda>s.
         Ok (e, s\<lparr>hs_psize := hs_psize s - 1\<rparr>)))"

definition next_merged :: "(nat \<Rightarrow> nat \<Rightarrow> int) \<Rightarrow> merging \<Rightarrow> (nat option \<times> merging) outcome" where
  "next_merged cmpfcn s =
     (if hs_psize s = 0 then take_q s
      else if hs_qsize s = 0 \<or> hs_q s = None then take_p s
      else and_then (element (hs_arena s) (hs_p s)) (\<lambda>i.
           and_then (element (hs_arena s) (hs_q s)) (\<lambda>j.
           if cmpfcn i j \<le> 0 then take_p s else take_q s)))"

text \<open>Linking what was chosen behind the entries merged so far.\<close>

definition append_merged :: "nat option \<Rightarrow> merging \<Rightarrow> merging outcome" where
  "append_merged e s =
     and_then (if hs_tail s \<noteq> None
       then and_then (element (hs_arena s) (hs_tail s)) (\<lambda>t.
            Ok (s\<lparr>hs_arena := (hs_arena s)\<lparr>ar_next := (ar_next (hs_arena s))(t := e)\<rparr>\<rparr>))
       else Ok (s\<lparr>hs_list := e\<rparr>)) (\<lambda>s.
     and_then (if e \<noteq> None
       then and_then (element (hs_arena s) e) (\<lambda>i.
            Ok (s\<lparr>hs_arena := (hs_arena s)\<lparr>ar_prev := (ar_prev (hs_arena s))(i := hs_tail s)\<rparr>\<rparr>))
       else Ok s) (\<lambda>s.
     Ok (s\<lparr>hs_tail := e\<rparr>)))"

definition merge_step :: "(nat \<Rightarrow> nat \<Rightarrow> int) \<Rightarrow> merging \<Rightarrow> merging outcome" where
  "merge_step cmpfcn s = and_then (next_merged cmpfcn s) (\<lambda>(e, s). append_merged e s)"

definition merges_on :: "merging \<Rightarrow> bool" where
  "merges_on s \<longleftrightarrow> hs_psize s \<noteq> 0 \<or> hs_qsize s \<noteq> 0 \<and> hs_q s \<noteq> None"

lemma append_merged_sizes: "append_merged e s = Ok s' \<Longrightarrow> hs_psize s' = hs_psize s \<and> hs_qsize s' = hs_qsize s"
  by (auto simp: append_merged_def and_then_Ok_iff split: if_splits)

lemma take_sizes:
  "take_q s = Ok (e, s') \<Longrightarrow> hs_psize s' = hs_psize s \<and> hs_qsize s' = hs_qsize s - 1"
  "take_p s = Ok (e, s') \<Longrightarrow> hs_psize s' = hs_psize s - 1 \<and> hs_qsize s' = hs_qsize s"
  by (auto simp: take_q_def take_p_def and_then_Ok_iff Let_def split: if_splits)

lemma unat_pred: "(w::u32) \<noteq> 0 \<Longrightarrow> unat (w - 1) = unat w - 1"
  by (simp add: unat_minus_one)

lemma merge_step_sizes:
  assumes "merges_on s" "merge_step cmpfcn s = Ok s'"
  shows "unat (hs_psize s') + unat (hs_qsize s') < unat (hs_psize s) + unat (hs_qsize s)"
proof -
  obtain e s'' where s'': "next_merged cmpfcn s = Ok (e, s'')" "append_merged e s'' = Ok s'"
    using assms(2) by (auto simp: merge_step_def and_then_Ok_iff)
  have "hs_psize s \<noteq> 0 \<and> hs_psize s'' = hs_psize s - 1 \<and> hs_qsize s'' = hs_qsize s \<or>
      hs_qsize s \<noteq> 0 \<and> hs_qsize s'' = hs_qsize s - 1 \<and> hs_psize s'' = hs_psize s"
    using s''(1) assms(1)
    by (auto simp: next_merged_def merges_on_def and_then_Ok_iff dest!: take_sizes split: if_splits)
  then show ?thesis
    using append_merged_sizes [OF s''(2)] unat_pred [of "hs_psize s"] unat_pred [of "hs_qsize s"]
    by (auto simp: unat_gt_0)
qed

function merge_loop :: "(nat \<Rightarrow> nat \<Rightarrow> int) \<Rightarrow> merging \<Rightarrow> merging outcome" where
  "merge_loop cmpfcn s =
     (if merges_on s then
        (case merge_step cmpfcn s of Fail e \<Rightarrow> Fail e | Ok s \<Rightarrow> merge_loop cmpfcn s)
      else Ok s)"
  by pat_completeness auto
termination
  by (relation "measure (\<lambda>(_, s). unat (hs_psize s) + unat (hs_qsize s))") (auto intro: merge_step_sizes)

declare merge_loop.simps [simp del]

text \<open>One pair of runs, from the first entry of the first run.\<close>

definition merge_pair :: "(nat \<Rightarrow> nat \<Rightarrow> int) \<Rightarrow> u32 \<Rightarrow> merging \<Rightarrow> merging outcome" where
  "merge_pair cmpfcn insize s =
     and_then (step_over (unat insize) (hs_arena s) 0 (hs_p s)) (\<lambda>(psize, q).
     and_then (merge_loop cmpfcn (s\<lparr>hs_psize := psize, hs_q := q, hs_qsize := insize\<rparr>)) (\<lambda>s.
     Ok (s\<lparr>hs_p := hs_q s\<rparr>)))"

partial_function (option) sort_pass ::
    "(nat \<Rightarrow> nat \<Rightarrow> int) \<Rightarrow> u32 \<Rightarrow> u32 \<Rightarrow> merging \<Rightarrow> (u32 \<times> merging) outcome option" where
  "sort_pass cmpfcn insize nmerges s =
     (if hs_p s = None then Some (Ok (nmerges, s))
      else (case merge_pair cmpfcn insize s of
              Fail e \<Rightarrow> Some (Fail e)
            | Ok s \<Rightarrow> sort_pass cmpfcn insize (nmerges + 1) s))"

definition end_pass :: "merging \<Rightarrow> arena outcome" where
  "end_pass s =
     (if hs_tail s \<noteq> None
      then and_then (element (hs_arena s) (hs_tail s)) (\<lambda>t.
           Ok ((hs_arena s)\<lparr>ar_next := (ar_next (hs_arena s))(t := None)\<rparr>))
      else Ok (hs_arena s))"

definition pass_start :: "arena \<Rightarrow> nat option \<Rightarrow> merging" where
  "pass_start a list = \<lparr>hs_arena = a, hs_list = None, hs_tail = None, hs_p = list, hs_psize = 0,
     hs_q = None, hs_qsize = 0\<rparr>"

definition whole_pass ::
    "(nat \<Rightarrow> nat \<Rightarrow> int) \<Rightarrow> u32 \<Rightarrow> nat option \<Rightarrow> arena \<Rightarrow> (u32 \<times> merging \<times> arena) outcome option" where
  "whole_pass cmpfcn insize list a =
     then_run (sort_pass cmpfcn insize 0 (pass_start a list)) (\<lambda>(nmerges, s).
     then_run (Some (end_pass s)) (\<lambda>a. Some (Ok (nmerges, s, a))))"

text \<open>The outer loop, with the first entry \<open>h\<close> as \<open>head\<close>: the list, and the heap with the tail of the table set.\<close>

partial_function (option) sort_loop ::
    "(nat \<Rightarrow> nat \<Rightarrow> int) \<Rightarrow> nat \<Rightarrow> u32 \<Rightarrow> nat option \<Rightarrow> arena \<Rightarrow> (arena \<times> nat option) outcome option" where
  "sort_loop cmpfcn h insize list a =
     (case whole_pass cmpfcn insize list a of
        None \<Rightarrow> None
      | Some (Fail e) \<Rightarrow> Some (Fail e)
      | Some (Ok (nmerges, s, a)) \<Rightarrow>
          (if nmerges \<le> 1
           then Some (and_then (table_at a h) (\<lambda>(t, pt).
                  Ok (put_table t (Some (pt\<lparr>to_tail := hs_tail s\<rparr>)) a, hs_list s)))
           else sort_loop cmpfcn h (insize * 2) (hs_list s) a))"

definition HASH_SRT :: "(nat \<Rightarrow> nat \<Rightarrow> int) \<Rightarrow> arena \<Rightarrow> nat option \<Rightarrow> (arena \<times> nat option) outcome option" where
  "HASH_SRT cmpfcn a head =
     (case head of None \<Rightarrow> Some (Ok (a, None))
      | Some h \<Rightarrow>
          then_run (Some (table_at a h)) (\<lambda>_.
          then_run (sort_loop cmpfcn h 1 head a) (\<lambda>(a, list).
          then_run (HASH_FSCK_at a list) (\<lambda>a. Some (Ok (a, list))))))"

section \<open>Paths\<close>

text \<open>\<open>path N p ks r\<close>: from \<open>p\<close> the links \<open>N\<close> lead through \<open>ks\<close> to \<open>r\<close>.\<close>

fun path :: "links \<Rightarrow> nat option \<Rightarrow> nat list \<Rightarrow> nat option \<Rightarrow> bool" where
  "path N p [] r \<longleftrightarrow> p = r"
| "path N p (i # ks) r \<longleftrightarrow> p = Some i \<and> path N (N i) ks r"

lemma path_cong: "(\<And>i. i \<in> set ks \<Longrightarrow> N' i = N i) \<Longrightarrow> path N' p ks r \<longleftrightarrow> path N p ks r"
  by (induction ks arbitrary: p) auto

lemma path_append: "path N p (xs @ ys) r \<longleftrightarrow> (\<exists>q. path N p xs q \<and> path N q ys r)"
  by (induction xs arbitrary: p) auto

lemma dll_path: "dll P N pr p ks e r \<Longrightarrow> path N p ks r"
  by (induction ks arbitrary: pr p) auto

text \<open>Changing where a list ends.\<close>

lemma dll_retarget:
  "dll P N pr p ks e r \<Longrightarrow> e = Some t \<Longrightarrow> ks \<noteq> [] \<Longrightarrow> distinct ks \<Longrightarrow> dll P (N(t := r')) pr p ks e r'"
proof (induction ks arbitrary: pr p)
  case (Cons i ks)
  show ?case
  proof (cases "ks = []")
    case True
    then show ?thesis using Cons.prems by simp
  next
    case False
    have rest: "dll P N (Some i) (N i) ks e r" using Cons.prems(1) by simp
    then have "t \<in> set ks" using dll_last [OF rest] False Cons.prems(2) by simp
    then show ?thesis using Cons.IH [OF rest Cons.prems(2) False] Cons.prems by auto
  qed
qed simp

text \<open>The first loop finds the second run.\<close>

lemma step_over_Ok:
  assumes "path (ar_next a) p ks None" "ks \<noteq> []" "\<And>i. i \<in> set ks \<Longrightarrow> ar_live a i"
  shows "\<exists>q. step_over (Suc k) a psize p = Ok (psize + of_nat (length (take (Suc k) ks)), q) \<and>
    path (ar_next a) p (take (Suc k) ks) q \<and> path (ar_next a) q (drop (Suc k) ks) None"
  using assms
proof (induction k arbitrary: p ks psize)
  case 0
  then show ?case by (cases ks) (auto simp: element_def Let_def)
next
  case (Suc k)
  obtain i ks' where ks: "ks = i # ks'" "p = Some i" "path (ar_next a) (ar_next a i) ks' None"
    using Suc.prems(1,2) by (cases ks) auto
  have live: "ar_live a i" using Suc.prems(3) ks by simp
  show ?case
  proof (cases "ks' = []")
    case True
    then show ?thesis using ks live by (simp add: element_def)
  next
    case False
    then have "ar_next a i \<noteq> None" using ks(3) by (cases ks') auto
    moreover obtain q where "step_over (Suc k) a (psize + 1) (ar_next a i) =
        Ok (psize + 1 + of_nat (length (take (Suc k) ks')), q)"
      "path (ar_next a) (ar_next a i) (take (Suc k) ks') q" "path (ar_next a) q (drop (Suc k) ks') None"
      using Suc.IH [OF ks(3) False, of "psize + 1"] Suc.prems(3) ks(1) by (force simp del: step_over.simps)
    ultimately show ?thesis
      using ks live by (subst step_over.simps) (auto simp: element_def Let_def add.assoc)
  qed
qed

section \<open>Merging two runs\<close>

text \<open>
  The entries \<open>ds\<close> have been merged, those of the first run left are \<open>ps\<close>, and \<open>js\<close> are the second run and
  what follows it. The rest of the heap is that of \<open>orig\<close>.
\<close>

definition merging_rep ::
    "arena \<Rightarrow> nat list \<Rightarrow> nat list \<Rightarrow> nat list \<Rightarrow> arena \<Rightarrow> nat option \<Rightarrow> nat option \<Rightarrow> nat option \<Rightarrow> nat option \<Rightarrow> bool" where
  "merging_rep orig ds ps js a list tail p q \<longleftrightarrow>
     (\<exists>P N. a = orig\<lparr>ar_prev := P, ar_next := N\<rparr> \<and> (\<exists>r. dll P N None list ds tail r) \<and>
        (\<exists>r. path N p ps r) \<and> path N q js None) \<and>
     distinct (ds @ ps @ js) \<and> (\<forall>i \<in> set (ds @ ps @ js). ar_live orig i)"

abbreviation represents :: "arena \<Rightarrow> nat list \<Rightarrow> nat list \<Rightarrow> nat list \<Rightarrow> merging \<Rightarrow> bool" where
  "represents orig ds ps js s \<equiv>
     merging_rep orig ds ps js (hs_arena s) (hs_list s) (hs_tail s) (hs_p s) (hs_q s)"

lemma merging_repE:
  assumes "merging_rep orig ds ps js a list tail p q"
  obtains P N r r' where "a = orig\<lparr>ar_prev := P, ar_next := N\<rparr>" "dll P N None list ds tail r"
    "path N p ps r'" "path N q js None" "distinct (ds @ ps @ js)" "\<forall>i \<in> set (ds @ ps @ js). ar_live orig i"
  using assms by (auto simp: merging_rep_def)

lemma append_merged_Ok:
  assumes a: "hs_arena s = orig\<lparr>ar_prev := P, ar_next := N\<rparr>" "dll P N None (hs_list s) ds (hs_tail s) r"
    and i: "distinct (ds @ [i])" "\<forall>j \<in> set (ds @ [i]). ar_live orig j"
  shows "\<exists>N' l. append_merged (Some i) s =
      Ok (s\<lparr>hs_arena := orig\<lparr>ar_prev := P(i := hs_tail s), ar_next := N'\<rparr>, hs_list := l, hs_tail := Some i\<rparr>) \<and>
    (\<forall>j. j \<notin> set ds \<longrightarrow> N' j = N j) \<and> dll (P(i := hs_tail s)) N' None l (ds @ [i]) (Some i) (N i)"
proof (cases "ds = []")
  case True
  then have "hs_tail s = None" using a(2) by simp
  then show ?thesis using True a(1) i
    by (intro exI [of _ N] exI [of _ "Some i"]) (auto simp: append_merged_def element_def arena_order)
next
  case False
  then have t: "hs_tail s = Some (last ds)" "last ds \<in> set ds" using dll_last [OF a(2)] by auto
  let ?N = "N(last ds := Some i)"
  have "dll P ?N None (hs_list s) ds (hs_tail s) (Some i)"
    using dll_retarget [OF a(2) t(1) False] i(1) by simp
  then have "dll (P(i := hs_tail s)) ?N None (hs_list s) (ds @ [i]) (Some i) (N i)"
    using i(1) t by (auto simp: dll_append)
  moreover have "append_merged (Some i) s =
      Ok (s\<lparr>hs_arena := orig\<lparr>ar_prev := P(i := hs_tail s), ar_next := ?N\<rparr>, hs_list := hs_list s, hs_tail := Some i\<rparr>)"
    using a(1) i(2) t by (simp add: append_merged_def element_def arena_order)
  ultimately show ?thesis using t(2) by (intro exI [of _ ?N] exI [of _ "hs_list s"]) auto
qed

lemma merge_p:
  assumes "represents orig ds (i # ps) js s"
  shows "\<exists>s'. and_then (take_p s) (\<lambda>(e, s). append_merged e s) = Ok s' \<and> represents orig (ds @ [i]) ps js s' \<and>
    hs_psize s' = hs_psize s - 1 \<and> hs_qsize s' = hs_qsize s"
proof -
  obtain P N r r' where rep: "hs_arena s = orig\<lparr>ar_prev := P, ar_next := N\<rparr>" "dll P N None (hs_list s) ds (hs_tail s) r"
    "path N (hs_p s) (i # ps) r'" "path N (hs_q s) js None" "distinct (ds @ (i # ps) @ js)"
    "\<forall>i \<in> set (ds @ (i # ps) @ js). ar_live orig i"
    by (rule merging_repE [OF assms])
  let ?s = "s\<lparr>hs_p := N i, hs_psize := hs_psize s - 1\<rparr>"
  have "take_p s = Ok (Some i, ?s)" using rep(1,3,6) by (simp add: take_p_def element_def)
  moreover obtain N' l where app: "append_merged (Some i) ?s =
      Ok (?s\<lparr>hs_arena := orig\<lparr>ar_prev := P(i := hs_tail s), ar_next := N'\<rparr>, hs_list := l, hs_tail := Some i\<rparr>)"
    "\<forall>j. j \<notin> set ds \<longrightarrow> N' j = N j" "dll (P(i := hs_tail s)) N' None l (ds @ [i]) (Some i) (N i)"
    using append_merged_Ok [where s = ?s and orig = orig and P = P and N = N and ds = ds and r = r and i = i] rep by auto
  moreover have "path N' (N i) ps r' \<longleftrightarrow> path N (N i) ps r'" "path N' (hs_q s) js None \<longleftrightarrow> path N (hs_q s) js None"
    using app(2) rep(5) by (auto intro!: path_cong)
  ultimately show ?thesis using rep(3-6) by (auto simp: merging_rep_def)
qed

lemma merge_q:
  assumes "represents orig ds ps (j # js) s"
  shows "\<exists>s'. and_then (take_q s) (\<lambda>(e, s). append_merged e s) = Ok s' \<and> represents orig (ds @ [j]) ps js s' \<and>
    hs_psize s' = hs_psize s \<and> hs_qsize s' = hs_qsize s - 1"
proof -
  obtain P N r r' where rep: "hs_arena s = orig\<lparr>ar_prev := P, ar_next := N\<rparr>" "dll P N None (hs_list s) ds (hs_tail s) r"
    "path N (hs_p s) ps r'" "path N (hs_q s) (j # js) None" "distinct (ds @ ps @ (j # js))"
    "\<forall>i \<in> set (ds @ ps @ (j # js)). ar_live orig i"
    by (rule merging_repE [OF assms])
  let ?s = "s\<lparr>hs_q := N j, hs_qsize := hs_qsize s - 1\<rparr>"
  have "take_q s = Ok (Some j, ?s)" using rep(1,4,6) by (simp add: take_q_def element_def)
  moreover obtain N' l where app: "append_merged (Some j) ?s =
      Ok (?s\<lparr>hs_arena := orig\<lparr>ar_prev := P(j := hs_tail s), ar_next := N'\<rparr>, hs_list := l, hs_tail := Some j\<rparr>)"
    "\<forall>i. i \<notin> set ds \<longrightarrow> N' i = N i" "dll (P(j := hs_tail s)) N' None l (ds @ [j]) (Some j) (N j)"
    using append_merged_Ok [where s = ?s and orig = orig and P = P and N = N and ds = ds and r = r and i = j] rep by auto
  moreover have "path N' (hs_p s) ps r' \<longleftrightarrow> path N (hs_p s) ps r'" "path N' (N j) js None \<longleftrightarrow> path N (N j) js None"
    using app(2) rep(5) by (auto intro!: path_cong)
  ultimately show ?thesis using rep(3-6) by (auto simp: merging_rep_def)
qed

lemma merging_rep_no_p: "merging_rep orig ds [] js a list tail p q \<Longrightarrow> merging_rep orig ds [] js a list tail p' q"
  by (simp add: merging_rep_def)

lemma represents_first:
  "represents orig ds (i # ps) js s \<Longrightarrow> element (hs_arena s) (hs_p s) = Ok i"
  "represents orig ds ps (j # js) s \<Longrightarrow> element (hs_arena s) (hs_q s) = Ok j"
  "represents orig ds ps js s \<Longrightarrow> hs_q s = None \<longleftrightarrow> js = []"
  by (cases js; auto simp: merging_rep_def element_def)+

text \<open>Which run a step takes its entry from.\<close>

lemma merge_step_cases:
  assumes "represents orig ds ps js s" "unat (hs_psize s) = length ps"
  shows "merges_on s \<longleftrightarrow> ps \<noteq> [] \<or> take (unat (hs_qsize s)) js \<noteq> []"
    and "ps = [] \<Longrightarrow> merge_step cmpfcn s = and_then (take_q s) (\<lambda>(e, s). append_merged e s)"
    and "ps \<noteq> [] \<Longrightarrow> take (unat (hs_qsize s)) js = [] \<Longrightarrow>
      merge_step cmpfcn s = and_then (take_p s) (\<lambda>(e, s). append_merged e s)"
    and "ps = i # ps' \<Longrightarrow> js = j # js' \<Longrightarrow> hs_qsize s \<noteq> 0 \<Longrightarrow>
      merge_step cmpfcn s = (if cmpfcn i j \<le> 0 then and_then (take_p s) (\<lambda>(e, s). append_merged e s)
        else and_then (take_q s) (\<lambda>(e, s). append_merged e s))"
proof -
  have psize: "hs_psize s = 0 \<longleftrightarrow> ps = []" using assms(2) by (metis length_0_conv unat_eq_zero)
  have qsize: "hs_qsize s = 0 \<longleftrightarrow> unat (hs_qsize s) = 0" by (simp add: unat_eq_zero)
  note q = represents_first(3) [OF assms(1)]
  show "merges_on s \<longleftrightarrow> ps \<noteq> [] \<or> take (unat (hs_qsize s)) js \<noteq> []"
    by (auto simp: merges_on_def psize qsize q)
  show "merge_step cmpfcn s = and_then (take_q s) (\<lambda>(e, s). append_merged e s)" if "ps = []"
    using that by (simp add: merge_step_def next_merged_def psize)
  show "merge_step cmpfcn s = and_then (take_p s) (\<lambda>(e, s). append_merged e s)"
    if "ps \<noteq> []" "take (unat (hs_qsize s)) js = []"
    using that by (auto simp: merge_step_def next_merged_def psize qsize q)
  show "merge_step cmpfcn s = (if cmpfcn i j \<le> 0 then and_then (take_p s) (\<lambda>(e, s). append_merged e s)
        else and_then (take_q s) (\<lambda>(e, s). append_merged e s))"
    if "ps = i # ps'" "js = j # js'" "hs_qsize s \<noteq> 0"
    using that assms(1) represents_first [of orig ds] psize q
    by (auto simp: merge_step_def next_merged_def)
qed

abbreviation compares :: "(nat \<Rightarrow> nat \<Rightarrow> int) \<Rightarrow> nat \<Rightarrow> nat \<Rightarrow> bool" where
  "compares cmpfcn \<equiv> \<lambda>i j. cmpfcn i j \<le> 0"

lemma merge_loop_step:
  assumes "merges_on s" "merge_step cmpfcn s = Ok s'"
  shows "merge_loop cmpfcn s = merge_loop cmpfcn s'"
  using assms by (simp add: merge_loop.simps [of cmpfcn s])

lemma merge_loop_Ok:
  assumes "represents orig ds ps js s" "unat (hs_psize s) = length ps"
  shows "\<exists>s'. merge_loop cmpfcn s = Ok s' \<and>
    represents orig (ds @ merge_runs (compares cmpfcn) ps (take (unat (hs_qsize s)) js)) []
      (drop (unat (hs_qsize s)) js) s'"
  using assms
proof (induction "length ps + unat (hs_qsize s)" arbitrary: ds ps js s rule: less_induct)
  case less
  note on = merge_step_cases(1) [OF less.prems]
  note cases = merge_step_cases(2-4) [OF less.prems, where cmpfcn = cmpfcn]
  let ?goal = "\<lambda>ds ps js s. \<exists>s'. merge_loop cmpfcn s = Ok s' \<and>
    represents orig (ds @ merge_runs (compares cmpfcn) ps (take (unat (hs_qsize s)) js)) []
      (drop (unat (hs_qsize s)) js) s'"
  have first: "\<exists>s'. merge_loop cmpfcn s = merge_loop cmpfcn s' \<and> ?goal (ds @ [i]) ps' js s' \<and> hs_qsize s' = hs_qsize s"
    if ps: "ps = i # ps'" and step: "merge_step cmpfcn s = and_then (take_p s) (\<lambda>(e, s). append_merged e s)" for i ps'
  proof -
    obtain s' where s': "merge_step cmpfcn s = Ok s'" "represents orig (ds @ [i]) ps' js s'"
      "hs_psize s' = hs_psize s - 1" "hs_qsize s' = hs_qsize s"
      using merge_p [of orig ds i ps' js s] less.prems(1) ps step by auto
    have "hs_psize s \<noteq> 0" using less.prems(2) ps by auto
    then have "unat (hs_psize s') = length ps'" using s'(3) less.prems(2) ps unat_pred by simp
    then have "?goal (ds @ [i]) ps' js s'" using s' ps by (intro less.hyps) auto
    then show ?thesis using merge_loop_step [OF _ s'(1)] on ps s'(4) by auto
  qed
  have second: "\<exists>s'. merge_loop cmpfcn s = merge_loop cmpfcn s' \<and> ?goal (ds @ [j]) ps js' s' \<and>
      unat (hs_qsize s) = Suc (unat (hs_qsize s'))"
    if js: "js = j # js'" and q: "hs_qsize s \<noteq> 0"
      and step: "merge_step cmpfcn s = and_then (take_q s) (\<lambda>(e, s). append_merged e s)" for j js'
  proof -
    obtain s' where s': "merge_step cmpfcn s = Ok s'" "represents orig (ds @ [j]) ps js' s'"
      "hs_psize s' = hs_psize s" "hs_qsize s' = hs_qsize s - 1"
      using merge_q [of orig ds ps j js' s] less.prems(1) js step by auto
    have size: "unat (hs_qsize s) = Suc (unat (hs_qsize s'))"
      using unat_pred [OF q] s'(4) q by (simp add: unat_gt_0)
    then have "?goal (ds @ [j]) ps js' s'" using s' less.prems(2) by (intro less.hyps) auto
    moreover have "merges_on s" using on js q by (simp add: unat_gt_0)
    ultimately show ?thesis using merge_loop_step [OF _ s'(1)] size by auto
  qed
  show ?case
  proof (cases "take (unat (hs_qsize s)) js")
    case Nil
    show ?thesis
    proof (cases ps)
      case Nil': Nil
      then have "merge_loop cmpfcn s = Ok s" using on Nil by (subst merge_loop.simps) simp
      moreover have "drop (unat (hs_qsize s)) js = js" using Nil by auto
      ultimately show ?thesis using less.prems(1) Nil' by (simp add: Nil del: take_eq_Nil)
    next
      case (Cons i ps')
      have "merge_step cmpfcn s = and_then (take_p s) (\<lambda>(e, s). append_merged e s)"
        using cases(2) Nil Cons by simp
      from first [OF Cons this] Nil Cons show ?thesis by auto
    qed
  next
    case (Cons j qs)
    then obtain js' where js: "js = j # js'" by (cases js; cases "unat (hs_qsize s)") auto
    have q: "hs_qsize s \<noteq> 0" using Cons by auto
    show ?thesis
    proof (cases ps)
      case Nil
      from second [OF js q cases(1) [OF Nil]] Nil js show ?thesis by auto
    next
      case Cons': (Cons i ps')
      note step = cases(3) [OF Cons' js q]
      show ?thesis
      proof (cases "cmpfcn i j \<le> 0")
        case True
        then have "merge_step cmpfcn s = and_then (take_p s) (\<lambda>(e, s). append_merged e s)" using step by simp
        from first [OF Cons' this] True Cons Cons' show ?thesis by auto
      next
        case False
        then have "merge_step cmpfcn s = and_then (take_q s) (\<lambda>(e, s). append_merged e s)" using step by simp
        from second [OF js q this] False Cons' js show ?thesis by auto
      qed
    qed
  qed
qed

section \<open>Passes\<close>

lemma merge_pair_Ok:
  assumes rep: "represents orig ds [] js (s\<lparr>hs_q := hs_p s\<rparr>)" and "js \<noteq> []" "insize \<noteq> 0" "length js < 2 ^ 32"
  shows "\<exists>s'. merge_pair cmpfcn insize s = Ok s' \<and>
    represents orig (ds @ merge_runs (compares cmpfcn) (take (unat insize) js) (take (unat insize) (drop (unat insize) js)))
      [] (drop (unat insize) (drop (unat insize) js)) (s'\<lparr>hs_q := hs_p s'\<rparr>)"
proof -
  obtain k where k: "unat insize = Suc k" using assms(3) by (metis not0_implies_Suc unat_eq_zero)
  obtain P N r r' where p: "hs_arena s = orig\<lparr>ar_prev := P, ar_next := N\<rparr>" "dll P N None (hs_list s) ds (hs_tail s) r"
    "path N (hs_p s) js None" "distinct (ds @ js)" "\<forall>i \<in> set (ds @ js). ar_live orig i"
    using rep by (auto simp: merging_rep_def)
  obtain q where q: "step_over (unat insize) (hs_arena s) 0 (hs_p s) = Ok (of_nat (length (take (unat insize) js)), q)"
    "path N (hs_p s) (take (unat insize) js) q" "path N q (drop (unat insize) js) None"
    using step_over_Ok [of "hs_arena s" "hs_p s" js k 0] p assms(2) k by auto
  let ?s = "s\<lparr>hs_psize := of_nat (length (take (unat insize) js)), hs_q := q, hs_qsize := insize\<rparr>"
  have split: "set (take (unat insize) js) \<union> set (drop (unat insize) js) = set js"
    by (metis append_take_drop_id set_append)
  have "distinct (ds @ take (unat insize) js @ drop (unat insize) js)" using p(4) by simp
  then have "represents orig ds (take (unat insize) js) (drop (unat insize) js) ?s"
    using p(1,2,5) q(2,3) split by (auto simp: merging_rep_def)
  moreover have "unat (hs_psize ?s) = length (take (unat insize) js)"
    using assms(4) by (simp add: unat_of_nat take_bit_nat_eq_self min_def)
  ultimately obtain s' where s': "merge_loop cmpfcn ?s = Ok s'"
    "represents orig (ds @ merge_runs (compares cmpfcn) (take (unat insize) js) (take (unat insize) (drop (unat insize) js)))
      [] (drop (unat insize) (drop (unat insize) js)) s'"
    using merge_loop_Ok [of orig ds "take (unat insize) js" "drop (unat insize) js" ?s cmpfcn] by auto
  have "merge_pair cmpfcn insize s = Ok (s'\<lparr>hs_p := hs_q s'\<rparr>)"
    using q(1) s'(1) by (simp add: merge_pair_def)
  moreover note merging_rep_no_p [OF s'(2), of "hs_q s'"]
  ultimately show ?thesis by auto
qed

text \<open>The number of merges in a round.\<close>

function merges_in :: "nat \<Rightarrow> nat \<Rightarrow> nat" where
  "merges_in n len = (if len = 0 \<or> n = 0 then 0 else Suc (merges_in n (len - 2 * n)))"
  by pat_completeness auto
termination by (relation "measure snd") auto

declare merges_in.simps [simp del]

lemma merges_in_bounds:
  "merges_in n len \<le> len"
  "0 < n \<Longrightarrow> merges_in n len = 0 \<longleftrightarrow> len = 0"
  "0 < n \<Longrightarrow> merges_in n len \<le> 1 \<longleftrightarrow> len \<le> 2 * n"
proof -
  show "merges_in n len \<le> len"
  proof (induction n len rule: merges_in.induct)
    case (1 n len)
    then show ?case by (subst merges_in.simps) fastforce
  qed
  show none: "merges_in n len = 0 \<longleftrightarrow> len = 0" if "0 < n" for len
    using that by (subst merges_in.simps) simp
  show "merges_in n len \<le> 1 \<longleftrightarrow> len \<le> 2 * n" if "0 < n"
    using that none [OF that, of "len - 2 * n"] by (subst merges_in.simps) auto
qed

lemma sort_pass_Ok:
  assumes "represents orig ds [] js (s\<lparr>hs_q := hs_p s\<rparr>)" "insize \<noteq> 0" "length js < 2 ^ 32"
  shows "\<exists>s'. sort_pass cmpfcn insize nmerges s = Some (Ok (nmerges + of_nat (merges_in (unat insize) (length js)), s')) \<and>
    represents orig (ds @ merge_round (compares cmpfcn) (unat insize) js) [] [] (s'\<lparr>hs_q := hs_p s'\<rparr>)"
  using assms
proof (induction "length js" arbitrary: ds js s nmerges rule: less_induct)
  case less
  have p: "hs_p s = None \<longleftrightarrow> js = []" using represents_first(3) [OF less.prems(1)] by simp
  show ?case
  proof (cases "js = []")
    case True
    then show ?thesis using less.prems(1) p by (subst sort_pass.simps) (auto simp: merges_in.simps)
  next
    case False
    let ?n = "unat insize"
    let ?rest = "drop ?n (drop ?n js)"
    let ?merged = "merge_runs (compares cmpfcn) (take ?n js) (take ?n (drop ?n js))"
    have n: "0 < ?n" using less.prems(2) by (simp add: unat_gt_0)
    obtain s' where s': "merge_pair cmpfcn insize s = Ok s'"
      "represents orig (ds @ ?merged) [] ?rest (s'\<lparr>hs_q := hs_p s'\<rparr>)"
      using merge_pair_Ok [OF less.prems(1) False less.prems(2,3)] by blast
    have "length ?rest < length js" "length ?rest < 2 ^ 32" using n False less.prems(3) by auto
    then obtain s'' where s'': "sort_pass cmpfcn insize (nmerges + 1) s' =
        Some (Ok (nmerges + 1 + of_nat (merges_in ?n (length ?rest)), s''))"
      "represents orig ((ds @ ?merged) @ merge_round (compares cmpfcn) ?n ?rest) [] [] (s''\<lparr>hs_q := hs_p s''\<rparr>)"
      using less.hyps [OF _ s'(2) less.prems(2), of "nmerges + 1"] by blast
    have "merges_in ?n (length js) = Suc (merges_in ?n (length ?rest))"
      using n False by (subst merges_in.simps) (simp add: mult_2)
    moreover have "merge_round (compares cmpfcn) ?n js = ?merged @ merge_round (compares cmpfcn) ?n ?rest"
      using n False by (subst merge_round.simps) simp
    ultimately show ?thesis
      using p False s'(1) s'' by (subst sort_pass.simps) (auto simp: add.assoc)
  qed
qed

text \<open>Between the passes, the entries are a list that is linked both ways.\<close>

definition order_rep :: "arena \<Rightarrow> nat list \<Rightarrow> arena \<Rightarrow> nat option \<Rightarrow> nat option \<Rightarrow> bool" where
  "order_rep orig ks a list tail \<longleftrightarrow>
     (\<exists>P N. a = orig\<lparr>ar_prev := P, ar_next := N\<rparr> \<and> dll P N None list ks tail None) \<and>
     distinct ks \<and> (\<forall>i \<in> set ks. ar_live orig i)"

lemma end_pass_Ok:
  assumes "merging_rep orig ds [] [] (hs_arena s) (hs_list s) (hs_tail s) p q" "ds \<noteq> []"
  shows "\<exists>a. end_pass s = Ok a \<and> order_rep orig ds a (hs_list s) (hs_tail s)"
proof -
  obtain P N r where rep: "hs_arena s = orig\<lparr>ar_prev := P, ar_next := N\<rparr>" "dll P N None (hs_list s) ds (hs_tail s) r"
    "distinct ds" "\<forall>i \<in> set ds. ar_live orig i"
    using assms(1) by (auto simp: merging_rep_def)
  have t: "hs_tail s = Some (last ds)" using dll_last [OF rep(2)] assms(2) by simp
  have "dll P (N(last ds := None)) None (hs_list s) ds (hs_tail s) None"
    by (rule dll_retarget [OF rep(2) t assms(2) rep(3)])
  moreover have "end_pass s = Ok (orig\<lparr>ar_prev := P, ar_next := N(last ds := None)\<rparr>)"
    using t rep(1,4) assms(2) by (simp add: end_pass_def element_def)
  ultimately show ?thesis using rep(3,4) by (auto simp: order_rep_def)
qed

lemma whole_pass_Ok:
  assumes "order_rep orig ks a list tail" "ks \<noteq> []" "insize \<noteq> 0" "length ks < 2 ^ 32"
  shows "\<exists>nmerges s a'. whole_pass cmpfcn insize list a = Some (Ok (nmerges, s, a')) \<and>
    order_rep orig (merge_round (compares cmpfcn) (unat insize) ks) a' (hs_list s) (hs_tail s) \<and>
    (nmerges \<le> 1 \<longleftrightarrow> length ks \<le> 2 * unat insize)"
proof -
  obtain P N where rep: "a = orig\<lparr>ar_prev := P, ar_next := N\<rparr>" "dll P N None list ks tail None"
    "distinct ks" "\<forall>i \<in> set ks. ar_live orig i"
    using assms(1) by (auto simp: order_rep_def)
  have "represents orig [] [] ks ((pass_start a list)\<lparr>hs_q := hs_p (pass_start a list)\<rparr>)"
    using rep dll_path [OF rep(2)] by (auto simp: merging_rep_def pass_start_def)
  from sort_pass_Ok [OF this assms(3,4), of cmpfcn 0]
  obtain s where s: "sort_pass cmpfcn insize 0 (pass_start a list) =
      Some (Ok (of_nat (merges_in (unat insize) (length ks)), s))"
    "merging_rep orig (merge_round (compares cmpfcn) (unat insize) ks) [] [] (hs_arena s) (hs_list s) (hs_tail s)
      (hs_p s) (hs_p s)" by auto
  have "merge_round (compares cmpfcn) (unat insize) ks \<noteq> []"
    using assms(2) by (metis length_0_conv length_merge_round)
  then obtain a' where a': "end_pass s = Ok a'"
    "order_rep orig (merge_round (compares cmpfcn) (unat insize) ks) a' (hs_list s) (hs_tail s)"
    using end_pass_Ok [OF s(2)] by auto
  have n: "0 < unat insize" using assms(3) by (simp add: unat_gt_0)
  have "unat (of_nat (merges_in (unat insize) (length ks)) :: u32) = merges_in (unat insize) (length ks)"
    using merges_in_bounds(1) [of "unat insize" "length ks"] assms(4)
    by (simp add: unat_of_nat take_bit_nat_eq_self)
  then have "(of_nat (merges_in (unat insize) (length ks)) :: u32) \<le> 1 \<longleftrightarrow> length ks \<le> 2 * unat insize"
    using merges_in_bounds(3) [OF n] by (simp add: word_le_nat_alt)
  then show ?thesis using s(1) a' by (simp add: whole_pass_def)
qed

section \<open>The whole sort\<close>

lemma table_at_order:
  "order_rep orig ks a list tail \<Longrightarrow> table_at a h = table_at orig h"
  by (auto simp: order_rep_def table_at_def element_def)

lemma sort_loop_Ok:
  assumes "order_rep orig ks a list tail" "ks \<noteq> []" "insize \<noteq> 0" "length ks < 2 ^ 32" "table_at orig h = Ok (t, pt)"
  shows "\<exists>a' list' tail'. sort_loop cmpfcn h insize list a =
      Some (Ok (put_table t (Some (pt\<lparr>to_tail := tail'\<rparr>)) a', list')) \<and>
    order_rep orig (merge_rounds (compares cmpfcn) (unat insize) ks) a' list' tail'"
  using assms
proof (induction "compares cmpfcn" "unat insize" ks arbitrary: a list tail insize rule: merge_rounds.induct)
  case (1 ks)
  obtain nmerges s a' where s: "whole_pass cmpfcn insize list a = Some (Ok (nmerges, s, a'))"
    "order_rep orig (merge_round (compares cmpfcn) (unat insize) ks) a' (hs_list s) (hs_tail s)"
    "nmerges \<le> 1 \<longleftrightarrow> length ks \<le> 2 * unat insize"
    using whole_pass_Ok [OF "1.prems"(1-4), of cmpfcn] by blast
  have n: "unat insize \<noteq> 0" using "1.prems"(3) by (simp add: unat_eq_zero)
  show ?case
  proof (cases "length ks \<le> 2 * unat insize")
    case True
    then have "merge_rounds (compares cmpfcn) (unat insize) ks = merge_round (compares cmpfcn) (unat insize) ks"
      by (subst merge_rounds.simps) simp
    moreover have "sort_loop cmpfcn h insize list a =
        Some (Ok (put_table t (Some (pt\<lparr>to_tail := hs_tail s\<rparr>)) a', hs_list s))"
      using True s(1,3) table_at_order [OF s(2), of h] "1.prems"(5) by (subst sort_loop.simps) simp
    ultimately show ?thesis using s(2) by auto
  next
    case False
    let ?ks = "merge_round (compares cmpfcn) (unat insize) ks"
    have double: "unat (insize * 2) = 2 * unat insize"
      using False "1.prems"(4) by (simp add: unat_word_ariths)
    then have "insize * 2 \<noteq> 0" using n by (metis mult_eq_0_iff unat_0 zero_neq_numeral)
    moreover have "?ks \<noteq> []" using "1.prems"(2) by (metis length_0_conv length_merge_round)
    ultimately obtain b list' tail' where b: "sort_loop cmpfcn h (insize * 2) (hs_list s) a' =
        Some (Ok (put_table t (Some (pt\<lparr>to_tail := tail'\<rparr>)) b, list'))"
      "order_rep orig (merge_rounds (compares cmpfcn) (unat (insize * 2)) ?ks) b list' tail'"
      using "1.hyps" [OF refl _ double [symmetric] s(2)] False n "1.prems"(4,5) by auto
    moreover have "merge_rounds (compares cmpfcn) (unat insize) ks =
        merge_rounds (compares cmpfcn) (unat (insize * 2)) ?ks"
      using False n double by (subst merge_rounds.simps) (simp add: Let_def)
    moreover have "sort_loop cmpfcn h insize list a = sort_loop cmpfcn h (insize * 2) (hs_list s) a'"
      using False s(1,3) by (subst sort_loop.simps) simp
    ultimately show ?thesis by auto
  qed
qed

definition sorted_items :: "(nat \<Rightarrow> nat \<Rightarrow> int) \<Rightarrow> hash option \<Rightarrow> hash option" where
  "sorted_items cmpfcn =
     map_option (\<lambda>h. h\<lparr>h_items := merge_rounds (\<lambda>x y. cmpfcn (it_id x) (it_id y) \<le> 0) 1 (h_items h)\<rparr>)"

lemma sorted_items_ok: "hash_ok hs \<Longrightarrow> hash_ok (sorted_items cmpfcn hs)"
proof (cases hs)
  case (Some h)
  let ?its = "merge_rounds (\<lambda>x y. cmpfcn (it_id x) (it_id y) \<le> 0) 1 (h_items h)"
  have same: "mset ?its = mset (h_items h)" by simp
  then have "set ?its = set (h_items h)" by (metis set_mset_mset)
  moreover assume "hash_ok hs"
  ultimately show ?thesis using Some same by (auto simp: sorted_items_def hash_ok_def)
qed (simp add: sorted_items_def)

lemma HASH_SRT_refines:
  assumes "hash_rep a head hs" "hash_ok hs" "length (items hs) < 2 ^ 32"
  shows "heap_result (ar_live a) (HASH_SRT cmpfcn a head) (Ok (sorted_items cmpfcn hs))"
proof (cases hs)
  case None
  then show ?thesis using assms(1) by (simp add: hash_rep_def HASH_SRT_def sorted_items_def heap_result_def)
next
  case (Some h)
  obtain t pt x where rep: "head = Some x" "table_at a x = Ok (t, pt)"
    "\<And>it. it \<in> set (h_items h) \<Longrightarrow> node_rep a t it" "distinct (map it_id (h_items h))"
    "dll (ar_prev a) (ar_next a) None head (map it_id (h_items h)) (to_tail pt) None"
    "table_rep (ar_hh_prev a) (ar_hh_next a) pt (h_tbl h)"
    by (rule hash_repE [OF assms(1,2) [unfolded Some]]) (rule that)
  let ?ks = "map it_id (h_items h)"
  let ?its = "merge_rounds (\<lambda>x y. cmpfcn (it_id x) (it_id y) \<le> 0) 1 (h_items h)"
  have "a = a\<lparr>ar_prev := ar_prev a, ar_next := ar_next a\<rparr>" by simp
  moreover have "\<forall>i \<in> set ?ks. ar_live a i" using rep(3) by (auto simp: node_rep_def)
  ultimately have "order_rep a ?ks a head (to_tail pt)" using rep(4,5) unfolding order_rep_def by blast
  moreover have "?ks \<noteq> []" "length ?ks < 2 ^ 32"
    using assms(2,3) Some by (auto simp: hash_ok_def items_def)
  ultimately obtain a' list' tail' where sort: "sort_loop cmpfcn x 1 head a =
      Some (Ok (put_table t (Some (pt\<lparr>to_tail := tail'\<rparr>)) a', list'))"
    "order_rep a (merge_rounds (compares cmpfcn) 1 ?ks) a' list' tail'"
    using sort_loop_Ok [of a ?ks a head "to_tail pt" 1 x t pt cmpfcn] rep(2) by auto
  let ?a = "put_table t (Some (pt\<lparr>to_tail := tail'\<rparr>)) a'"
  have ids: "merge_rounds (compares cmpfcn) 1 ?ks = map it_id ?its" by (rule merge_rounds_map [symmetric])
  have its: "set ?its = set (h_items h)" by (metis mset_merge_rounds set_mset_mset)
  obtain P N where a': "a' = a\<lparr>ar_prev := P, ar_next := N\<rparr>" "dll P N None list' (map it_id ?its) tail' None"
    "distinct (map it_id ?its)"
    using sort(2) unfolding ids by (auto simp: order_rep_def)
  have "hash_rep ?a list' (sorted_items cmpfcn hs)"
    using a' rep(3,6) its Some
    by (auto simp: hash_rep_def sorted_items_def node_rep_def table_rep_def intro!: exI [of _ t])
  moreover from this have "HASH_FSCK_at ?a list' = Some (Ok ?a)"
    by (rule HASH_FSCK_at_Ok [OF _ sorted_items_ok [OF assms(2)]])
  ultimately show ?thesis
    using rep(1,2) sort(1) a'(1) by (simp add: HASH_SRT_def heap_result_def)
qed

text \<open>What the order of the result is, with \<open>order_by\<close> the comparison on items.\<close>

definition order_by :: "(nat \<Rightarrow> nat \<Rightarrow> int) \<Rightarrow> item \<Rightarrow> item \<Rightarrow> bool" where
  "order_by cmpfcn x y \<longleftrightarrow> cmpfcn (it_id x) (it_id y) \<le> 0"

lemma items_sorted_items: "items (sorted_items cmpfcn hs) = merge_rounds (order_by cmpfcn) 1 (items hs)"
proof -
  have "order_by cmpfcn = (\<lambda>x y. cmpfcn (it_id x) (it_id y) \<le> 0)" by (simp add: order_by_def fun_eq_iff)
  then show ?thesis by (cases hs) (auto simp: items_def sorted_items_def)
qed

lemma find_sorted_items: "HASH_FIND_PTR (sorted_items cmpfcn hs) k = HASH_FIND_PTR hs k"
  by (cases hs) (simp_all add: HASH_FIND_PTR_def sorted_items_def Let_def cong: if_cong)

section \<open>Properties\<close>

text \<open>C21: Sorting the entries of a hash table ends for every comparison function, follows no dangling or null
  pointer, passes the check of \<open>HASH_FSCK\<close>, and leaves the same entries, found under the same keys; where the comparison
  is a total preorder on them, the application order is sorted by it, and entries that compare equal keep their order.
\<close>

theorem sort_relinks_in_order:
  assumes "hash_rep a head hs" "hash_ok hs" "length (items hs) < 2 ^ 32"
  shows "\<exists>a' head' hs'. HASH_SRT cmpfcn a head = Some (Ok (a', head')) \<and>
    hash_rep a' head' hs' \<and> hash_ok hs' \<and> ar_live a' = ar_live a \<and>
    mset (items hs') = mset (items hs) \<and> (\<forall>k. HASH_FIND_PTR hs' k = HASH_FIND_PTR hs k) \<and>
    (preorder_on (order_by cmpfcn) (set (items hs)) \<longrightarrow>
       sorted_wrt (order_by cmpfcn) (items hs') \<and>
       (\<forall>P. (\<forall>x \<in> set (items hs). \<forall>y \<in> set (items hs). P x \<longrightarrow> P y \<longrightarrow> order_by cmpfcn x y) \<longrightarrow>
          filter P (items hs') = filter P (items hs)))"
proof -
  let ?hs = "sorted_items cmpfcn hs"
  obtain a' head' where *: "HASH_SRT cmpfcn a head = Some (Ok (a', head'))" "hash_rep a' head' ?hs" "ar_live a' = ar_live a"
    using HASH_SRT_refines [OF assms, of cmpfcn]
    by (auto simp: heap_result_def split: option.splits outcome.splits)
  have "sorted_wrt (order_by cmpfcn) (items ?hs)" if "preorder_on (order_by cmpfcn) (set (items hs))"
    unfolding items_sorted_items by (rule sorted_merge_rounds [OF that _ runs_one]) simp
  moreover have "filter P (items ?hs) = filter P (items hs)"
    if "preorder_on (order_by cmpfcn) (set (items hs))"
      "\<forall>x \<in> set (items hs). \<forall>y \<in> set (items hs). P x \<longrightarrow> P y \<longrightarrow> order_by cmpfcn x y" for P
    unfolding items_sorted_items by (rule merge_rounds_stable [OF that(1) _ runs_one]) (use that(2) in auto)
  ultimately show ?thesis
    using * sorted_items_ok [OF assms(2)] find_sorted_items
    by (intro exI [of _ a'] exI [of _ head'] exI [of _ ?hs]) (simp add: items_sorted_items)
qed

theorem sort_relinks_in_order_witness:
  "\<exists>a head a' head' hs'. hash_rep a head (same_hash 7 3) \<and>
     HASH_SRT (\<lambda>i j. int j - int i) a head = Some (Ok (a', head')) \<and> hash_rep a' head' hs' \<and>
     mset (items hs') = mset (map (same_item 7) [0, 1, 2]) \<and> sorted_wrt (\<lambda>x y. it_id y \<le> it_id x) (items hs')"
proof -
  let ?cmp = "\<lambda>i j. int j - int i"
  obtain a head where a: "hash_rep a head (same_hash 7 3)"
    using same_rep [OF megabyte_enough, of 3 7] by auto
  have ok: "hash_ok (same_hash 7 3)" using same_hash_ok [OF megabyte_enough(1), of 3 7] by simp
  have "length (items (same_hash 7 3)) < 2 ^ 32" by (simp add: same_items)
  note sort = sort_relinks_in_order [OF a ok this, of ?cmp]
  have order: "order_by ?cmp = (\<lambda>x y. it_id y \<le> it_id x)" by (auto simp: order_by_def fun_eq_iff)
  have "preorder_on (order_by ?cmp) (set (items (same_hash 7 3)))" unfolding order preorder_on_def by auto
  moreover have "items (same_hash 7 3) = map (same_item 7) [0, 1, 2]" by (simp add: same_items upt_rec numeral_2_eq_2)
  ultimately show ?thesis using a sort unfolding order by metis
qed

end
