(* ===== verification/Uthash_Inorder.thy ===== *)
theory Uthash_Inorder
  imports Uthash_Sort
begin

text \<open>
  More of \<open>src/external/uthash.h\<close> on linked handles: insertion into the application order at the place that a
  comparison gives, replacement of the entry of a key, and the macros that count the entries and drop the table.
\<close>

section \<open>Sorted insertion\<close>

text \<open>The first entry that compares greater than the new one, from \<open>iter\<close> on.\<close>

partial_function (option) HASH_AKBI_INNER_LOOP ::
    "(nat \<Rightarrow> nat \<Rightarrow> int) \<Rightarrow> nat \<Rightarrow> arena \<Rightarrow> nat \<Rightarrow> nat option outcome option" where
  "HASH_AKBI_INNER_LOOP cmpfcn i a iter =
     (if \<not> ar_live a iter then Some (Fail Undefined_Behaviour)
      else if 0 < cmpfcn iter i then Some (Ok (Some iter))
      else (case ar_next a iter of None \<Rightarrow> Some (Ok None) | Some j \<Rightarrow> HASH_AKBI_INNER_LOOP cmpfcn i a j))"

definition link_before :: "nat \<Rightarrow> nat \<Rightarrow> arena \<Rightarrow> nat \<Rightarrow> (arena \<times> nat) outcome" where
  "link_before i j a head =
     (let a = a\<lparr>ar_next := (ar_next a)(i := Some j)\<rparr>
      in and_then (element a (Some j)) (\<lambda>j.
         let a = a\<lparr>ar_prev := (ar_prev a)(i := ar_prev a j)\<rparr>
         in and_then (if ar_prev a i \<noteq> None
              then and_then (element a (ar_prev a i)) (\<lambda>q. Ok (a\<lparr>ar_next := (ar_next a)(q := Some i)\<rparr>, head))
              else Ok (a, i)) (\<lambda>(a, head).
            Ok (a\<lparr>ar_prev := (ar_prev a)(j := Some i)\<rparr>, head))))"

definition HASH_ADD_PTR_INORDER_at ::
    "memory \<Rightarrow> (nat \<Rightarrow> nat \<Rightarrow> int) \<Rightarrow> nat \<Rightarrow> u64 \<Rightarrow> arena \<Rightarrow> nat option \<Rightarrow> (arena \<times> nat option) outcome option" where
  "HASH_ADD_PTR_INORDER_at mem cmpfcn i key a head =
     then_run (Some (element a (Some i))) (\<lambda>i.
     let a = a\<lparr>ar_hashv := (ar_hashv a)(i := HASH_VALUE key)\<rparr>;
         a = a\<lparr>ar_key := (ar_key a)(i := key)\<rparr>;
         a = a\<lparr>ar_keylen := (ar_keylen a)(i := 8)\<rparr>
     in then_run (case head of
            None \<Rightarrow>
              (let a = a\<lparr>ar_next := (ar_next a)(i := None)\<rparr>;
                   a = a\<lparr>ar_prev := (ar_prev a)(i := None)\<rparr>
               in Some (and_then (HASH_MAKE_TABLE_at mem i a) (\<lambda>a. Ok (a, i))))
          | Some h \<Rightarrow>
              then_run (Some (table_at a h)) (\<lambda>(t, _).
              let a = a\<lparr>ar_tbl := (ar_tbl a)(i := Some t)\<rparr>
              in then_run (HASH_AKBI_INNER_LOOP cmpfcn i a h) (\<lambda>iter.
                 Some (case iter of
                     Some j \<Rightarrow> link_before i j a h
                   | None \<Rightarrow> and_then (HASH_APPEND_LIST h i a) (\<lambda>a. Ok (a, h)))))) (\<lambda>(a, h).
        then_run (HASH_ADD_TO_TABLE_at mem h i a) (\<lambda>a.
        then_run (HASH_FSCK_at a (Some h)) (\<lambda>a. Some (Ok (a, Some h))))))"

text \<open>The same on lists.\<close>

definition insert_in_order :: "(nat \<Rightarrow> nat \<Rightarrow> int) \<Rightarrow> item \<Rightarrow> item list \<Rightarrow> item list" where
  "insert_in_order cmpfcn it its =
     takeWhile (\<lambda>x. order_by cmpfcn x it) its @ it # dropWhile (\<lambda>x. order_by cmpfcn x it) its"

definition HASH_ADD_PTR_INORDER ::
    "memory \<Rightarrow> (nat \<Rightarrow> nat \<Rightarrow> int) \<Rightarrow> nat \<Rightarrow> u64 \<Rightarrow> hash option \<Rightarrow> hash option outcome" where
  "HASH_ADD_PTR_INORDER mem cmpfcn i key head =
     (let it = \<lparr>it_id = i, it_key = key, it_hashv = HASH_VALUE key\<rparr>
      in and_then (case head of
             None \<Rightarrow> and_then (HASH_MAKE_TABLE mem) (\<lambda>t. Ok \<lparr>h_items = [it], h_tbl = t\<rparr>)
           | Some h \<Rightarrow> Ok (h\<lparr>h_items := insert_in_order cmpfcn it (h_items h)\<rparr>)) (\<lambda>h.
         and_then (HASH_ADD_TO_TABLE mem it (h_tbl h)) (\<lambda>t.
         HASH_FSCK (Some (h\<lparr>h_tbl := t\<rparr>)))))"

lemma mset_insert_in_order: "mset (insert_in_order cmpfcn it its) = add_mset it (mset its)"
  unfolding insert_in_order_def by (metis mset_append mset.simps(2) takeWhile_dropWhile_id union_mset_add_mset_right)

lemma set_insert_in_order: "set (insert_in_order cmpfcn it its) = insert it (set its)"
  by (metis mset_insert_in_order set_mset_add_mset_insert set_mset_mset)

lemma insert_in_order_last:
  "(\<And>x. x \<in> set its \<Longrightarrow> order_by cmpfcn x it) \<Longrightarrow> insert_in_order cmpfcn it its = its @ [it]"
  by (simp add: insert_in_order_def)

lemma preorder_on_subset: "preorder_on le A \<Longrightarrow> B \<subseteq> A \<Longrightarrow> preorder_on le B"
  unfolding preorder_on_def by blast

lemma sorted_insert_in_order:
  assumes "preorder_on (order_by cmpfcn) (insert it (set its))" "sorted_wrt (order_by cmpfcn) its"
  shows "sorted_wrt (order_by cmpfcn) (insert_in_order cmpfcn it its)"
  using assms
proof (induction its)
  case Nil
  then show ?case by (simp add: insert_in_order_def)
next
  case (Cons x its)
  show ?case
  proof (cases "order_by cmpfcn x it")
    case True
    have "preorder_on (order_by cmpfcn) (insert it (set its))"
      by (rule preorder_on_subset [OF Cons.prems(1)]) auto
    then have "sorted_wrt (order_by cmpfcn) (insert_in_order cmpfcn it its)" using Cons by simp
    moreover have "insert_in_order cmpfcn it (x # its) = x # insert_in_order cmpfcn it its"
      using True by (simp add: insert_in_order_def)
    ultimately show ?thesis using True Cons.prems(2) by (auto simp: set_insert_in_order)
  next
    case False
    then have "order_by cmpfcn it x" using preorder_on_total [OF Cons.prems(1), of x it] by simp
    then have "order_by cmpfcn it y" if "y \<in> set its" for y
      using that Cons.prems(2) by (intro preorder_on_trans [OF Cons.prems(1), of it x y]) simp_all
    then show ?thesis using False Cons.prems(2) \<open>order_by cmpfcn it x\<close> by (simp add: insert_in_order_def)
  qed
qed

section \<open>What sorted insertion does to the heap\<close>

lemma AKBI_Ok:
  assumes "dll P (ar_next a) pr (Some h) (map it_id its) e None" "\<And>x. x \<in> set its \<Longrightarrow> ar_live a (it_id x)" "its \<noteq> []"
  shows "HASH_AKBI_INNER_LOOP cmpfcn (it_id it) a h =
    Some (Ok (case dropWhile (\<lambda>x. order_by cmpfcn x it) its of [] \<Rightarrow> None | y # _ \<Rightarrow> Some (it_id y)))"
  using assms
proof (induction its arbitrary: pr h)
  case (Cons x its)
  show ?case
  proof (cases "order_by cmpfcn x it")
    case True
    show ?thesis
    proof (cases its)
      case Nil
      then show ?thesis using Cons.prems True by (subst HASH_AKBI_INNER_LOOP.simps) (auto simp: order_by_def)
    next
      case (Cons y ys)
      then have "HASH_AKBI_INNER_LOOP cmpfcn (it_id it) a (it_id y) =
          Some (Ok (case dropWhile (\<lambda>x. order_by cmpfcn x it) its of [] \<Rightarrow> None | y # _ \<Rightarrow> Some (it_id y)))"
        using Cons.prems by (intro Cons.IH [where pr = "Some (it_id x)"]) auto
      then show ?thesis
        using Cons Cons.prems True by (subst HASH_AKBI_INNER_LOOP.simps) (auto simp: order_by_def)
    qed
  next
    case False
    then show ?thesis using Cons.prems by (subst HASH_AKBI_INNER_LOOP.simps) (auto simp: order_by_def)
  qed
qed simp

lemma link_before_Ok:
  assumes "dll (ar_prev a) (ar_next a) None (Some h) (map it_id (xs @ y # ys)) e None"
    and "\<And>x. x \<in> set (xs @ y # ys) \<Longrightarrow> ar_live a (it_id x)" "i \<notin> set (map it_id (xs @ y # ys))"
  shows "link_before i (it_id y) a h =
    Ok (a\<lparr>ar_prev := (ar_prev a)(i := ar_prev a (it_id y), it_id y := Some i),
          ar_next := before_next i (it_id y) (ar_prev a) (ar_next a)\<rparr>,
        if ar_prev a (it_id y) = None then i else h)"
proof -
  have prev: "ar_prev a (it_id y) = (if xs = [] then None else Some (it_id (last xs)))"
    using dll_node(1) [of "ar_prev a" "ar_next a" "Some h" "map it_id xs" "it_id y" "map it_id ys"] assms(1)
    by (simp add: last_map)
  have "ar_live a (it_id (last xs))" if "xs \<noteq> []" using that assms(2) by simp
  then show ?thesis
    using prev assms(2,3) by (auto simp: link_before_def element_def Let_def before_next_def arena_order)
qed

text \<open>Behind all others, it is the insertion of \<open>Uthash_Heap\<close>; otherwise there is a first entry that compares greater.\<close>

lemma HASH_ADD_PTR_INORDER_refines:
  assumes rep: "hash_rep a head hs" and ok: "hash_ok hs" and "limited mem"
    and new: "ar_live a i" "i \<notin> it_id ` set (items hs)"
  shows "heap_result (ar_live a) (HASH_ADD_PTR_INORDER_at mem cmpfcn i key a head)
    (HASH_ADD_PTR_INORDER mem cmpfcn i key hs)"
proof (cases hs)
  case None
  then have "head = None" using rep by (simp add: hash_rep_def)
  then have "HASH_ADD_PTR_INORDER_at mem cmpfcn i key a head = HASH_ADD_PTR_at mem i key a head"
    "HASH_ADD_PTR_INORDER mem cmpfcn i key hs = HASH_ADD_PTR mem i key hs"
    using None by (simp_all add: HASH_ADD_PTR_INORDER_at_def HASH_ADD_PTR_at_def HASH_ADD_PTR_INORDER_def
        HASH_ADD_PTR_def Let_def)
  then show ?thesis using HASH_ADD_PTR_refines [OF assms] by simp
next
  case (Some h)
  define it where "it = \<lparr>it_id = i, it_key = key, it_hashv = HASH_VALUE key\<rparr>"
  have i: "it_id it = i" "it_hashv it = HASH_VALUE (it_key it)" by (simp_all add: it_def)
  obtain t pt x where r: "head = Some x" "table_at a x = Ok (t, pt)"
    "\<And>y. y \<in> set (h_items h) \<Longrightarrow> node_rep a t y" "distinct (map it_id (h_items h))"
    "dll (ar_prev a) (ar_next a) None head (map it_id (h_items h)) (to_tail pt) None"
    "table_rep (ar_hh_prev a) (ar_hh_next a) pt (h_tbl h)" "x = it_id (hd (h_items h))"
    by (rule hash_repE [OF rep [unfolded Some] ok [unfolded Some]]) (rule that)
  have ne: "h_items h \<noteq> []" using ok Some by (simp add: hash_ok_def)
  have fresh: "i \<notin> set (map it_id (h_items h))" using new(2) Some by (simp add: items_def)
  have x: "x \<in> set (map it_id (h_items h))" using r(7) ne by simp
  have other: "x \<noteq> i" using x fresh by blast
  define a0 where "a0 = a\<lparr>ar_hashv := (ar_hashv a)(i := HASH_VALUE key), ar_key := (ar_key a)(i := key),
      ar_keylen := (ar_keylen a)(i := 8)\<rparr>"
  have a0_tbl: "ar_tbl a0 = ar_tbl a" by (simp add: a0_def)
  define a1 where "a1 = a0\<lparr>ar_tbl := (ar_tbl a)(i := Some t)\<rparr>"
  have same: "ar_live a1 = ar_live a" "ar_prev a1 = ar_prev a" "ar_next a1 = ar_next a"
    by (simp_all add: a1_def a0_def)
  have tables: "table_at a0 x = Ok (t, pt)" using r(2) other by (simp add: table_at_Ok a0_def)
  have live: "y \<in> set (h_items h) \<Longrightarrow> ar_live a (it_id y)" for y using r(3) by (simp add: node_rep_def)
  have "HASH_AKBI_INNER_LOOP cmpfcn (it_id it) a1 x =
      Some (Ok (case dropWhile (\<lambda>x. order_by cmpfcn x it) (h_items h) of [] \<Rightarrow> None | y # _ \<Rightarrow> Some (it_id y)))"
    using r(1,5) live ne same by (intro AKBI_Ok [where P = "ar_prev a" and pr = None]) auto
  note loop = this [unfolded i]
  show ?thesis
  proof (cases "dropWhile (\<lambda>x. order_by cmpfcn x it) (h_items h)")
    case Nil
    note none = loop [unfolded Nil list.case]
    have "HASH_ADD_PTR_INORDER_at mem cmpfcn i key a head = HASH_ADD_PTR_at mem i key a head"
      using none r(1) tables new(1)
      by (simp add: HASH_ADD_PTR_INORDER_at_def HASH_ADD_PTR_at_def Let_def element_def a0_def [symmetric] a0_tbl a1_def [symmetric])
    moreover have "insert_in_order cmpfcn it (h_items h) = h_items h @ [it]"
      using Nil by (intro insert_in_order_last) (simp add: dropWhile_eq_Nil_conv)
    then have "HASH_ADD_PTR_INORDER mem cmpfcn i key hs = HASH_ADD_PTR mem i key hs"
      using Some by (simp add: HASH_ADD_PTR_INORDER_def HASH_ADD_PTR_def it_def [symmetric] Let_def)
    ultimately show ?thesis using HASH_ADD_PTR_refines [OF assms] by simp
  next
    case (Cons y ys)
    note found = loop [unfolded Cons list.case]
    define xs where "xs = takeWhile (\<lambda>x. order_by cmpfcn x it) (h_items h)"
    have split: "h_items h = xs @ y # ys" "insert_in_order cmpfcn it (h_items h) = xs @ it # y # ys"
      using Cons takeWhile_dropWhile_id [of "\<lambda>x. order_by cmpfcn x it" "h_items h"]
      by (simp_all add: xs_def insert_in_order_def)
    define h' where "h' = (if ar_prev a (it_id y) = None then i else x)"
    define a2 where "a2 = a1\<lparr>ar_prev := (ar_prev a)(i := ar_prev a (it_id y), it_id y := Some i),
        ar_next := before_next i (it_id y) (ar_prev a) (ar_next a)\<rparr>"
    have "link_before i (it_id y) a1 x = Ok (a2, h')"
      using link_before_Ok [of a1 x xs y ys "to_tail pt" i] r(1,5) split(1) live fresh same by (simp add: a2_def h'_def)
    then have at: "HASH_ADD_PTR_INORDER_at mem cmpfcn i key a head =
        then_run (HASH_ADD_TO_TABLE_at mem h' (it_id it) a2) (\<lambda>a.
          then_run (HASH_FSCK_at a (Some h')) (\<lambda>a. Some (Ok (a, Some h'))))"
      using found r(1) tables new(1) i(1)
      by (simp add: HASH_ADD_PTR_INORDER_at_def Let_def element_def a0_def [symmetric] a0_tbl a1_def [symmetric])
    have order: "dll (ar_prev a2) (ar_next a2) None (Some h') (map it_id (insert_in_order cmpfcn it (h_items h)))
        (to_tail pt) None"
      using dll_insert [of "ar_prev a" "ar_next a" "Some x" "map it_id xs" "it_id y" "map it_id ys" "to_tail pt" i]
        r(1,4,5) fresh split i(1) by (auto simp: a2_def h'_def split: if_splits)
    have node: "node_rep a2 t z" if "z \<in> set (insert_in_order cmpfcn it (h_items h))" for z
    proof (cases "z = it")
      case True
      then show ?thesis using new(1) by (simp add: node_rep_def a2_def a1_def a0_def it_def)
    next
      case False
      then have "z \<in> set (h_items h)" using that by (simp add: set_insert_in_order)
      then show ?thesis using r(3) fresh by (auto simp: node_rep_def a2_def a1_def a0_def)
    qed
    have "h' = i \<or> h' = x" by (simp add: h'_def)
    then have "table_at a2 h' = Ok (t, pt)"
      using r(2) new(1) by (auto simp: table_at_Ok a2_def a1_def a0_def)
    moreover have "distinct (map it_id (insert_in_order cmpfcn it (h_items h)))"
      using r(4) fresh split(1) unfolding split(2) by (auto simp: i)
    moreover have "table_rep (ar_hh_prev a2) (ar_hh_next a2) pt (h_tbl h)"
      using r(6) by (simp add: table_rep_def a2_def a1_def a0_def)
    moreover have "table_ok (h_tbl h)" "mset (items_of (ht_buckets (h_tbl h))) = mset (h_items h)"
      "\<And>z. z \<in> set (insert_in_order cmpfcn it (h_items h)) \<Longrightarrow> it_hashv z = HASH_VALUE (it_key z)"
      using ok Some i(2) by (auto simp: hash_ok_def set_insert_in_order)
    ultimately have "heap_result (ar_live a2)
        (then_run (HASH_ADD_TO_TABLE_at mem h' (it_id it) a2) (\<lambda>a.
           then_run (HASH_FSCK_at a (Some h')) (\<lambda>a. Some (Ok (a, Some h')))))
        (and_then (HASH_ADD_TO_TABLE mem it (h_tbl h)) (\<lambda>T.
           HASH_FSCK (Some \<lparr>h_items = insert_in_order cmpfcn it (h_items h), h_tbl = T\<rparr>)))"
      using node order mset_insert_in_order assms(3) by (intro add_linked_refines) auto
    moreover have "HASH_ADD_PTR_INORDER mem cmpfcn i key hs = and_then (HASH_ADD_TO_TABLE mem it (h_tbl h)) (\<lambda>T.
        HASH_FSCK (Some \<lparr>h_items = insert_in_order cmpfcn it (h_items h), h_tbl = T\<rparr>))"
      using Some by (cases h) (simp add: HASH_ADD_PTR_INORDER_def it_def Let_def)
    moreover have "ar_live a2 = ar_live a" by (simp add: a2_def same)
    ultimately show ?thesis using at by simp
  qed
qed

section \<open>Replacement\<close>

text \<open>The entry of the key, if there is one, is taken out; \<open>replaced\<close> is that entry.\<close>

definition delete_replaced :: "u64 \<Rightarrow> arena \<Rightarrow> nat option \<Rightarrow> (arena \<times> nat option \<times> nat option) outcome option" where
  "delete_replaced key a head =
     then_run (HASH_FIND_PTR_at a head key) (\<lambda>replaced.
     case replaced of
       None \<Rightarrow> Some (Ok (a, head, None))
     | Some j \<Rightarrow>
         (case head of None \<Rightarrow> Some (Fail Undefined_Behaviour)
          | Some h \<Rightarrow> then_run (HASH_DELETE_at j a h) (\<lambda>(a, head). Some (Ok (a, head, Some j)))))"

definition HASH_REPLACE_PTR_at ::
    "memory \<Rightarrow> nat \<Rightarrow> u64 \<Rightarrow> arena \<Rightarrow> nat option \<Rightarrow> (arena \<times> nat option \<times> nat option) outcome option" where
  "HASH_REPLACE_PTR_at mem i key a head =
     then_run (Some (element a (Some i))) (\<lambda>i.
     then_run (delete_replaced key a head) (\<lambda>(a, head, replaced).
     then_run (HASH_ADD_PTR_at mem i key a head) (\<lambda>(a, head).
     Some (Ok (a, head, replaced)))))"

definition HASH_REPLACE_PTR_INORDER_at ::
    "memory \<Rightarrow> (nat \<Rightarrow> nat \<Rightarrow> int) \<Rightarrow> nat \<Rightarrow> u64 \<Rightarrow> arena \<Rightarrow> nat option \<Rightarrow>
      (arena \<times> nat option \<times> nat option) outcome option" where
  "HASH_REPLACE_PTR_INORDER_at mem cmpfcn i key a head =
     then_run (Some (element a (Some i))) (\<lambda>i.
     then_run (delete_replaced key a head) (\<lambda>(a, head, replaced).
     then_run (HASH_ADD_PTR_INORDER_at mem cmpfcn i key a head) (\<lambda>(a, head).
     Some (Ok (a, head, replaced)))))"

text \<open>Keys that no two entries share; the entry of a key, and the others.\<close>

definition keys_unique :: "hash option \<Rightarrow> bool" where
  "keys_unique hs \<longleftrightarrow> distinct (map it_key (items hs))"

definition without_key :: "u64 \<Rightarrow> item list \<Rightarrow> item list" where
  "without_key key its = filter (\<lambda>it. it_key it \<noteq> key) its"

lemma remove1_without_key:
  "distinct (map it_key its) \<Longrightarrow> it \<in> set its \<Longrightarrow> remove1 it its = without_key (it_key it) its"
proof (induction its)
  case (Cons x its)
  show ?case
  proof (cases "x = it")
    case True
    then have "it_key y \<noteq> it_key it" if "y \<in> set its" for y
      using that Cons.prems(1) True by (metis distinct.simps(2) image_eqI list.set_map list.map(2))
    then show ?thesis using True by (simp add: without_key_def filter_id_conv)
  next
    case False
    then have "it_key x \<noteq> it_key it" using Cons.prems by force
    then show ?thesis using False Cons by (simp add: without_key_def)
  qed
qed simp

text \<open>Deleting leaves the number of buckets, and so what the next expansion needs.\<close>

lemma HASH_DELETE_granted:
  assumes "HASH_DELETE it h = Ok hs'" "granted mem (Some h)" "enough mem"
  shows "granted mem hs'"
proof (cases hs')
  case None
  then show ?thesis using assms(3) by (simp add: granted_def enough_def sizeof_bucket_def)
next
  case (Some h')
  then have "ht_num_buckets (h_tbl h') = ht_num_buckets (h_tbl h)"
    using assms(1)
    by (auto simp: HASH_DELETE_def HASH_DEL_IN_BKT_def Let_def and_then_Ok_iff split: if_splits dest!: HASH_FSCK_same)
  then show ?thesis using assms(2) Some by (simp add: granted_def growth_granted_def)
qed

lemma delete_replaced_Ok:
  assumes "hash_rep a head hs" "hash_ok hs" "keys_unique hs"
  shows "\<exists>a' head' hs'. delete_replaced key a head =
      Some (Ok (a', head', map_option it_id (find (\<lambda>it. it_key it = key) (items hs)))) \<and>
    hash_rep a' head' hs' \<and> hash_ok hs' \<and> ar_live a' = ar_live a \<and> items hs' = without_key key (items hs) \<and>
    (granted mem hs \<longrightarrow> enough mem \<longrightarrow> granted mem hs')"
proof -
  obtain r where r: "HASH_FIND_PTR hs key = Ok r"
    "case r of None \<Rightarrow> \<forall>it \<in> set (items hs). it_key it \<noteq> key
     | Some i \<Rightarrow> \<exists>it \<in> set (items hs). it_key it = key \<and> it_id it = i"
    using HASH_FIND_PTR_ok [OF assms(2), of key] by blast
  have at: "HASH_FIND_PTR_at a head key = Some (Ok r)"
    using HASH_FIND_PTR_refines [OF assms(1,2), of key] r(1) by simp
  show ?thesis
  proof (cases r)
    case None
    then have "find (\<lambda>it. it_key it = key) (items hs) = None" "without_key key (items hs) = items hs"
      using r(2) by (auto simp: find_None_iff without_key_def filter_id_conv)
    then show ?thesis using at None assms(1,2) by (auto simp: delete_replaced_def)
  next
    case (Some j)
    then obtain it where it: "it \<in> set (items hs)" "it_key it = key" "it_id it = j" using r(2) by auto
    then obtain h where h: "hs = Some h" "it \<in> set (h_items h)" by (cases hs) (auto simp: items_def)
    obtain x where x: "head = Some x"
      by (rule hash_repE [OF assms(1,2) [unfolded h(1)]]) (rule that)
    have unique: "distinct (map it_key (h_items h))" using assms(3) h(1) by (simp add: keys_unique_def items_def)
    obtain hs' where hs': "HASH_DELETE it h = Ok hs'" "hash_ok hs'" "items hs' = remove1 it (h_items h)"
      using HASH_DELETE_ok [OF assms(2) [unfolded h(1)] h(2)] by blast
    obtain a' head' where a': "HASH_DELETE_at j a x = Some (Ok (a', head'))" "hash_rep a' head' hs'" "ar_live a' = ar_live a"
      using HASH_DELETE_refines [OF _ _ h(2), of a x] assms(1,2) h(1) x hs'(1) it(3)
      by (auto simp: heap_result_def split: option.splits outcome.splits)
    have "find (\<lambda>it. it_key it = key) (items hs) \<noteq> None" using it(1,2) by (auto simp: find_None_iff)
    then obtain y where y: "find (\<lambda>it. it_key it = key) (items hs) = Some y" by auto
    then have "y \<in> set (items hs)" "it_key y = key" by (auto simp: find_Some_iff)
    then have "y = it" using it(1,2) assms(3) by (auto simp: keys_unique_def distinct_map inj_on_def)
    then have "map_option it_id (find (\<lambda>it. it_key it = key) (items hs)) = Some j" using y(1) it(3) by simp
    moreover have "items hs' = without_key key (items hs)"
      using hs'(3) remove1_without_key [OF unique h(2)] it(2) h(1) by (simp add: items_def)
    moreover have "delete_replaced key a head = Some (Ok (a', head', Some j))"
      using at Some x a'(1) by (simp add: delete_replaced_def)
    ultimately show ?thesis using a'(2,3) hs'(2) HASH_DELETE_granted [OF hs'(1)] h(1) by auto
  qed
qed

lemma HASH_REPLACE_PTR_Ok:
  assumes "hash_rep a head hs" "hash_ok hs" "keys_unique hs" "ar_live a i" "i \<notin> it_id ` set (items hs)"
    and mem: "enough mem" "granted mem hs"
  shows "\<exists>a' head' hs'. HASH_REPLACE_PTR_at mem i key a head =
      Some (Ok (a', head', map_option it_id (find (\<lambda>it. it_key it = key) (items hs)))) \<and>
    hash_rep a' head' hs' \<and> hash_ok hs' \<and> ar_live a' = ar_live a \<and>
    items hs' = without_key key (items hs) @ [\<lparr>it_id = i, it_key = key, it_hashv = HASH_VALUE key\<rparr>]"
proof -
  have limited: "limited mem" using mem(1) by (simp add: enough_def)
  obtain b hd hs' where del: "delete_replaced key a head =
      Some (Ok (b, hd, map_option it_id (find (\<lambda>it. it_key it = key) (items hs))))"
    "hash_rep b hd hs'" "hash_ok hs'" "ar_live b = ar_live a" "items hs' = without_key key (items hs)" "granted mem hs'"
    using delete_replaced_Ok [OF assms(1-3), of key mem] mem by blast
  have "i \<notin> it_id ` set (items hs')" using assms(5) del(5) by (auto simp: without_key_def)
  then have add: "heap_result (ar_live b) (HASH_ADD_PTR_at mem i key b hd) (HASH_ADD_PTR mem i key hs')"
    using del limited assms(4) by (intro HASH_ADD_PTR_refines) auto
  have "HASH_REPLACE_PTR_at mem i key a head = then_run (HASH_ADD_PTR_at mem i key b hd) (\<lambda>(a, head).
      Some (Ok (a, head, map_option it_id (find (\<lambda>it. it_key it = key) (items hs)))))"
    using del(1) assms(4) by (simp add: HASH_REPLACE_PTR_at_def element_def)
  moreover obtain hs'' where "HASH_ADD_PTR mem i key hs' = Ok hs''" "hash_ok hs''"
    "items hs'' = items hs' @ [\<lparr>it_id = i, it_key = key, it_hashv = HASH_VALUE key\<rparr>]"
    using HASH_ADD_PTR_cases [OF del(3) limited, of i key] del(6) by blast
  ultimately show ?thesis
    using add del(4,5) by (auto simp: heap_result_def split: option.splits outcome.splits)
qed

section \<open>Counting, and dropping the table\<close>

definition HASH_CNT :: "arena \<Rightarrow> nat option \<Rightarrow> u32 outcome" where
  "HASH_CNT a head =
     (case head of None \<Rightarrow> Ok 0 | Some h \<Rightarrow> and_then (table_at a h) (\<lambda>(_, pt). Ok (to_num_items pt)))"

definition sizeof_handle :: u64 where "sizeof_handle = 56"

definition HASH_OVERHEAD :: "arena \<Rightarrow> nat option \<Rightarrow> u64 outcome" where
  "HASH_OVERHEAD a head =
     (case head of None \<Rightarrow> Ok 0
      | Some h \<Rightarrow> and_then (table_at a h) (\<lambda>(_, pt).
          Ok (ucast (to_num_items pt) * sizeof_handle + ucast (to_num_buckets pt) * of_nat sizeof_bucket +
              of_nat sizeof_table)))"

definition HASH_CLEAR :: "arena \<Rightarrow> nat option \<Rightarrow> (arena \<times> nat option) outcome" where
  "HASH_CLEAR a head =
     (case head of None \<Rightarrow> Ok (a, None)
      | Some h \<Rightarrow> and_then (table_at a h) (\<lambda>(t, _). Ok (put_table t None a, None)))"

lemma HASH_CNT_Ok:
  assumes "hash_rep a head hs" "hash_ok hs"
  shows "HASH_CNT a head = Ok (of_nat (length (items hs)))"
proof (cases hs)
  case None
  then show ?thesis using assms(1) by (simp add: hash_rep_def HASH_CNT_def items_def)
next
  case (Some h)
  obtain t pt x where "head = Some x" "table_at a x = Ok (t, pt)"
    "table_rep (ar_hh_prev a) (ar_hh_next a) pt (h_tbl h)"
    by (rule hash_repE [OF assms [unfolded Some]]) (rule that)
  moreover have "ht_num_items (h_tbl h) = of_nat (length (h_items h))"
    using assms(2) Some by (auto simp: hash_ok_def table_ok_def dest: mset_eq_length)
  ultimately show ?thesis using Some by (simp add: HASH_CNT_def table_rep_def items_def)
qed

text \<open>The table is freed, and the entries are not.\<close>

lemma HASH_CLEAR_Ok:
  assumes "hash_rep a head hs" "hash_ok hs"
  shows "\<exists>a'. HASH_CLEAR a head = Ok (a', None) \<and> hash_rep a' None None \<and> ar_live a' = ar_live a \<and>
    (\<forall>h t. head = Some h \<longrightarrow> ar_tbl a h = Some t \<longrightarrow> ar_tables a' t = None)"
proof (cases hs)
  case None
  then show ?thesis using assms(1) empty_rep by (simp add: hash_rep_def HASH_CLEAR_def)
next
  case (Some h)
  obtain t pt x where "head = Some x" "table_at a x = Ok (t, pt)"
    by (rule hash_repE [OF assms [unfolded Some]]) (rule that)
  then have "HASH_CLEAR a head = Ok (put_table t None a, None)" by (simp add: HASH_CLEAR_def)
  moreover have "ar_tbl a x = Some t" using \<open>table_at a x = Ok (t, pt)\<close> by (simp add: table_at_Ok)
  ultimately show ?thesis using \<open>head = Some x\<close> empty_rep by auto
qed

section \<open>Properties\<close>

text \<open>Where the table is not empty, sorted insertion differs from insertion at the end in the place only.\<close>

lemma HASH_ADD_PTR_INORDER_eq:
  "HASH_ADD_PTR_INORDER mem cmpfcn i key hs =
     and_then (HASH_ADD_PTR mem i key hs) (\<lambda>hs'. Ok (map_option (\<lambda>h. h\<lparr>h_items :=
       insert_in_order cmpfcn \<lparr>it_id = i, it_key = key, it_hashv = HASH_VALUE key\<rparr> (items hs)\<rparr>) hs'))"
proof -
  let ?it = "\<lparr>it_id = i, it_key = key, it_hashv = HASH_VALUE key\<rparr>"
  have len: "length (insert_in_order cmpfcn ?it its) = Suc (length its)" for its
    by (metis mset_insert_in_order size_add_mset size_mset)
  have fsck: "HASH_FSCK (Some \<lparr>h_items = ks, h_tbl = t\<rparr>) =
      and_then (HASH_FSCK (Some \<lparr>h_items = its, h_tbl = t\<rparr>)) (\<lambda>hs'. Ok (map_option (\<lambda>h. h\<lparr>h_items := ks\<rparr>) hs'))"
    if "length ks = length its" for ks its t
    using that by (auto simp: HASH_FSCK_def Let_def)
  have "and_then (HASH_ADD_TO_TABLE mem ?it t) (\<lambda>t. HASH_FSCK (Some \<lparr>h_items = ks, h_tbl = t\<rparr>)) =
      and_then (and_then (HASH_ADD_TO_TABLE mem ?it t) (\<lambda>t. HASH_FSCK (Some \<lparr>h_items = its, h_tbl = t\<rparr>)))
        (\<lambda>hs'. Ok (map_option (\<lambda>h. h\<lparr>h_items := ks\<rparr>) hs'))"
    if "length ks = length its" for ks its t
    using fsck [OF that] by (simp add: and_then_assoc)
  note both = this
  show ?thesis
  proof (cases hs)
    case None
    then show ?thesis using both [of "[?it]" "[?it]"]
      by (cases "HASH_MAKE_TABLE mem")
        (simp_all add: HASH_ADD_PTR_INORDER_def HASH_ADD_PTR_def Let_def items_def insert_in_order_def)
  next
    case (Some h)
    then show ?thesis using both [of "insert_in_order cmpfcn ?it (h_items h)" "h_items h @ [?it]" "h_tbl h"] len
      by (cases h) (simp add: HASH_ADD_PTR_INORDER_def HASH_ADD_PTR_def Let_def items_def)
  qed
qed

text \<open>Sorted insertion walks the application order without following a dangling pointer, links the new entry before
  the first that compares greater, and keeps an order that is sorted by a total preorder sorted; it fails only
  where memory for the table or for twice its buckets is refused.
\<close>

theorem sorted_add_keeps_order:
  assumes "hash_rep a head hs" "hash_ok hs" "limited mem" "ar_live a i" "i \<notin> it_id ` set (items hs)"
    and it: "it = \<lparr>it_id = i, it_key = key, it_hashv = HASH_VALUE key\<rparr>"
    and "preorder_on (order_by cmpfcn) (insert it (set (items hs)))" "sorted_wrt (order_by cmpfcn) (items hs)"
  shows "HASH_ADD_PTR_INORDER_at mem cmpfcn i key a head = Some (Fail Exit_Called) \<and> \<not> granted mem hs \<or>
    (\<exists>a' head' hs'. HASH_ADD_PTR_INORDER_at mem cmpfcn i key a head = Some (Ok (a', head')) \<and>
       hash_rep a' head' hs' \<and> hash_ok hs' \<and> ar_live a' = ar_live a \<and>
       sorted_wrt (order_by cmpfcn) (items hs') \<and> mset (items hs') = add_mset it (mset (items hs)))"
proof -
  note refines = HASH_ADD_PTR_INORDER_refines [OF assms(1-5), of cmpfcn key]
  let ?its = "insert_in_order cmpfcn it (items hs)"
  consider "HASH_ADD_PTR mem i key hs = Fail Exit_Called" "\<not> granted mem hs" |
    hs' where "HASH_ADD_PTR mem i key hs = Ok hs'" "hash_ok hs'" "items hs' = items hs @ [it]"
    using HASH_ADD_PTR_cases [OF assms(2,3), of i key] it by blast
  then show ?thesis
  proof cases
    case 1
    then show ?thesis using refines
      by (auto simp: HASH_ADD_PTR_INORDER_eq heap_result_def split: option.splits outcome.splits)
  next
    case (2 hs')
    then obtain h where h: "hs' = Some h" by (cases hs') (auto simp: items_def)
    let ?hs = "Some (h\<lparr>h_items := ?its\<rparr>)"
    have "mset ?its = mset (items hs')" using 2(3) by (simp add: mset_insert_in_order)
    moreover from this have "set ?its = set (items hs')" by (metis set_mset_mset)
    ultimately have "hash_ok ?hs" using 2(2) h by (auto simp: hash_ok_def items_def)
    moreover have added: "HASH_ADD_PTR_INORDER mem cmpfcn i key hs = Ok ?hs"
      using 2(1) h it by (simp add: HASH_ADD_PTR_INORDER_eq)
    moreover have "items ?hs = ?its" by (simp add: items_def)
    moreover obtain a' head' where "HASH_ADD_PTR_INORDER_at mem cmpfcn i key a head = Some (Ok (a', head'))"
      "hash_rep a' head' ?hs" "ar_live a' = ar_live a"
      using refines unfolding added by (auto simp: heap_result_def split: option.splits outcome.splits)
    ultimately show ?thesis
      using sorted_insert_in_order [OF assms(7,8)] mset_insert_in_order
      by (intro disjI2 exI [of _ a'] exI [of _ head'] exI [of _ ?hs]) simp
  qed
qed

theorem sorted_add_keeps_order_witness:
  "\<exists>a head a' head' hs'. hash_rep a head (same_hash 7 3) \<and>
     HASH_ADD_PTR_INORDER_at megabyte (\<lambda>i j. int ((i + 1) mod 4) - int ((j + 1) mod 4)) 3 11 a head = Some (Ok (a', head')) \<and>
     hash_rep a' head' hs' \<and> sorted_wrt (\<lambda>x y. (it_id x + 1) mod 4 \<le> (it_id y + 1) mod 4) (items hs') \<and>
     mset (map it_id (items hs')) = {#0, 1, 2, 3#}"
proof -
  let ?cmp = "\<lambda>i j. int ((i + 1) mod 4) - int ((j + 1) mod 4)"
  obtain a head where a: "hash_rep a head (same_hash 7 3)" "ar_live a = (\<lambda>_. True)"
    using same_rep [OF megabyte_enough, of 3 7] by auto
  have ok: "hash_ok (same_hash 7 3)" using same_hash_ok [OF megabyte_enough(1), of 3 7] by simp
  have order: "order_by ?cmp = (\<lambda>x y. (it_id x + 1) mod 4 \<le> (it_id y + 1) mod 4)"
    by (auto simp: order_by_def fun_eq_iff)
  have its: "items (same_hash 7 3) = [same_item 7 0, same_item 7 1, same_item 7 2]"
    by (simp add: same_items upt_rec numeral_2_eq_2)
  have pre: "preorder_on (order_by ?cmp) A" for A unfolding order preorder_on_def by auto
  have sorted: "sorted_wrt (order_by ?cmp) (items (same_hash 7 3))" unfolding its order by (simp add: same_item_def)
  have new: "3 \<notin> it_id ` set (items (same_hash 7 3))" unfolding its by (simp add: same_item_def)
  obtain a' head' hs' where *: "HASH_ADD_PTR_INORDER_at megabyte ?cmp 3 11 a head = Some (Ok (a', head'))"
    "hash_rep a' head' hs'" "sorted_wrt (order_by ?cmp) (items hs')"
    "mset (items hs') = add_mset \<lparr>it_id = 3, it_key = 11, it_hashv = HASH_VALUE 11\<rparr> (mset (items (same_hash 7 3)))"
    using sorted_add_keeps_order [OF a(1) ok megabyte_enough(2) _ new refl pre sorted, of 11] a(2)
      same_granted [OF megabyte_enough(1), of 7 3] by auto
  have "mset (map it_id (items hs')) = image_mset it_id (mset (items hs'))" by simp
  also have "\<dots> = {#0, 1, 2, 3#}" unfolding *(4) its by (simp add: same_item_def)
  finally show ?thesis using a(1) *(1-3) unfolding order by blast
qed

text \<open>C22: Replacing keeps the keys of a table unique: the old entry of the key, if there is one, is handed back,
  unlinked and not freed, and the new entry is the one that is found under the key.
\<close>

theorem replace_keeps_keys_unique:
  assumes "hash_rep a head hs" "hash_ok hs" "keys_unique hs" "ar_live a i" "i \<notin> it_id ` set (items hs)"
    and "enough mem" "granted mem hs"
  shows "\<exists>a' head' hs'. HASH_REPLACE_PTR_at mem i key a head =
      Some (Ok (a', head', map_option it_id (find (\<lambda>it. it_key it = key) (items hs)))) \<and>
    hash_rep a' head' hs' \<and> hash_ok hs' \<and> keys_unique hs' \<and> ar_live a' = ar_live a \<and>
    items hs' = without_key key (items hs) @ [\<lparr>it_id = i, it_key = key, it_hashv = HASH_VALUE key\<rparr>] \<and>
    HASH_FIND_PTR_at a' head' key = Some (Ok (Some i))"
proof -
  let ?it = "\<lparr>it_id = i, it_key = key, it_hashv = HASH_VALUE key\<rparr>"
  obtain a' head' hs' where *: "HASH_REPLACE_PTR_at mem i key a head =
      Some (Ok (a', head', map_option it_id (find (\<lambda>it. it_key it = key) (items hs))))"
    "hash_rep a' head' hs'" "hash_ok hs'" "ar_live a' = ar_live a" "items hs' = without_key key (items hs) @ [?it]"
    using HASH_REPLACE_PTR_Ok [OF assms, of key] by blast
  have "keys_unique hs'"
    using assms(3) by (auto simp: keys_unique_def *(5) without_key_def distinct_map_filter)
  moreover obtain r where r: "HASH_FIND_PTR hs' key = Ok r"
    "case r of None \<Rightarrow> \<forall>it \<in> set (items hs'). it_key it \<noteq> key
     | Some i \<Rightarrow> \<exists>it \<in> set (items hs'). it_key it = key \<and> it_id it = i"
    using HASH_FIND_PTR_ok [OF *(3), of key] by blast
  have "r = Some i" using r(2) by (auto simp: *(5) without_key_def split: option.splits)
  then have "HASH_FIND_PTR_at a' head' key = Some (Ok (Some i))"
    using HASH_FIND_PTR_refines [OF *(2,3), of key] r(1) by simp
  ultimately show ?thesis using * by blast
qed

theorem replace_keeps_keys_unique_witness:
  "\<exists>a head a' head'. hash_rep a head (same_hash 7 1) \<and> HASH_REPLACE_PTR_at megabyte 3 7 a head = Some (Ok (a', head', Some 0)) \<and>
     HASH_FIND_PTR_at a' head' 7 = Some (Ok (Some 3)) \<and> ar_live a' 0"
proof -
  obtain a head where a: "hash_rep a head (same_hash 7 1)" "ar_live a = (\<lambda>_. True)"
    using same_rep [OF megabyte_enough, of 1 7] by auto
  have ok: "hash_ok (same_hash 7 1)" using same_hash_ok [OF megabyte_enough(1), of 1 7] by simp
  have its: "items (same_hash 7 1) = [same_item 7 0]" by (simp add: same_items)
  have unique: "keys_unique (same_hash 7 1)" unfolding keys_unique_def its by simp
  have new: "3 \<notin> it_id ` set (items (same_hash 7 1))" unfolding its by (simp add: same_item_def)
  have old: "map_option it_id (find (\<lambda>it. it_key it = 7) (items (same_hash 7 1))) = Some 0"
    unfolding its by (simp add: same_item_def)
  obtain a' head' where "HASH_REPLACE_PTR_at megabyte 3 7 a head = Some (Ok (a', head', Some 0))" "ar_live a' = ar_live a"
    "HASH_FIND_PTR_at a' head' 7 = Some (Ok (Some 3))"
    using replace_keeps_keys_unique [OF a(1) ok unique _ new megabyte_enough(1) same_granted [OF megabyte_enough(1)], of 7]
      a(2) unfolding old by auto
  then show ?thesis using a by metis
qed

end
