(* ===== verification/Spec2Isabelle.thy ===== *)
theory Spec2Isabelle
  imports Threads_Exit Threads_Fork Lock_Order Threads_Alone Threads_Report Threads_Log Threads Runs Profile Lifecycle Perfmon Bloom Hash_Functions
    Uthash_Select Uthash_Inorder Uthash_Sort Merge_Sort Uthash_Heap Linked_List Log_Reading Log Ledger Interpret Uthash Preload Backtrace
    Tracker Sokol_Time Scan Format Print_Float Print_Integer Double Gadget Prelude
begin

text \<open>
  A verification development for jmprof, a heap profiler for GNU/Linux.

  The program. A shared library, \<open>src/preload.c\<close>, is loaded before the C library and takes
  the place of its allocator. It records each allocation and release with its stack
  (\<open>src/backtrace.c\<close>) in a log (\<open>src/tracker.c\<close>), with time stamps from
  \<open>src/external/sokol_time.h\<close>, and formats the lines with a \<open>printf\<close> of its own
  (\<open>src/printf.c\<close>), since that of the C library may allocate. A second program,
  \<open>src/interpret.c\<close>, reads the log, keeps the allocations in a hash table
  (\<open>src/external/uthash.h\<close>), and reports those that were never released. A third program,
  \<open>src/perfmon.c\<close>, opens and closes a group of performance counters; it shares nothing with the others.

  Which theory models what:

  \<^item> \<open>Prelude\<close>: outcomes of calls, words, numbers in a base, shared lemmas.
  \<^item> \<open>Gadget\<close>, \<open>Print_Integer\<close>, \<open>Double\<close>, \<open>Print_Float\<close>,
    \<open>Format\<close>: \<open>printf.c\<close>. An output gadget is a record, printing a function from gadgets
    to gadgets, undefined (\<open>None\<close>) where the code reads or writes outside an object. Each routine is
    shown to emit one string; \<open>render\<close> is the string a format denotes. \<open>Double\<close> is the
    arithmetic of C's \<open>double\<close> on 64-bit words.
  \<^item> \<open>Sokol_Time\<close>: the clock. \<open>Scan\<close>: \<open>fgets\<close>, \<open>sscanf\<close> and
    \<open>strtol\<close> of the C library, as far as the sources use them.
  \<^item> \<open>Tracker\<close>: \<open>tracker.c\<close>, with its static variables and its two mutexes in the
    record \<open>tracker\<close> and everything it reads from the system in the record \<open>world\<close>.
  \<^item> \<open>Backtrace\<close>, \<open>Preload\<close>: \<open>backtrace.c\<close> and \<open>preload.c\<close>, with the
    static variables of both and the tracker in the record \<open>process\<close>. A \<open>call\<close> carries
    the C library's answer to it and the calls that come back into the library while it runs, so that reentrance is
    recursion on the calls. \<open>Lifecycle\<close>: the entry points of the library in any order, as a step relation on
    \<open>process\<close> with its reachable states, and the automaton of four phases that it refines.
  \<^item> \<open>Threads\<close>: the same functions when several threads call them. The code of a call is a list of the steps it takes
    (\<open>instr\<close>) on what the threads share (\<open>shared\<close>: the three mutexes, the flag, the heap, the log), and any interleaving of them is a
    run; a typing of the code by the mutexes a thread holds, and the part of each thread in the life of each block, are invariants.
    \<open>Threads_Log\<close>: the log against the heap, records, time stamps, progress. \<open>Threads_Report\<close>: the report on such a
    log. \<open>Lock_Order\<close>: the order of the mutexes. \<open>Threads_Alone\<close>: for a call that no other disturbs the steps give what
    \<open>Preload\<close> gives. \<open>Threads_Fork\<close>: a fork by one of them. \<open>Threads_Exit\<close>: the end of the program in one of
    them while the others go on. The three kinds of run are interpretations of the locale \<open>transition_runs\<close> of \<open>Runs\<close>.
  \<^item> \<open>Uthash\<close>: the macros of \<open>uthash.h\<close> that the interpreter expands, on lists of
    items for the chains and the application order; the locale \<open>entry_store\<close> is what the interpreter
    relies on, and is interpreted on them. \<open>Uthash_Heap\<close>: the same macros as they are written, on
    handles linked by pointers in a heap (\<open>arena\<close>), with every dereference checked; \<open>Linked_List\<close> has the
    lemmas on doubly linked lists. \<open>hash_rep\<close> relates the two levels. \<open>Uthash_Sort\<close> (with the list
    algorithm in \<open>Merge_Sort\<close>) and \<open>Uthash_Inorder\<close>: sorting, sorted insertion, replacement, counting and clearing on the same heap;
    \<open>Uthash_Select\<close>: selection into a second hash.
    \<open>Hash_Functions\<close>, \<open>Bloom\<close>: what the header offers in place of Jenkins' hash function, and the filter in front of a lookup.
  \<^item> \<open>Interpret\<close>: \<open>interpret.c\<close>; \<open>libdwfl\<close> is the record \<open>dwarf\<close>.
  \<^item> \<open>Log\<close>: the protocol between the two programs, the events and the lines for them.
    \<open>Ledger\<close>: the abstract specification of the interpreter. \<open>Log_Reading\<close>: the logs it reads to
    their end. \<open>Profile\<close>: sessions, from the program's calls to the report.
  \<^item> \<open>Perfmon\<close>: \<open>perfmon.c\<close>, with the calls to the kernel and to \<open>libpfm\<close> in the order they are made and
    their answers as a parameter.

  A result of type \<open>outcome\<close> tells the ways a call can end apart: \<open>Ok\<close>, a failed assertion,
  \<open>exit\<close>, a wait for a lock that the same thread holds (\<open>Deadlock\<close>), and undefined behaviour.

  What is shown. For \<open>printf.c\<close>: no routine leaves its buffers, integers are printed as ISO C says, and
  every format prints what it denotes. For the library: calls are transparent, guards and locks are released,
  each call writes its record, and the places where that ends (unwinding that calls another function of the
  allocator, a fork after unloading, lines beyond the buffer, the lock of the dirty flag); locks, guards and keys in
  every reachable state. For several threads: records stay whole and in the order of the calls, the log
  follows the heap, time stamps are in order, mutexes are taken in one order, every call can finish, and the report names the
  blocks that are left, unless one thread allocates while another forks; when one thread ends the program, the file it leaves is
  still that of an ordinary run, but calls that are under way use what has been taken from them. For the hash table: the invariant, lookup, deletion, and what an expansion does to equal keys;
  and that the linked handles refine it, so that no loop along them runs for ever and no freed entry is used; that sorting
  ends for every comparison, sorts stably and keeps the table; that replacement keeps keys unique; that a selection makes a
  hash of the selected entries, whose next addition fails. For the
  counters: which calls are made, and that those opened are closed. For the whole: what is written
  is read back, the interpreter refines the ledger, and the report names exactly the blocks that were not
  released, as long as no address is used twice; with the runs in which it does not.

  Bounds. The loops are total functions: each recursion is structural or has a measure, and no fuel is used. Only the
  loops along links in \<open>Uthash_Heap\<close>, \<open>Uthash_Sort\<close>, \<open>Uthash_Inorder\<close> and \<open>Uthash_Select\<close> need not end in every heap; they are
  \<open>partial_function (option)\<close>, and the refinement theorems give them a result.
  Words have the widths of the LP64 target, on which \<open>long\<close> and pointers have 64 bits.
  \<open>limited\<close> says that no object of 64 gigabytes is granted, which keeps the number of buckets below
  \<open>2 ^ 31\<close>; a log body of at most 2025 bytes fits a line with any time stamp.

  Not modelled: the shell scripts under \<open>src/bin\<close>; of \<open>uthash.h\<close>, what no code of the program expands and is not
  listed above (recovery from a failed allocation, writing out the keys, keys of other
  widths than a pointer's); the branches of \<open>sokol_time.h\<close> for other systems. \<open>Threads\<close> leaves out what \<open>Preload\<close>
  and \<open>Lifecycle\<close> are about, but for forks and the end of the program: calls that come back into the library from the same thread, loading.
  A step of a thread there is atomic; it reads or writes what the threads share at one place.
\<close>

end
